(* ===== verification/Go_Prelude.thy ===== *)
theory Go_Prelude
  imports Main "HOL-Library.Word" "HOL-Library.Stream" "HOL-Library.Finite_Map"
    "HOL-Library.AList"
begin

text \<open>
  Prelude of the development: the Go base types the program uses, Go's map reads, its error
  values, and the generic lemmas (64-bit indices, contiguous index lists, association lists)
  that the component theories share.

  A \<open>uint64\<close> is a \<open>64 word\<close>, so \<open>+ 1\<close> and \<open>-\<close> wrap as they do in Go and \<open>\<le>\<close> is the
  unsigned order.  A Go \<open>string\<close> is its list of bytes.  A \<open>time.Duration\<close> or a
  \<open>time.Time\<close> is an integer number of nanoseconds.
\<close>

section \<open>Base types\<close>

type_synonym u64 = "64 word"
type_synonym duration = int
type_synonym time = int
type_synonym smap = "(string, string) fmap"

text \<open>Reading a Go map yields the zero value of the element type for a missing key.\<close>

definition get_u64 :: "(string \<rightharpoonup> u64) \<Rightarrow> string \<Rightarrow> u64" where
  "get_u64 m k = (case m k of None \<Rightarrow> 0 | Some v \<Rightarrow> v)"

definition get_str :: "(string \<rightharpoonup> string) \<Rightarrow> string \<Rightarrow> string" where
  "get_str m k = (case m k of None \<Rightarrow> '''' | Some v \<Rightarrow> v)"

definition get_bool :: "(string \<rightharpoonup> bool) \<Rightarrow> string \<Rightarrow> bool" where
  "get_bool m k = (case m k of None \<Rightarrow> False | Some v \<Rightarrow> v)"

text \<open>
  Go's \<open>error\<close> values, by how the program makes and tells them apart: an \<open>errors.New\<close> value
  carries its text and a \<open>fmt.Errorf\<close> value the text of its format, the context package has two,
  \<open>encoding/json\<close>'s errors are one value, the operating system's carry their text, with
  \<open>os.ErrNotExist\<close> apart, and package raft declares three of its own.
\<close>

datatype goerror =
    ErrorString string
  | ErrNotLeader
  | ErrNodeStopped
  | NotLeaderError string string
  | ProposalUnknownError u64 goerror
  | ContextCanceled
  | DeadlineExceeded
  | JSONError
  | ErrNotExist
  | OSError string

section \<open>Shared lemma collections\<close>

named_theorems u64_simps \<open>turning order and successor of uint64 values into nat arithmetic\<close>
named_theorems frame_simps \<open>which fields an operation leaves alone\<close>

section \<open>64-bit indices\<close>

lemma unat_max_u64: "unat (a :: u64) < 2 ^ 64"
  using unsigned_less [of a] by simp

lemma less_u64_unat [u64_simps]: "(a :: u64) < b \<longleftrightarrow> unat a < unat b"
  by (rule word_less_nat_alt)

lemma le_u64_unat [u64_simps]: "(a :: u64) \<le> b \<longleftrightarrow> unat a \<le> unat b"
  by (rule word_le_nat_alt)

lemma eq_u64_unat: "(a :: u64) = b \<longleftrightarrow> unat a = unat b"
  by (rule word_unat_eq_iff)

lemma unat_Suc_u64_max: "Suc (unat (a :: u64)) < 2 ^ 64 \<Longrightarrow> unat (a + 1) = Suc (unat a)"
  by (simp add: unat_word_ariths)

lemma unat_Suc_u64: "unat (a :: u64) < unat (b :: u64) \<Longrightarrow> unat (a + 1) = Suc (unat a)"
  using unat_max_u64 [of b] by (intro unat_Suc_u64_max) linarith

lemma unat_add_u64: "unat (a :: u64) + unat b < 2 ^ 64 \<Longrightarrow> unat (a + b) = unat a + unat b"
  by (simp add: unat_word_ariths)

lemma unat_of_nat_u64: "k < 2 ^ 64 \<Longrightarrow> unat (of_nat k :: u64) = k"
  by (simp add: unat_of_nat)

lemma unat_of_int_u64:
  assumes "0 \<le> k" and "k < 2 ^ 64"
  shows "unat (of_int k :: u64) = nat k"
proof -
  have "k = int (nat k)" using assms by simp
  then have "(of_int k :: u64) = of_nat (nat k)" by (metis of_int_of_nat_eq)
  moreover have "nat k < 2 ^ 64" using assms by (simp add: nat_less_iff)
  ultimately show ?thesis by (simp only: unat_of_nat_u64)
qed

lemma unat_pred_u64: "(a :: u64) \<noteq> 0 \<Longrightarrow> unat (a - 1) = unat a - 1"
  by (simp add: unat_minus_one)

lemma unat_diff_u64: "(b :: u64) \<le> a \<Longrightarrow> unat (a - b) = unat a - unat b"
  by (rule unat_sub)

lemma unat_offset_u64:
  assumes "(b :: u64) < a"
  shows "unat (a - b - 1) = unat a - unat b - 1"
proof -
  have "unat (a - b) = unat a - unat b"
    using assms by (simp add: unat_diff_u64 less_imp_le)
  moreover have "a - b \<noteq> 0" using assms by auto
  ultimately show ?thesis by (simp add: unat_pred_u64)
qed

lemma plus_one_eq_u64: "a < b \<Longrightarrow> b = a + 1 \<longleftrightarrow> unat b = Suc (unat (a :: u64))"
  using unat_Suc_u64 [of a b] by (subst eq_u64_unat) (simp only: less_u64_unat)

lemma unat_pos_u64: "(a :: u64) \<noteq> 0 \<Longrightarrow> 0 < unat a"
  by (simp add: unat_gt_0)

lemma pred_less_u64: "(i :: u64) \<noteq> 0 \<Longrightarrow> i - 1 < i"
  using unat_pos_u64 [of i] by (simp add: less_u64_unat unat_pred_u64)

lemma le_pred_u64:
  assumes "(i :: u64) \<noteq> 0"
  shows "j \<le> i \<longleftrightarrow> j = i \<or> j \<le> i - 1"
  unfolding le_u64_unat eq_u64_unat unat_pred_u64 [OF assms] using unat_pos_u64 [OF assms]
  by linarith

lemma le_wrap_u64: "(a :: u64) + 1 = 0 \<Longrightarrow> b \<le> a"
  by (simp add: eq_neg_iff_add_eq_0 [symmetric])

section \<open>Lists of consecutive numbers\<close>

lemma upt_eq_ConsD: "[m..<n] = x # xs \<Longrightarrow> x = m \<and> m < n \<and> xs = [Suc m..<n]"
  by (auto simp: upt_eq_Cons_conv)

lemma map_upt_nth: "map f xs = [m..<m + length xs] \<Longrightarrow> i < length xs \<Longrightarrow> f (xs ! i) = m + i"
  by (metis add_less_cancel_left nth_map nth_upt)

lemma map_upt_last: "map f xs = [m..<m + length xs] \<Longrightarrow> xs \<noteq> [] \<Longrightarrow> Suc (f (last xs)) = m + length xs"
  by (simp add: last_conv_nth map_upt_nth)

lemma map_upt_take:
  "map f xs = [m..<m + length xs] \<Longrightarrow> map f (take k xs) = [m..<m + length (take k xs)]"
  by (simp add: take_map [symmetric] min_def)

lemma map_upt_drop:
  "map f xs = [m..<m + length xs] \<Longrightarrow> k \<le> length xs \<Longrightarrow>
   map f (drop k xs) = [m + k..<m + k + length (drop k xs)]"
  by (simp add: drop_map [symmetric])

lemma map_upt_append:
  "map f xs = [m..<m + length xs] \<Longrightarrow> map f ys = [m + length xs..<m + length xs + length ys] \<Longrightarrow>
   map f (xs @ ys) = [m..<m + length (xs @ ys)]"
  using upt_add_eq_append [of m "m + length xs" "length ys"] by (simp add: add.assoc)

lemma map_upt_filter_gt:
  fixes f :: "'a \<Rightarrow> nat"
  assumes "map f xs = [m..<m + length xs]"
  shows "filter (\<lambda>x. k < f x) xs = drop (Suc k - m) xs"
  using assms
proof (induction xs arbitrary: m)
  case Nil
  then show ?case by simp
next
  case (Cons x xs)
  from Cons.prems have "f x # map f xs = m # [Suc m..<Suc m + length xs]"
    by (simp add: upt_conv_Cons del: upt_Suc)
  then have x: "f x = m" and xs: "map f xs = [Suc m..<Suc m + length xs]"
    by simp_all
  have IH: "filter (\<lambda>x. k < f x) xs = drop (Suc k - Suc m) xs"
    by (rule Cons.IH [OF xs])
  show ?case
  proof (cases "k < m")
    case True
    then show ?thesis using IH x by simp
  next
    case False
    then have "Suc k - m = Suc (k - m)" by arith
    then show ?thesis using IH x False by simp
  qed
qed

section \<open>Copying finite maps\<close>

lemma fold_fmupd_lookup:
  "distinct (map fst kvs) \<Longrightarrow>
   fmlookup (fold (\<lambda>(k, v) d. fmupd k v d) kvs d) k =
   (case map_of kvs k of None \<Rightarrow> fmlookup d k | Some v \<Rightarrow> Some v)"
proof (induction kvs arbitrary: d)
  case Nil
  then show ?case by simp
next
  case (Cons kv kvs)
  obtain k' v' where kv: "kv = (k', v')" by (cases kv)
  with Cons.prems have "map_of kvs k' = None" by (simp add: map_of_eq_None_iff)
  with Cons kv show ?case by (auto split: option.splits)
qed

lemma distinct_sorted_list_of_fmap: "distinct (map fst (sorted_list_of_fmap m))"
  by (simp add: sorted_list_of_fmap_def o_def sorted_list_of_fset.rep_eq)

lemma fold_fmupd_sorted_list:
  "fold (\<lambda>(k, v) d. fmupd k v d) (sorted_list_of_fmap m) fmempty = m"
  by (intro fmap_ext)
    (simp add: fold_fmupd_lookup distinct_sorted_list_of_fmap split: option.splits)

end
