(* ===== verification/Storage_Types.thy ===== *)
theory Storage_Types
  imports Go_Prelude
begin

text \<open>
  The data of \<open>internal/storage/types.go\<close>: commands, their results, log entries, the hard
  state and snapshots.  An \<open>Operation\<close> is a string in the source, so a command may carry an
  operation the state machine does not know.  A nil \<open>map[string]string\<close> is \<open>None\<close>.
\<close>

type_synonym Operation = string

definition OpPut :: Operation where "OpPut = ''put''"
definition OpDelete :: Operation where "OpDelete = ''delete''"
definition OpCAS :: Operation where "OpCAS = ''cas''"
definition OpNoop :: Operation where "OpNoop = ''noop''"

lemmas Op_defs = OpPut_def OpDelete_def OpCAS_def OpNoop_def

record Command =
  cmd_Op :: Operation
  cmd_Key :: string
  cmd_Value :: string
  cmd_Expected :: string

record ApplyResult =
  res_OK :: bool
  res_Found :: bool
  res_Value :: string
  res_Swapped :: bool
  res_Error :: string

record LogEntry =
  le_Index :: u64
  le_Term :: u64
  le_Command :: Command

record HardState =
  hs_CurrentTerm :: u64
  hs_VotedFor :: string
  hs_CommitIndex :: u64

record Snapshot =
  LastIncludedIndex :: u64
  LastIncludedTerm :: u64
  Data :: "smap option"

text \<open>The zero values of these structs, and the result Go builds from named fields.\<close>

definition zero_ApplyResult :: ApplyResult where
  "zero_ApplyResult = \<lparr>res_OK = False, res_Found = False, res_Value = '''', res_Swapped = False,
     res_Error = ''''\<rparr>"

definition noop_command :: Command where
  "noop_command = \<lparr>cmd_Op = OpNoop, cmd_Key = '''', cmd_Value = '''', cmd_Expected = ''''\<rparr>"

definition zero_HardState :: HardState where
  "zero_HardState = \<lparr>hs_CurrentTerm = 0, hs_VotedFor = '''', hs_CommitIndex = 0\<rparr>"

definition zero_Snapshot :: Snapshot where
  "zero_Snapshot = \<lparr>LastIncludedIndex = 0, LastIncludedTerm = 0, Data = None\<rparr>"

section \<open>Consecutive entries\<close>

text \<open>The entries of a log that starts after index \<open>b\<close>: their indices are \<open>b + 1\<close>, \<open>b + 2\<close>,
  and so on, without wrapping.\<close>

definition contiguous :: "u64 \<Rightarrow> LogEntry list \<Rightarrow> bool" where
  "contiguous b es \<longleftrightarrow>
     map (\<lambda>e. unat (le_Index e)) es = [Suc (unat b)..<Suc (unat b) + length es]"

lemma contiguous_Nil [simp]: "contiguous b []"
  by (simp add: contiguous_def)

lemma contiguous_Cons [simp]:
  "contiguous b (e # es) \<longleftrightarrow> unat (le_Index e) = Suc (unat b) \<and> contiguous (le_Index e) es"
  by (auto simp: contiguous_def upt_conv_Cons simp del: upt_Suc)

lemma contiguous_append:
  "contiguous b (xs @ ys) \<longleftrightarrow>
   contiguous b xs \<and> contiguous (if xs = [] then b else le_Index (last xs)) ys"
  by (induction xs arbitrary: b) auto

lemma contiguous_nth:
  "contiguous b es \<Longrightarrow> i < length es \<Longrightarrow> unat (le_Index (es ! i)) = Suc (unat b + i)"
  using map_upt_nth [of "\<lambda>e. unat (le_Index e)" es "Suc (unat b)" i]
  by (simp add: contiguous_def)

lemma contiguous_last:
  "contiguous b es \<Longrightarrow> es \<noteq> [] \<Longrightarrow> unat (le_Index (last es)) = unat b + length es"
  by (simp add: last_conv_nth contiguous_nth)

lemma contiguous_take: "contiguous b es \<Longrightarrow> contiguous b (take k es)"
  unfolding contiguous_def by (rule map_upt_take)

lemma contiguous_drop:
  assumes "contiguous b es" and "k \<le> length es" and "unat c = unat b + k"
  shows "contiguous c (drop k es)"
  using map_upt_drop [of "\<lambda>e. unat (le_Index e)" es "Suc (unat b)" k] assms
  by (simp add: contiguous_def)

lemma contiguous_gt: "contiguous b es \<Longrightarrow> e \<in> set es \<Longrightarrow> unat b < unat (le_Index e)"
  by (auto simp: in_set_conv_nth contiguous_nth)

lemma contiguous_filter_gt:
  assumes "contiguous b es"
  shows "filter (\<lambda>e. i < le_Index e) es = drop (unat i - unat b) es"
  using map_upt_filter_gt [of "\<lambda>e. unat (le_Index e)" es "Suc (unat b)" "unat i"] assms
  by (simp add: contiguous_def u64_simps)

lemma contiguous_max: "contiguous b es \<Longrightarrow> unat b + length es < 2 ^ 64"
  using contiguous_last [of b es] unat_max_u64 [of b] unat_max_u64 [of "le_Index (last es)"]
  by (cases "es = []") auto

end
