(* ===== verification/KV_State_Machine.thy ===== *)
theory KV_State_Machine
  imports Storage_Types "HOL-Library.List_Lexorder" "HOL-Library.Char_ord"
begin

text \<open>
  \<open>internal/server/state_machine.go\<close>: the key-value state machine.  The reader/writer lock makes
  each method one atomic step, so each is a function on the state.  The interface \<open>StateMachine\<close>
  that package raft calls is in \<open>Raft_Types\<close>, and its contract, as a locale, in \<open>SM_Contract\<close>.
\<close>

record KVStateMachine =
  kv_data :: smap

definition NewKVStateMachine :: KVStateMachine where
  "NewKVStateMachine = \<lparr>kv_data = fmempty\<rparr>"

text \<open>\<open>sm.data[k]\<close> in its two-value form: the value (zero when missing) and the presence bit.\<close>

definition kv_lookup :: "KVStateMachine \<Rightarrow> string \<Rightarrow> string \<times> bool" where
  "kv_lookup m k = (case fmlookup (kv_data m) k of None \<Rightarrow> ('''', False) | Some v \<Rightarrow> (v, True))"

definition Apply :: "Command \<Rightarrow> KVStateMachine \<Rightarrow> ApplyResult \<times> KVStateMachine" where
  "Apply c m =
     (if cmd_Op c = OpPut then
        (zero_ApplyResult\<lparr>res_OK := True, res_Found := True, res_Value := cmd_Value c\<rparr>,
         m\<lparr>kv_data := fmupd (cmd_Key c) (cmd_Value c) (kv_data m)\<rparr>)
      else if cmd_Op c = OpDelete then
        (let (previous, found) = kv_lookup m (cmd_Key c)
         in (zero_ApplyResult\<lparr>res_OK := True, res_Found := found, res_Value := previous\<rparr>,
             m\<lparr>kv_data := fmdrop (cmd_Key c) (kv_data m)\<rparr>))
      else if cmd_Op c = OpCAS then
        (let (current, found) = kv_lookup m (cmd_Key c)
         in if \<not> found \<or> current \<noteq> cmd_Expected c then
              (zero_ApplyResult\<lparr>res_OK := True, res_Found := found, res_Value := current,
                 res_Swapped := False\<rparr>, m)
            else
              (zero_ApplyResult\<lparr>res_OK := True, res_Found := True, res_Value := cmd_Value c,
                 res_Swapped := True\<rparr>,
               m\<lparr>kv_data := fmupd (cmd_Key c) (cmd_Value c) (kv_data m)\<rparr>))
      else if cmd_Op c = OpNoop then (zero_ApplyResult\<lparr>res_OK := True\<rparr>, m)
      else (zero_ApplyResult\<lparr>res_OK := False, res_Error := ''unknown command''\<rparr>, m))"

text \<open>
  The copying loop \<open>for key, value := range src { dst[key] = value }\<close> into a fresh map, for one
  order of the keys.  Go picks any order; \<open>copy_range_any_order\<close> below shows that it does not
  matter.
\<close>

definition copy_range :: "(string \<times> string) list \<Rightarrow> smap" where
  "copy_range kvs = fold (\<lambda>(key, value) dst. fmupd key value dst) kvs fmempty"

definition copy_map :: "smap \<Rightarrow> smap" where
  "copy_map src = copy_range (sorted_list_of_fmap src)"

definition Snapshot_kv :: "KVStateMachine \<Rightarrow> smap" where
  "Snapshot_kv m = copy_map (kv_data m)"

definition Restore :: "smap option \<Rightarrow> KVStateMachine \<Rightarrow> KVStateMachine" where
  "Restore snapshot m =
     m\<lparr>kv_data := (case snapshot of None \<Rightarrow> fmempty | Some d \<Rightarrow> copy_map d)\<rparr>"

definition Get :: "string \<Rightarrow> KVStateMachine \<Rightarrow> string \<times> bool" where
  "Get k m = kv_lookup m k"

section \<open>Copying a map\<close>

lemma copy_range_any_order:
  assumes "distinct (map fst kvs)" and "map_of kvs = fmlookup m"
  shows "copy_range kvs = m"
  using assms by (intro fmap_ext) (simp add: copy_range_def fold_fmupd_lookup split: option.splits)

lemma copy_map_id [simp, code]: "copy_map m = m"
  unfolding copy_map_def
  by (rule copy_range_any_order) (simp_all add: distinct_sorted_list_of_fmap)

end
