(* ===== verification/Raft_Types.thy ===== *)
theory Raft_Types
  imports KV_State_Machine
begin

text \<open>
  The data of \<open>internal/raft/types.go\<close> and \<open>internal/raft/statemachine.go\<close>: roles, the
  configuration, the three remote procedures' requests and responses, and the two interfaces a
  node is built on.  A Go interface value is its table of methods together with the object they
  work on; here the table is a record of functions over the object's state (\<open>'st\<close> for a store,
  \<open>'sm\<close> for a state machine), and the object's state is a field of the node.
\<close>

datatype Role = Follower | Candidate | Leader

definition role_string :: "Role \<Rightarrow> string" where
  "role_string r = (case r of Follower \<Rightarrow> ''follower'' | Candidate \<Rightarrow> ''candidate''
     | Leader \<Rightarrow> ''leader'')"

section \<open>Configuration\<close>

record Config =
  cfg_ID :: string
  cfg_Address :: string
  cfg_Peers :: "(string \<times> string) list option"
  cfg_ClientAddresses :: "(string \<times> string) list"
  cfg_ElectionTimeoutMin :: duration
  cfg_ElectionTimeoutMax :: duration
  cfg_HeartbeatInterval :: duration
  cfg_ReadTimeout :: duration
  cfg_SnapshotThreshold :: int
  cfg_SnapshotChunkBytes :: int

section \<open>Requests and responses\<close>

record RequestVoteRequest =
  rv_Term :: u64
  rv_CandidateID :: string
  rv_LastLogIndex :: u64
  rv_LastLogTerm :: u64

record RequestVoteResponse =
  rvr_Term :: u64
  rvr_VoteGranted :: bool

record AppendEntriesRequest =
  ae_Term :: u64
  ae_LeaderID :: string
  ae_PrevLogIndex :: u64
  ae_PrevLogTerm :: u64
  ae_Entries :: "LogEntry list"
  ae_LeaderCommit :: u64

record AppendEntriesResponse =
  aer_Term :: u64
  aer_Success :: bool
  aer_LastLogIndex :: u64
  aer_ConflictIndex :: u64

record InstallSnapshotRequest =
  is_Term :: u64
  is_LeaderID :: string
  is_LastIncludedIndex :: u64
  is_LastIncludedTerm :: u64
  is_Offset :: u64
  is_Data :: string
  is_Done :: bool

record InstallSnapshotResponse =
  isr_Term :: u64
  isr_Success :: bool
  isr_BytesReceived :: u64

section \<open>The interfaces a node is built on\<close>

record 'st Store =
  Store_Load :: "'st \<Rightarrow> (goerror + HardState \<times> LogEntry list \<times> Snapshot) \<times> 'st"
  Store_SaveHardState :: "HardState \<Rightarrow> 'st \<Rightarrow> goerror option \<times> 'st"
  Store_AppendEntries :: "LogEntry list \<Rightarrow> 'st \<Rightarrow> goerror option \<times> 'st"
  Store_ReplaceEntries :: "LogEntry list \<Rightarrow> 'st \<Rightarrow> goerror option \<times> 'st"
  Store_SaveSnapshot :: "Snapshot \<Rightarrow> 'st \<Rightarrow> goerror option \<times> 'st"

text \<open>\<open>SM_Get\<close> is the optional \<open>valueReader\<close> method that a type assertion looks for.\<close>

record 'sm StateMachine =
  SM_Apply :: "Command \<Rightarrow> 'sm \<Rightarrow> ApplyResult \<times> 'sm"
  SM_Snapshot :: "'sm \<Rightarrow> smap"
  SM_Restore :: "smap option \<Rightarrow> 'sm \<Rightarrow> 'sm"
  SM_Get :: "(string \<Rightarrow> 'sm \<Rightarrow> string \<times> bool) option"

definition KV :: "KVStateMachine StateMachine" where
  "KV = \<lparr>SM_Apply = Apply, SM_Snapshot = Snapshot_kv, SM_Restore = Restore, SM_Get = Some Get\<rparr>"

section \<open>Status\<close>

record PeerStatus =
  ps_ID :: string
  ps_Address :: string
  ps_NextIndex :: u64
  ps_MatchIndex :: u64

record Status =
  st_ID :: string
  st_Address :: string
  st_Role :: "Role option"
  st_Term :: u64
  st_LeaderID :: string
  st_LeaderAddress :: string
  st_CommitIndex :: u64
  st_LastApplied :: u64
  st_LastLogIndex :: u64
  st_SnapshotIndex :: u64
  st_Peers :: "PeerStatus list"

section \<open>Errors\<close>

text \<open>\<open>NotLeaderError.Error\<close>, and \<open>IsNotLeader\<close>, which follows \<open>Unwrap\<close> through
  a \<open>ProposalUnknownError\<close>.\<close>

fun NotLeaderError_Error :: "string \<Rightarrow> string \<Rightarrow> string" where
  "NotLeaderError_Error leader addr =
     (if addr = '''' then ''not leader''
      else ''not leader'' @ '': leader='' @ leader @ '' addr='' @ addr)"

fun IsNotLeader :: "goerror option \<Rightarrow> bool" where
  "IsNotLeader None = False"
| "IsNotLeader (Some ErrNotLeader) = True"
| "IsNotLeader (Some (NotLeaderError _ _)) = True"
| "IsNotLeader (Some (ProposalUnknownError _ e)) = IsNotLeader (Some e)"
| "IsNotLeader (Some _) = False"

end
