(* ===== verification/Raft_Log.thy ===== *)
theory Raft_Log
  imports Raft_Types
begin

text \<open>
  The log of a node (\<open>internal/raft/node.go\<close>): the part of the struct \<open>Node\<close> that holds the
  snapshot, the entries after it, and the commit and apply positions, with the methods that read
  and edit it.  The record is extended to the whole node in later theories, so that these
  functions apply to a node as the methods do.

  The well-formedness invariant is that the entries carry the indices that follow the snapshot's
  last included index without a gap; the methods that look an index up by its offset rely on it.
\<close>

record node_log =
  snapshot :: Snapshot
  log :: "LogEntry list"
  commitIndex :: u64
  lastApplied :: u64

abbreviation lii :: "'a node_log_scheme \<Rightarrow> u64" where
  "lii n \<equiv> LastIncludedIndex (snapshot n)"

section \<open>Reading the log\<close>

definition lastIndex :: "Snapshot \<Rightarrow> LogEntry list \<Rightarrow> u64" where
  "lastIndex s entries = (if entries = [] then LastIncludedIndex s else le_Index (last entries))"

definition lastIndexLocked :: "'a node_log_scheme \<Rightarrow> u64" where
  "lastIndexLocked n = lastIndex (snapshot n) (log n)"

definition lastTermLocked :: "'a node_log_scheme \<Rightarrow> u64" where
  "lastTermLocked n =
     (if log n = [] then LastIncludedTerm (snapshot n) else le_Term (last (log n)))"

definition entryAtLocked :: "'a node_log_scheme \<Rightarrow> u64 \<Rightarrow> LogEntry option" where
  "entryAtLocked n index =
     (if index \<le> lii n then None
      else let offset = index - lii n - 1
           in if unat offset \<ge> length (log n) then None
              else let entry = log n ! unat offset
                   in if le_Index entry = index then Some entry else None)"

definition termAtLocked :: "'a node_log_scheme \<Rightarrow> u64 \<Rightarrow> u64 option" where
  "termAtLocked n index =
     (if index = 0 then Some 0
      else if index = lii n then Some (LastIncludedTerm (snapshot n))
      else map_option le_Term (entryAtLocked n index))"

definition entriesFromLocked :: "'a node_log_scheme \<Rightarrow> u64 \<Rightarrow> LogEntry list" where
  "entriesFromLocked n index = filter (\<lambda>entry. le_Index entry \<ge> index) (log n)"

section \<open>Editing the log\<close>

definition truncateFromLocked :: "u64 \<Rightarrow> 'a node_log_scheme \<Rightarrow> 'a node_log_scheme" where
  "truncateFromLocked index n =
     (if index \<le> lii n then n\<lparr>log := []\<rparr>
      else let keep = index - lii n - 1
           in if unat keep < length (log n) then n\<lparr>log := take (unat keep) (log n)\<rparr> else n)"

definition logAfterSnapshotLocked :: "'a node_log_scheme \<Rightarrow> Snapshot \<Rightarrow> LogEntry list" where
  "logAfterSnapshotLocked n s =
     (case termAtLocked n (LastIncludedIndex s) of
        None \<Rightarrow> []
      | Some term \<Rightarrow>
          if term \<noteq> LastIncludedTerm s then []
          else filter (\<lambda>entry. le_Index entry > LastIncludedIndex s) (log n))"

fun validate_loop :: "u64 \<Rightarrow> u64 \<Rightarrow> u64 \<Rightarrow> LogEntry list \<Rightarrow> u64" where
  "validate_loop lastIncluded prevLogIndex prev [] = 0"
| "validate_loop lastIncluded prevLogIndex prev (entry # entries) =
     (if le_Index entry \<le> lastIncluded then validate_loop lastIncluded prevLogIndex prev entries
      else if prev = 0 \<and> le_Index entry \<noteq> prevLogIndex + 1 then prevLogIndex + 1
      else if prev \<noteq> 0 \<and> le_Index entry \<noteq> prev + 1 then prev + 1
      else validate_loop lastIncluded prevLogIndex (le_Index entry) entries)"

definition validateEntriesLocked :: "'a node_log_scheme \<Rightarrow> u64 \<Rightarrow> LogEntry list \<Rightarrow> u64" where
  "validateEntriesLocked n prevLogIndex entries = validate_loop (lii n) prevLogIndex 0 entries"

function conflict_loop :: "'a node_log_scheme \<Rightarrow> u64 \<Rightarrow> u64 \<Rightarrow> u64" where
  "conflict_loop n term index =
     (if index > lii n + 1 then
        (case termAtLocked n (index - 1) of
           None \<Rightarrow> index
         | Some prevTerm \<Rightarrow> if prevTerm \<noteq> term then index else conflict_loop n term (index - 1))
      else index)"
  by pat_completeness auto
termination
proof (relation "measure (\<lambda>(n, term, index). unat index)", goal_cases)
  case 1
  then show ?case by simp
next
  case (2 n trm index prevTerm)
  then have "index \<noteq> 0" by auto
  then show ?case by (simp add: unat_pred_u64 unat_gt_0)
qed

declare conflict_loop.simps [simp del]

definition conflictIndexLocked :: "'a node_log_scheme \<Rightarrow> u64 \<Rightarrow> u64" where
  "conflictIndexLocked n index =
     (if index > lastIndexLocked n then lastIndexLocked n + 1
      else if index \<le> lii n then lii n + 1
      else case termAtLocked n index of
             None \<Rightarrow> lastIndexLocked n + 1
           | Some term \<Rightarrow> conflict_loop n term index)"

record mergeEntriesResult =
  changed :: bool
  replaced :: bool
  appended :: "LogEntry list"
  conflictIndex :: u64
  lastNewIndex :: u64

definition zero_merge :: mergeEntriesResult where
  "zero_merge = \<lparr>changed = False, replaced = False, appended = [], conflictIndex = 0,
     lastNewIndex = 0\<rparr>"

text \<open>The loop of \<open>mergeEntriesLocked\<close>: the state is the result so far and the node.\<close>

fun merge_loop :: "u64 \<Rightarrow> LogEntry list \<Rightarrow> mergeEntriesResult \<Rightarrow> 'a node_log_scheme \<Rightarrow>
    mergeEntriesResult \<times> 'a node_log_scheme" where
  "merge_loop lastNew [] result n = (result, n)"
| "merge_loop lastNew (entry # rest) result n =
     (if le_Index entry \<le> lii n then merge_loop lastNew rest result n
      else if le_Index entry \<le> lastIndexLocked n then
        (if termAtLocked n (le_Index entry) = Some (le_Term entry) then
           merge_loop lastNew rest result n
         else if le_Index entry \<le> commitIndex n then
           (zero_merge\<lparr>conflictIndex := le_Index entry, lastNewIndex := lastNew\<rparr>, n)
         else
           (let n' = truncateFromLocked (le_Index entry) n
            in (zero_merge\<lparr>changed := True, replaced := True, lastNewIndex := lastNew\<rparr>,
                n'\<lparr>log := log n' @ entry # rest\<rparr>)))
      else if le_Index entry \<noteq> lastIndexLocked n + 1 then
        (zero_merge\<lparr>conflictIndex := lastIndexLocked n + 1\<rparr>, n)
      else
        merge_loop lastNew rest
          (result\<lparr>changed := True, appended := appended result @ [entry]\<rparr>)
          (n\<lparr>log := log n @ [entry]\<rparr>))"

fun last_new_loop :: "u64 \<Rightarrow> u64 \<Rightarrow> LogEntry list \<Rightarrow> u64" where
  "last_new_loop lastIncluded lastNew [] = lastNew"
| "last_new_loop lastIncluded lastNew (entry # rest) =
     last_new_loop lastIncluded
       (if le_Index entry > lastIncluded \<and> le_Index entry > lastNew then le_Index entry else lastNew)
       rest"

definition mergeEntriesLocked :: "u64 \<Rightarrow> LogEntry list \<Rightarrow> 'a node_log_scheme \<Rightarrow>
    mergeEntriesResult \<times> 'a node_log_scheme" where
  "mergeEntriesLocked prevLogIndex entries n =
     (let lastNew = last_new_loop (lii n) prevLogIndex entries;
          conflict = validateEntriesLocked n prevLogIndex entries
      in if conflict > 0 then (zero_merge\<lparr>conflictIndex := conflict\<rparr>, n)
         else merge_loop lastNew entries (zero_merge\<lparr>lastNewIndex := lastNew\<rparr>) n)"

section \<open>Well-formed logs\<close>

definition wf_log :: "'a node_log_scheme \<Rightarrow> bool" where
  "wf_log n \<longleftrightarrow> contiguous (lii n) (log n)"

lemma unat_lastIndex:
  "contiguous (LastIncludedIndex s) es \<Longrightarrow>
   unat (lastIndex s es) = unat (LastIncludedIndex s) + length es"
  by (simp add: lastIndex_def contiguous_last)

lemma unat_lastIndexLocked:
  "wf_log n \<Longrightarrow> unat (lastIndexLocked n) = unat (lii n) + length (log n)"
  by (simp add: wf_log_def lastIndexLocked_def unat_lastIndex)

lemma lii_le_lastIndexLocked: "wf_log n \<Longrightarrow> lii n \<le> lastIndexLocked n"
  by (simp add: u64_simps unat_lastIndexLocked)

lemma entryAtLocked_eq:
  assumes "wf_log n"
  shows "entryAtLocked n i =
    (if lii n < i \<and> i \<le> lastIndexLocked n then Some (log n ! (unat i - unat (lii n) - 1)) else None)"
proof (cases "lii n < i")
  case False
  then show ?thesis by (simp add: entryAtLocked_def not_less)
next
  case gt: True
  let ?k = "unat i - unat (lii n) - 1"
  have off: "unat (i - lii n - 1) = ?k" using gt by (rule unat_offset_u64)
  have lt: "unat (lii n) < unat i" using gt by (simp add: u64_simps)
  have le: "i \<le> lastIndexLocked n \<longleftrightarrow> ?k < length (log n)"
    using lt assms by (auto simp: le_u64_unat unat_lastIndexLocked)
  show ?thesis
  proof (cases "?k < length (log n)")
    case True
    then have "unat (le_Index (log n ! ?k)) = unat i"
      using assms contiguous_nth [of "lii n" "log n" ?k] lt by (simp add: wf_log_def)
    then have "le_Index (log n ! ?k) = i" by (simp add: eq_u64_unat)
    then show ?thesis using True gt le by (simp add: entryAtLocked_def Let_def off)
  next
    case False
    then show ?thesis using gt le by (simp add: entryAtLocked_def Let_def off)
  qed
qed

lemma termAtLocked_None_iff:
  assumes "wf_log n"
  shows "termAtLocked n i = None \<longleftrightarrow> i \<noteq> 0 \<and> (i < lii n \<or> lastIndexLocked n < i)"
  using assms lii_le_lastIndexLocked [OF assms]
  by (auto simp: termAtLocked_def entryAtLocked_eq)

lemma termAtLocked_log:
  assumes "wf_log n" and "k < length (log n)" and "unat i = Suc (unat (lii n) + k)"
  shows "termAtLocked n i = Some (le_Term (log n ! k))"
proof -
  have "i \<noteq> 0" and "i \<noteq> lii n" using assms(3) by auto
  moreover have "lii n < i" and "i \<le> lastIndexLocked n"
    using assms by (simp_all add: less_u64_unat le_u64_unat unat_lastIndexLocked)
  ultimately show ?thesis using assms by (simp add: termAtLocked_def entryAtLocked_eq)
qed

lemma entriesFromLocked_eq:
  assumes "wf_log n" and "lii n < i"
  shows "entriesFromLocked n i = drop (unat i - Suc (unat (lii n))) (log n)"
proof -
  have "i \<noteq> 0" using assms(2) by auto
  then have "i \<le> x \<longleftrightarrow> i - 1 < x" for x
    by (auto simp: u64_simps unat_pred_u64 unat_gt_0 [symmetric])
  then have "entriesFromLocked n i = filter (\<lambda>e. i - 1 < le_Index e) (log n)"
    by (simp add: entriesFromLocked_def)
  also have "\<dots> = drop (unat (i - 1) - unat (lii n)) (log n)"
    using assms(1) unfolding wf_log_def by (rule contiguous_filter_gt)
  finally show ?thesis using \<open>i \<noteq> 0\<close> by (simp add: unat_pred_u64)
qed

lemma commitIndex_update_frame [simp]:
  "lastIndexLocked (n\<lparr>commitIndex := c\<rparr>) = lastIndexLocked n"
  "entryAtLocked (n\<lparr>commitIndex := c\<rparr>) = entryAtLocked n"
  "termAtLocked (n\<lparr>commitIndex := c\<rparr>) = termAtLocked n"
  "wf_log (n\<lparr>commitIndex := c\<rparr>) = wf_log n"
  by (simp_all add: lastIndexLocked_def entryAtLocked_def termAtLocked_def wf_log_def fun_eq_iff
      Let_def)

lemma lastApplied_update_frame [simp]:
  "lastIndexLocked (n\<lparr>lastApplied := c\<rparr>) = lastIndexLocked n"
  "entryAtLocked (n\<lparr>lastApplied := c\<rparr>) = entryAtLocked n"
  "termAtLocked (n\<lparr>lastApplied := c\<rparr>) = termAtLocked n"
  "wf_log (n\<lparr>lastApplied := c\<rparr>) = wf_log n"
  by (simp_all add: lastIndexLocked_def entryAtLocked_def termAtLocked_def wf_log_def fun_eq_iff
      Let_def)

lemma termAtLocked_le_last:
  assumes "wf_log n" and "termAtLocked n i = Some t"
  shows "i \<le> lastIndexLocked n"
proof (rule ccontr)
  assume "\<not> i \<le> lastIndexLocked n"
  then have gt: "lastIndexLocked n < i" by simp
  then have "i \<noteq> 0" by auto
  then show False using gt assms termAtLocked_None_iff [OF assms(1), of i] by simp
qed

section \<open>Validation of a request's entries\<close>

text \<open>
  \<open>validateEntriesLocked\<close> skips entries at or below the snapshot wherever they stand in the list,
  so it accepts exactly the contiguous requests only for lists without such entries.
\<close>

lemma validate_loop_contiguous:
  assumes "\<forall>e \<in> set es. b < le_Index e" and "prev \<noteq> 0"
    and "unat prev + length es < 2 ^ 64"
  shows "validate_loop b p prev es = 0 \<longleftrightarrow> contiguous prev es"
  using assms
proof (induction es arbitrary: prev)
  case Nil
  then show ?case by simp
next
  case (Cons e es)
  have succ: "unat (prev + 1) = Suc (unat prev)"
    using Cons.prems(3) by (intro unat_Suc_u64_max) simp
  have nz: "prev + 1 \<noteq> 0" using succ by auto
  have gt: "\<not> le_Index e \<le> b" using Cons.prems(1) by (simp add: not_le)
  show ?case
  proof (cases "le_Index e = prev + 1")
    case True
    then have "validate_loop b p (le_Index e) es = 0 \<longleftrightarrow> contiguous (le_Index e) es"
      using Cons.prems succ nz by (intro Cons.IH) auto
    then show ?thesis using True gt succ Cons.prems(2) by simp
  next
    case False
    then have "unat (le_Index e) \<noteq> Suc (unat prev)" using succ eq_u64_unat by auto
    then show ?thesis using False gt nz Cons.prems(2) by simp
  qed
qed

lemma validateEntriesLocked_contiguous:
  assumes "\<forall>e \<in> set es. lii n < le_Index e" and "unat p + length es < 2 ^ 64"
  shows "validateEntriesLocked n p es = 0 \<longleftrightarrow> contiguous p es"
proof (cases es)
  case Nil
  then show ?thesis by (simp add: validateEntriesLocked_def)
next
  case (Cons e es')
  have succ: "unat (p + 1) = Suc (unat p)"
    using assms(2) Cons by (intro unat_Suc_u64_max) simp
  have nz: "p + 1 \<noteq> 0" using succ by auto
  have gt: "\<not> le_Index e \<le> lii n" using assms(1) Cons by (simp add: not_le)
  show ?thesis
  proof (cases "le_Index e = p + 1")
    case True
    have "validate_loop (lii n) p (le_Index e) es' = 0 \<longleftrightarrow> contiguous (le_Index e) es'"
      using assms Cons True succ nz by (intro validate_loop_contiguous) auto
    then show ?thesis using True gt succ Cons
      by (simp add: validateEntriesLocked_def)
  next
    case False
    then have "unat (le_Index e) \<noteq> Suc (unat p)" using succ eq_u64_unat by auto
    then show ?thesis using False gt nz Cons
      by (simp add: validateEntriesLocked_def)
  qed
qed

lemma last_new_loop_contiguous:
  "contiguous p es \<Longrightarrow> unat b \<le> unat p \<Longrightarrow>
   unat (last_new_loop b p es) = unat p + length es"
proof (induction es arbitrary: p)
  case Nil
  then show ?case by simp
next
  case (Cons e es)
  then have "b < le_Index e" and "p < le_Index e" by (simp_all add: u64_simps)
  with Cons show ?case by simp
qed

section \<open>Merging a request's entries\<close>

text \<open>
  The reference: keep the entries up to the request's previous index, then walk the two suffixes
  side by side; at the first pair of terms that differ the rest of the request replaces the rest
  of the log, and where the request ends first the log keeps what it has.
\<close>

fun merge_tail :: "LogEntry list \<Rightarrow> LogEntry list \<Rightarrow> LogEntry list" where
  "merge_tail old [] = old"
| "merge_tail [] new = new"
| "merge_tail (o' # old) (e # new) =
     (if le_Term o' = le_Term e then o' # merge_tail old new else e # new)"

definition merged :: "u64 \<Rightarrow> LogEntry list \<Rightarrow> 'a node_log_scheme \<Rightarrow> LogEntry list" where
  "merged p es n =
     (let k = unat p - unat (lii n) in take k (log n) @ merge_tail (drop k (log n)) es)"

lemma merge_tail_Nil [simp]: "merge_tail [] new = new"
  by (cases new) simp_all

text \<open>The first index at which the log holds another term than the request.\<close>

fun first_mismatch :: "LogEntry list \<Rightarrow> LogEntry list \<Rightarrow> u64 option" where
  "first_mismatch (o' # old) (e # new) =
     (if le_Term o' = le_Term e then first_mismatch old new else Some (le_Index e))"
| "first_mismatch _ _ = None"

definition mismatch :: "u64 \<Rightarrow> LogEntry list \<Rightarrow> 'a node_log_scheme \<Rightarrow> u64 option" where
  "mismatch p es n = first_mismatch (drop (unat p - unat (lii n)) (log n)) es"

lemma truncateFromLocked_eq:
  assumes "wf_log n" and "unat i = Suc (unat (lii n) + k)" and "k < length (log n)"
  shows "truncateFromLocked i n = n\<lparr>log := take k (log n)\<rparr>"
proof -
  have gt: "lii n < i" using assms(2) by (simp add: u64_simps)
  have "unat (i - lii n - 1) = k" using unat_offset_u64 [OF gt] assms(2) by simp
  then show ?thesis using gt assms(3) by (simp add: truncateFromLocked_def Let_def not_le)
qed


text \<open>How the reference unrolls at one entry of the request: inside the log, and at its end.\<close>

lemma merged_same:
  assumes "unat p = unat (lii n) + k" and "k < length (log n)"
    and "unat (le_Index e) = Suc (unat p)" and "le_Term (log n ! k) = le_Term e"
  shows "mismatch p (e # es) n = mismatch (le_Index e) es n"
    and "merged p (e # es) n = merged (le_Index e) es n"
  using assms
  by (simp_all add: mismatch_def merged_def Cons_nth_drop_Suc [symmetric] take_Suc_conv_app_nth)

lemma merged_differ:
  assumes "unat p = unat (lii n) + k" and "k < length (log n)"
    and "le_Term (log n ! k) \<noteq> le_Term e"
  shows "mismatch p (e # es) n = Some (le_Index e)"
    and "merged p (e # es) n = take k (log n) @ e # es"
  using assms by (simp_all add: mismatch_def merged_def Cons_nth_drop_Suc [symmetric])

lemma merged_end:
  assumes "unat p = unat (lii n) + length (log n)" and "unat (le_Index e) = Suc (unat p)"
  shows "mismatch p (e # es) n = None"
    and "mismatch (le_Index e) es (n\<lparr>log := log n @ [e]\<rparr>) = None"
    and "merged (le_Index e) es (n\<lparr>log := log n @ [e]\<rparr>) = merged p (e # es) n"
  using assms by (simp_all add: mismatch_def merged_def)

lemma wf_log_snoc:
  assumes "wf_log n" and "unat (le_Index e) = Suc (unat (lastIndexLocked n))"
  shows "wf_log (n\<lparr>log := log n @ [e]\<rparr>)" and "lastIndexLocked (n\<lparr>log := log n @ [e]\<rparr>) = le_Index e"
  using assms
  by (auto simp: wf_log_def contiguous_append lastIndexLocked_def lastIndex_def split: if_splits)

text \<open>
  One lemma for the loop: from a well-formed log and a contiguous rest of the request that starts
  inside the log, the loop either meets a mismatch at a committed index, and then leaves the log
  as it is, or computes the reference.
\<close>

definition merge_post :: "u64 \<Rightarrow> LogEntry list \<Rightarrow> 'a node_log_scheme \<Rightarrow>
    mergeEntriesResult \<Rightarrow> 'a node_log_scheme \<Rightarrow> bool" where
  "merge_post p es n r' n' \<longleftrightarrow>
     (case mismatch p es n of
        Some i \<Rightarrow> if i \<le> commitIndex n then conflictIndex r' = i \<and> n' = n
                  else conflictIndex r' = 0 \<and> n' = n\<lparr>log := merged p es n\<rparr>
      | None \<Rightarrow> conflictIndex r' = 0 \<and> n' = n\<lparr>log := merged p es n\<rparr>)"

lemma merge_loop_correct:
  assumes "wf_log n" and "contiguous p es" and "lii n \<le> p" and "p \<le> lastIndexLocked n"
    and "conflictIndex r = 0" and "merge_loop lastNew es r n = (r', n')"
  shows "merge_post p es n r' n'"
  using assms
proof (induction es arbitrary: p r n)
  case Nil
  then show ?case
    by (auto simp: merge_post_def mismatch_def merged_def Let_def split: list.splits)
next
  case (Cons e es)
  note run = \<open>merge_loop lastNew (e # es) r n = (r', n')\<close>
  have wf: "wf_log n" and e: "unat (le_Index e) = Suc (unat p)"
    and es: "contiguous (le_Index e) es" using Cons.prems by simp_all
  obtain k where p: "unat p = unat (lii n) + k" and k: "k \<le> length (log n)"
    using Cons.prems(3,4) wf by (auto simp: u64_simps unat_lastIndexLocked dest: le_Suc_ex)
  have lii: "\<not> le_Index e \<le> lii n" "lii n \<le> le_Index e"
    using e p by (simp_all add: u64_simps)
  have in_log: "le_Index e \<le> lastIndexLocked n \<longleftrightarrow> k < length (log n)"
    using e p wf by (auto simp: u64_simps unat_lastIndexLocked)
  consider (same) "k < length (log n)" "le_Term (log n ! k) = le_Term e"
    | (differ) "k < length (log n)" "le_Term (log n ! k) \<noteq> le_Term e"
    | (tail) "k = length (log n)" using k by linarith
  then show ?case
  proof cases
    case same
    have "termAtLocked n (le_Index e) = Some (le_Term e)"
      using wf same e p termAtLocked_log [of n k "le_Index e"] by simp
    then have "merge_loop lastNew es r n = (r', n')" using run lii in_log same by simp
    then have "merge_post (le_Index e) es n r' n'"
      using wf es lii in_log same Cons.prems(5) by (intro Cons.IH) simp_all
    then show ?thesis using merged_same [OF p same(1) e same(2)]
      by (simp add: merge_post_def split: option.splits)
  next
    case differ
    have "termAtLocked n (le_Index e) \<noteq> Some (le_Term e)"
      using wf differ e p termAtLocked_log [of n k "le_Index e"] by simp
    moreover have "truncateFromLocked (le_Index e) n = n\<lparr>log := take k (log n)\<rparr>"
      using wf differ e p by (intro truncateFromLocked_eq) simp_all
    ultimately show ?thesis using run lii in_log differ merged_differ [OF p differ]
      by (auto simp: merge_post_def Let_def zero_merge_def split: if_splits)
  next
    case tail
    let ?n = "n\<lparr>log := log n @ [e]\<rparr>"
    have last: "unat (lastIndexLocked n) = unat p"
      using p tail wf by (simp add: unat_lastIndexLocked)
    then have nxt: "le_Index e = lastIndexLocked n + 1"
      using e plus_one_eq_u64 [of "lastIndexLocked n" "le_Index e"] by (simp add: u64_simps)
    have snoc: "wf_log ?n" "lastIndexLocked ?n = le_Index e"
      using wf_log_snoc [OF wf, of e] e last by simp_all
    have "merge_loop lastNew es (r\<lparr>changed := True, appended := appended r @ [e]\<rparr>) ?n = (r', n')"
      using run lii in_log tail nxt by simp
    then have "merge_post (le_Index e) es ?n r' n'"
      using snoc es lii Cons.prems(5) by (intro Cons.IH) simp_all
    then show ?thesis using merged_end [of p n e es] p e tail
      by (simp add: merge_post_def split: option.splits)
  qed
qed

text \<open>What the reference guarantees: it is well formed, it holds the request's entries, and it
  agrees with the old log below the first mismatch.\<close>

lemma length_merge_tail: "length new \<le> length (merge_tail old new)"
  by (induction old new rule: merge_tail.induct) auto

lemma merge_tail_terms:
  "j < length new \<Longrightarrow> le_Term (merge_tail old new ! j) = le_Term (new ! j)"
proof (induction old new arbitrary: j rule: merge_tail.induct)
  case (3 o' old e new)
  then show ?case by (cases j) auto
qed auto

lemma contiguous_merge_tail:
  "contiguous b old \<Longrightarrow> contiguous b new \<Longrightarrow> contiguous b (merge_tail old new)"
proof (induction old new arbitrary: b rule: merge_tail.induct)
  case (3 o' old e new)
  then have "le_Index o' = le_Index e" by (simp add: eq_u64_unat)
  with 3 show ?case by auto
qed auto

lemma merge_tail_no_mismatch:
  "first_mismatch old new = None \<Longrightarrow> take (length old) (merge_tail old new) = old"
  by (induction old new rule: first_mismatch.induct) (auto split: if_splits)

lemma merge_tail_mismatch:
  "first_mismatch old new = Some i \<Longrightarrow>
   \<exists>j. j < length old \<and> j < length new \<and> le_Index (new ! j) = i \<and> take j (merge_tail old new) = take j old"
proof (induction old new rule: first_mismatch.induct)
  case (1 o' old e new)
  show ?case
  proof (cases "le_Term o' = le_Term e")
    case True
    with 1 obtain j where "j < length old" "j < length new" "le_Index (new ! j) = i"
      "take j (merge_tail old new) = take j old" by auto
    then show ?thesis using True by (intro exI [of _ "Suc j"]) simp
  next
    case False
    then show ?thesis using 1 by (intro exI [of _ 0]) simp
  qed
qed auto

lemma wf_log_merged:
  assumes "wf_log n" and "contiguous p es" and "lii n \<le> p" and "p \<le> lastIndexLocked n"
  shows "wf_log (n\<lparr>log := merged p es n\<rparr>)"
proof -
  obtain k where p: "unat p = unat (lii n) + k" and k: "k \<le> length (log n)"
    using assms by (auto simp: u64_simps unat_lastIndexLocked dest: le_Suc_ex)
  have c: "contiguous (lii n) (log n)" using assms(1) by (simp add: wf_log_def)
  have "contiguous p (drop k (log n))" using c k p by (rule contiguous_drop)
  then have tail: "contiguous p (merge_tail (drop k (log n)) es)"
    using assms(2) by (rule contiguous_merge_tail)
  have "(if take k (log n) = [] then lii n else le_Index (last (take k (log n)))) = p"
    using p k contiguous_last [OF contiguous_take [OF c, of k]]
    by (auto simp: eq_u64_unat [of _ p])
  then show ?thesis
    using p contiguous_take [OF c, of k] tail
    by (simp add: wf_log_def merged_def contiguous_append)
qed

lemma unat_last_merged:
  assumes "wf_log n" and "contiguous p es" and "lii n \<le> p" and "p \<le> lastIndexLocked n"
  shows "unat p + length es \<le> unat (lastIndexLocked (n\<lparr>log := merged p es n\<rparr>))"
proof -
  have "unat p - unat (lii n) \<le> length (log n)" and "unat (lii n) \<le> unat p"
    using assms by (simp_all add: u64_simps unat_lastIndexLocked)
  then show ?thesis
    using unat_lastIndexLocked [OF wf_log_merged [OF assms]]
      length_merge_tail [of es "drop (unat p - unat (lii n)) (log n)"]
    by (simp add: merged_def Let_def)
qed


lemma take_merged:
  assumes "wf_log n" and "contiguous p es" and "lii n \<le> p" and "p \<le> lastIndexLocked n"
    and "c \<le> lastIndexLocked n" and "\<And>i. mismatch p es n = Some i \<Longrightarrow> c < i"
  shows "take (unat c - unat (lii n)) (merged p es n) = take (unat c - unat (lii n)) (log n)"
proof -
  obtain k where p: "unat p = unat (lii n) + k" and k: "k \<le> length (log n)"
    using assms(1,3,4) by (auto simp: u64_simps unat_lastIndexLocked dest: le_Suc_ex)
  let ?m = "unat c - unat (lii n)" and ?old = "drop k (log n)"
  have m: "?m \<le> length (log n)"
    using assms(1,5) by (simp add: u64_simps unat_lastIndexLocked)
  have "take (?m - k) (merge_tail ?old es) = take (?m - k) ?old"
  proof (cases "first_mismatch ?old es")
    case None
    have "?m - k \<le> length ?old" using m by simp
    then show ?thesis
      using arg_cong [OF merge_tail_no_mismatch [OF None], of "take (?m - k)"] by (simp add: min_def)
  next
    case (Some i)
    then have "c < i" using assms(6) p by (simp add: mismatch_def)
    from merge_tail_mismatch [OF Some] obtain j where j: "j < length es" "le_Index (es ! j) = i"
      and tk: "take j (merge_tail ?old es) = take j ?old" by blast
    have "unat i = Suc (unat p + j)" using contiguous_nth [OF assms(2) j(1)] j(2) by simp
    then have "?m - k \<le> j" using \<open>c < i\<close> p by (simp add: u64_simps)
    then show ?thesis using arg_cong [OF tk, of "take (?m - k)"] by (simp add: min_def)
  qed
  then have "take ?m (take k (log n) @ merge_tail ?old es) = take ?m (take k (log n) @ ?old)"
    using k by (simp only: take_append length_take min.absorb2)
  then show ?thesis using p by (simp add: merged_def)
qed

lemma entryAtLocked_prefix:
  assumes "wf_log n" and "wf_log n'" and "snapshot n' = snapshot n"
    and "take m (log n') = take m (log n)" and "unat i \<le> unat (lii n) + m" and "m \<le> length (log n)"
  shows "entryAtLocked n' i = entryAtLocked n i"
proof (cases "lii n < i")
  case False
  then show ?thesis using assms(1-3) by (simp add: entryAtLocked_eq)
next
  case True
  let ?k = "unat i - unat (lii n) - 1"
  have k: "?k < m" and i: "unat i = Suc (unat (lii n) + ?k)"
    using True assms(5) by (auto simp: u64_simps)
  have "min (length (log n')) m = m"
    using arg_cong [OF assms(4), of length] assms(6) by simp
  then have len: "m \<le> length (log n')" by simp
  have "log n' ! ?k = log n ! ?k" using assms(4) k by (metis nth_take)
  moreover have "i \<le> lastIndexLocked n" and "i \<le> lastIndexLocked n'"
    using assms(1,2,3,5,6) len by (simp_all add: le_u64_unat unat_lastIndexLocked)
  ultimately show ?thesis using True assms(1-3) by (simp add: entryAtLocked_eq)
qed

lemma merged_holds_request:
  assumes "wf_log n" and "contiguous p es" and "lii n \<le> p" and "p \<le> lastIndexLocked n"
    and "e \<in> set es"
  shows "termAtLocked (n\<lparr>log := merged p es n\<rparr>) (le_Index e) = Some (le_Term e)"
proof -
  obtain k where p: "unat p = unat (lii n) + k" and k: "k \<le> length (log n)"
    using assms(1,3,4) by (auto simp: u64_simps unat_lastIndexLocked dest: le_Suc_ex)
  obtain j where j: "j < length es" "e = es ! j" using assms(5) by (auto simp: in_set_conv_nth)
  let ?n = "n\<lparr>log := merged p es n\<rparr>"
  have nth: "log ?n ! (k + j) = merge_tail (drop k (log n)) es ! j"
    using p k by (simp add: merged_def nth_append)
  have "k + j < length (log ?n)"
    using p k j(1) length_merge_tail [of es "drop k (log n)"] by (simp add: merged_def)
  moreover have "unat (le_Index e) = Suc (unat (lii ?n) + (k + j))"
    using contiguous_nth [OF assms(2) j(1)] j(2) p by simp
  ultimately have "termAtLocked ?n (le_Index e) = Some (le_Term (log ?n ! (k + j)))"
    using wf_log_merged [OF assms(1-4)] by (intro termAtLocked_log)
  then show ?thesis using nth merge_tail_terms [OF j(1)] j(2) by simp
qed

lemma merged_prev:
  assumes "wf_log n" and "contiguous p es" and "lii n \<le> p" and "p \<le> lastIndexLocked n"
  shows "termAtLocked (n\<lparr>log := merged p es n\<rparr>) p = termAtLocked n p"
proof -
  let ?n = "n\<lparr>log := merged p es n\<rparr>" and ?k = "unat p - unat (lii n)"
  have k: "?k \<le> length (log n)" and p: "unat p \<le> unat (lii n) + ?k"
    using assms(1,3,4) by (simp_all add: u64_simps unat_lastIndexLocked)
  have "take ?k (log ?n) = take ?k (log n)" using k by (simp add: merged_def Let_def)
  from entryAtLocked_prefix [OF assms(1) wf_log_merged [OF assms] _ this p k]
  show ?thesis by (simp add: termAtLocked_def)
qed

text \<open>The flags of the result: what was appended, and whether the log was rewritten.\<close>

lemma merge_loop_flags:
  assumes "merge_loop lastNew es r n = (r', n')" and "lastNewIndex r = lastNew"
    and "conflictIndex r' = 0" and "\<not> replaced r"
  shows "lastNewIndex r' = lastNew \<and>
    (if replaced r' then changed r'
     else \<exists>a. appended r' = appended r @ a \<and> log n' = log n @ a \<and> (changed r' \<longleftrightarrow> changed r \<or> a \<noteq> []))"
  using assms
proof (induction es arbitrary: r n)
  case Nil
  then show ?case by auto
next
  case (Cons e es)
  let ?r = "r\<lparr>changed := True, appended := appended r @ [e]\<rparr>" and ?n = "n\<lparr>log := log n @ [e]\<rparr>"
  consider (keep) "merge_loop lastNew es r n = (r', n')"
    | (rewrite) "r' = zero_merge\<lparr>changed := True, replaced := True, lastNewIndex := lastNew\<rparr>"
    | (add) "merge_loop lastNew es ?r ?n = (r', n')"
    using Cons.prems(1,3) le_wrap_u64 [of "lastIndexLocked n" "le_Index e"]
    by (auto simp: Let_def truncateFromLocked_def zero_merge_def split: if_splits)
  then show ?case
  proof cases
    case keep
    then show ?thesis using Cons by blast
  next
    case rewrite
    then show ?thesis by (simp add: zero_merge_def)
  next
    case add
    from Cons.IH [OF this] Cons.prems show ?thesis by (auto split: if_splits)
  qed
qed


lemma merged_keeps_committed:
  assumes "wf_log n" and "contiguous p es" and "lii n \<le> p" and "p \<le> lastIndexLocked n"
    and "commitIndex n \<le> lastIndexLocked n" and "\<And>i. mismatch p es n = Some i \<Longrightarrow> commitIndex n < i"
    and "i \<le> commitIndex n"
  shows "entryAtLocked (n\<lparr>log := merged p es n\<rparr>) i = entryAtLocked n i"
proof -
  let ?m = "unat (commitIndex n) - unat (lii n)"
  have m: "?m \<le> length (log n)" using assms(1,5) by (simp add: u64_simps unat_lastIndexLocked)
  have i: "unat i \<le> unat (lii n) + ?m" using assms(7) by (simp add: u64_simps)
  have tk: "take ?m (log (n\<lparr>log := merged p es n\<rparr>)) = take ?m (log n)"
    using take_merged [OF assms(1-6)] by simp
  from entryAtLocked_prefix [OF assms(1) wf_log_merged [OF assms(1-4)] _ tk i m]
  show ?thesis by simp
qed

lemma mergeEntriesLocked_cases:
  assumes "wf_log n" and "\<forall>e \<in> set es. lii n < le_Index e" and "unat p + length es < 2 ^ 64"
    and "lii n \<le> p" and "p \<le> lastIndexLocked n"
    and "mergeEntriesLocked p es n = (r, n')"
  shows "if contiguous p es \<and> (\<forall>i. mismatch p es n = Some i \<longrightarrow> commitIndex n < i)
    then conflictIndex r = 0 \<and> n' = n\<lparr>log := merged p es n\<rparr> \<and>
      unat (lastNewIndex r) = unat p + length es
    else conflictIndex r \<noteq> 0 \<and> n' = n"
proof (cases "contiguous p es")
  case False
  then have "validateEntriesLocked n p es \<noteq> 0"
    using validateEntriesLocked_contiguous [OF assms(2,3)] by simp
  then show ?thesis using False assms(6)
    by (auto simp: mergeEntriesLocked_def Let_def word_neq_0_conv zero_merge_def)
next
  case True
  let ?new = "last_new_loop (lii n) p es"
  have "validateEntriesLocked n p es = 0"
    using True validateEntriesLocked_contiguous [OF assms(2,3)] by simp
  then have run: "merge_loop ?new es (zero_merge\<lparr>lastNewIndex := ?new\<rparr>) n = (r, n')"
    using assms(6) by (simp add: mergeEntriesLocked_def Let_def)
  have post: "merge_post p es n r n'"
    using merge_loop_correct [OF assms(1) True assms(4,5) _ run] by (simp add: zero_merge_def)
  have new: "conflictIndex r = 0 \<Longrightarrow> unat (lastNewIndex r) = unat p + length es"
    using merge_loop_flags [OF run] last_new_loop_contiguous [OF True, of "lii n"] assms(4)
    by (simp add: zero_merge_def u64_simps)
  have nz: "mismatch p es n = Some i \<Longrightarrow> i \<noteq> 0" for i
    using merge_tail_mismatch [of "drop (unat p - unat (lii n)) (log n)" es i] assms(2)
    by (fastforce simp: mismatch_def dest: nth_mem)
  show ?thesis using True post new nz
    by (auto simp: merge_post_def not_le split: option.splits if_splits)
qed

section \<open>The conflict index\<close>

lemma conflict_loop_bounds:
  assumes "wf_log n" and "lii n < i" and "i \<le> lastIndexLocked n" and "termAtLocked n i = Some t"
  shows "lii n < conflict_loop n t i \<and> conflict_loop n t i \<le> i \<and>
    (\<forall>j. conflict_loop n t i \<le> j \<and> j \<le> i \<longrightarrow> termAtLocked n j = Some t) \<and>
    (conflict_loop n t i \<noteq> lii n + 1 \<longrightarrow> termAtLocked n (conflict_loop n t i - 1) \<noteq> Some t)"
  using assms
proof (induction n t i rule: conflict_loop.induct)
  case (1 n t i)
  have succ: "unat (lii n + 1) = Suc (unat (lii n))"
    using "1.prems"(2) by (intro unat_Suc_u64 [of _ i]) (simp add: u64_simps)
  have i0: "i \<noteq> 0" using "1.prems"(2) by auto
  have only: "i \<le> j \<and> j \<le> i \<longleftrightarrow> j = i" for j by auto
  show ?case
  proof (cases "i > lii n + 1 \<and> termAtLocked n (i - 1) = Some t")
    case True
    then have eq: "conflict_loop n t i = conflict_loop n t (i - 1)"
      by (simp add: conflict_loop.simps [of n t i])
    have "lii n < i - 1" and "i - 1 \<le> lastIndexLocked n"
      using True "1.prems"(3) i0 succ by (auto simp: u64_simps unat_pred_u64)
    from "1.IH" [OF _ _ _ "1.prems"(1) this] True
    have IH: "lii n < conflict_loop n t (i - 1) \<and> conflict_loop n t (i - 1) \<le> i - 1 \<and>
      (\<forall>j. conflict_loop n t (i - 1) \<le> j \<and> j \<le> i - 1 \<longrightarrow> termAtLocked n j = Some t) \<and>
      (conflict_loop n t (i - 1) \<noteq> lii n + 1 \<longrightarrow>
        termAtLocked n (conflict_loop n t (i - 1) - 1) \<noteq> Some t)" by simp
    then have "conflict_loop n t (i - 1) \<le> i" using pred_less_u64 [OF i0] by (meson less_imp_le order_trans)
    moreover have "termAtLocked n j = Some t"
      if "conflict_loop n t (i - 1) \<le> j" and "j \<le> i" for j
      using that IH "1.prems"(4) le_pred_u64 [OF i0, of j] by metis
    ultimately show ?thesis unfolding eq using IH by simp
  next
    case False
    then have eq: "conflict_loop n t i = i"
      by (auto simp: conflict_loop.simps [of n t i] split: option.splits)
    have "\<not> i > lii n + 1 \<Longrightarrow> i = lii n + 1"
      using "1.prems"(2) succ by (auto simp: u64_simps eq_u64_unat)
    then show ?thesis unfolding eq only using "1.prems"(2,4) False by auto
  qed
qed


section \<open>Properties of the log\<close>

text \<open>
  C8.  \<open>mergeEntriesLocked\<close> implements the log rule of AppendEntries.  For a well-formed log, a
  request whose previous index lies in it and whose entries all lie above the snapshot is refused,
  with the log untouched, exactly when its indices are not consecutive or when it contradicts the
  term of a committed entry; otherwise the log becomes the reference \<open>merged\<close>, and the index of
  the last new entry is that of the request's last entry.
\<close>

theorem mergeEntriesLocked_correct:
  assumes "wf_log n" and "\<forall>e \<in> set es. lii n < le_Index e" and "unat p + length es < 2 ^ 64"
    and "lii n \<le> p" and "p \<le> lastIndexLocked n"
    and "mergeEntriesLocked p es n = (r, n')"
  shows "if contiguous p es \<and> (\<forall>i. mismatch p es n = Some i \<longrightarrow> commitIndex n < i)
    then conflictIndex r = 0 \<and> n' = n\<lparr>log := merged p es n\<rparr> \<and>
      unat (lastNewIndex r) = unat p + length es
    else conflictIndex r \<noteq> 0 \<and> n' = n"
  using assms by (rule mergeEntriesLocked_cases)


text \<open>
  C32.  The conflict index of a follower whose log holds the request's previous index lies above
  the snapshot and at or below that index, so the leader's next index strictly decreases; every
  entry from it up to the previous index has one term, and the entry below it, if the log still
  has one, has another.
\<close>

theorem conflictIndexLocked_progress:
  assumes "wf_log n" and "lii n < i" and "i \<le> lastIndexLocked n"
  shows "\<exists>t. termAtLocked n i = Some t \<and> lii n < conflictIndexLocked n i \<and>
    conflictIndexLocked n i \<le> i \<and>
    (\<forall>j. conflictIndexLocked n i \<le> j \<and> j \<le> i \<longrightarrow> termAtLocked n j = Some t) \<and>
    (conflictIndexLocked n i \<noteq> lii n + 1 \<longrightarrow>
      termAtLocked n (conflictIndexLocked n i - 1) \<noteq> Some t)"
proof -
  obtain t where t: "termAtLocked n i = Some t"
    using termAtLocked_None_iff [OF assms(1), of i] assms by auto
  then have "conflictIndexLocked n i = conflict_loop n t i"
    using assms(2,3) by (simp add: conflictIndexLocked_def not_less [symmetric])
  then show ?thesis using conflict_loop_bounds [OF assms t] t by simp
qed


text \<open>A concrete log for the witnesses: a snapshot at index 2 and entries 3, 4, 5 with terms
  1, 1, 2, the first of them committed.\<close>

definition ex_entry :: "u64 \<Rightarrow> u64 \<Rightarrow> LogEntry" where
  "ex_entry i t = \<lparr>le_Index = i, le_Term = t, le_Command = noop_command\<rparr>"

definition ex_log :: node_log where
  "ex_log = \<lparr>snapshot = \<lparr>LastIncludedIndex = 2, LastIncludedTerm = 1, Data = None\<rparr>,
     log = [ex_entry 3 1, ex_entry 4 1, ex_entry 5 2], commitIndex = 3, lastApplied = 3\<rparr>"

lemmas ex_log_defs = ex_log_def ex_entry_def noop_command_def Op_defs

lemma ex_log_wf: "wf_log ex_log" "lii ex_log = 2" "lastIndexLocked ex_log = 5" "commitIndex ex_log = 3"
  by code_simp+

lemma mergeEntriesLocked_correct_witness:
  "\<exists>r. mergeEntriesLocked 3 [ex_entry 4 3, ex_entry 5 3] ex_log =
     (r, ex_log\<lparr>log := [ex_entry 3 1, ex_entry 4 3, ex_entry 5 3]\<rparr>) \<and> conflictIndex r = 0"
proof -
  let ?es = "[ex_entry 4 3, ex_entry 5 3]"
  obtain r n' where run: "mergeEntriesLocked 3 ?es ex_log = (r, n')" by fastforce
  have "\<forall>e \<in> set ?es. lii ex_log < le_Index e" and "contiguous 3 ?es"
    and "mismatch 3 ?es ex_log = Some 4"
    and "merged 3 ?es ex_log = [ex_entry 3 1, ex_entry 4 3, ex_entry 5 3]" by code_simp+
  then show ?thesis
    using mergeEntriesLocked_correct [OF ex_log_wf(1) _ _ _ _ run] run ex_log_wf by simp
qed


lemma conflictIndexLocked_progress_witness:
  "conflictIndexLocked ex_log 4 \<le> 4 \<and> termAtLocked ex_log 4 = Some 1 \<and>
   termAtLocked ex_log (conflictIndexLocked ex_log 4) = Some 1 \<and> conflictIndexLocked ex_log 4 = 3"
proof -
  have "lii ex_log < 4" and "4 \<le> lastIndexLocked ex_log" and "termAtLocked ex_log 4 = Some 1"
    and "conflictIndexLocked ex_log 4 = 3" by code_simp+
  then show ?thesis
    using conflictIndexLocked_progress [OF ex_log_wf(1), of 4] by auto
qed



end
