(* ===== verification/Raft_Node.thy ===== *)
theory Raft_Node
  imports Raft_Log
begin

text \<open>
  The node of \<open>internal/raft/node.go\<close>: its state and the methods every handler is built from
  (persisting the hard state, stepping down, failing closed on a storage error, waking waiters).

  The struct \<open>Node\<close> is the record \<open>node\<close>, in three layers: the log, the configuration that
  \<open>NewNode\<close> fixes, and the mutable rest.  A method whose name ends in \<open>Locked\<close> runs under
  \<open>n.mu\<close> and is one function on the state.  The following Go objects are represented so:
  \<^item> the store and the state machine by their own state (fields \<open>store\<close>, \<open>sm\<close>); their
    methods are a table \<open>S\<close>, \<open>M\<close> passed to the functions that call them;
  \<^item> \<open>peerAddrs\<close>, which is ranged over, by an association list with distinct keys (an order of
    iteration), the maps that are only read and written by partial functions;
  \<^item> a waiter channel by its number; \<open>sent\<close> lists every send-and-close on a channel in order, so
    a second send on one channel (a panic in Go) would be visible there;
  \<^item> the signal channels \<open>applyCh\<close> and \<open>replicateCh\<close>, of capacity one, by whether they are full;
  \<^item> \<open>rng\<close> by the stream of numbers it will draw, and \<open>time.Now()\<close> by the stream \<open>clock\<close> of
    its successive readings.
  Broadcasts on \<open>applyCond\<close> wake goroutines that re-check their condition; they change no state.
\<close>

type_synonym chan = nat

record applyOutcome =
  ao_result :: ApplyResult
  ao_err :: "goerror option"

record snapshotProgress =
  sp_leaderID :: string
  sp_lastIncludedIndex :: u64
  sp_lastIncludedTerm :: u64
  sp_buffer :: string

definition defaultSnapshotChunkBytes :: int where
  "defaultSnapshotChunkBytes = 2 ^ 20"

definition maxReplicationAttempts :: nat where
  "maxReplicationAttempts = 128"

record node_config = node_log +
  nid :: string
  address :: string
  peerAddrs :: "(string \<times> string) list"
  clientAddrs :: "string \<rightharpoonup> string"
  heartbeatEvery :: duration
  readTimeout :: duration
  timeoutMin :: duration
  timeoutMax :: duration
  snapshotEvery :: int
  snapshotChunkBytes :: int

record ('st, 'sm) node = node_config +
  store :: 'st
  sm :: 'sm
  role :: Role
  currentTerm :: u64
  votedFor :: string
  leaderID :: string
  leaderNoopIndex :: u64
  nextIndex :: "string \<rightharpoonup> u64"
  matchIndex :: "string \<rightharpoonup> u64"
  replicating :: "string \<rightharpoonup> bool"
  electionDue :: time
  rng :: "nat stream"
  clock :: "time stream"
  waiters :: "(u64 \<times> chan list) list"
  nextChan :: chan
  sent :: "(chan \<times> applyOutcome) list"
  pendingSnapshot :: "snapshotProgress option"
  lastErr :: "goerror option"
  storageFatal :: "goerror option"
  stopped :: bool
  applyCh :: bool
  replicateCh :: bool

section \<open>Small methods\<close>

definition quorum :: "'a node_config_scheme \<Rightarrow> nat" where
  "quorum n = (length (peerAddrs n) + 1) div 2 + 1"

definition isKnownRemotePeerLocked :: "'a node_config_scheme \<Rightarrow> string \<Rightarrow> bool" where
  "isKnownRemotePeerLocked n i =
     (if i = '''' \<or> i = nid n then False else map_of (peerAddrs n) i \<noteq> None)"

definition leaderAddressLocked :: "('st, 'sm) node \<Rightarrow> string" where
  "leaderAddressLocked n =
     (if leaderID n = '''' then ''''
      else if get_str (clientAddrs n) (leaderID n) \<noteq> '''' then get_str (clientAddrs n) (leaderID n)
      else if leaderID n = nid n then address n
      else get_str (map_of (peerAddrs n)) (leaderID n))"

definition notLeaderLocked :: "('st, 'sm) node \<Rightarrow> goerror" where
  "notLeaderLocked n = NotLeaderError (leaderID n) (leaderAddressLocked n)"

definition isLeader :: "('st, 'sm) node \<Rightarrow> bool" where
  "isLeader n \<longleftrightarrow> role n = Leader"

text \<open>\<open>rng.Int63n(span)\<close> is the drawn number modulo the span.\<close>

definition resetElectionLocked :: "('st, 'sm) node \<Rightarrow> ('st, 'sm) node" where
  "resetElectionLocked n =
     (let span = timeoutMax n - timeoutMin n;
          (delay, rng') = (if span > 0 then (timeoutMin n + int (shd (rng n)) mod span, stl (rng n))
                           else (timeoutMin n, rng n))
      in n\<lparr>electionDue := shd (clock n) + delay, rng := rng', clock := stl (clock n)\<rparr>)"

definition notifyApplyLocked :: "('st, 'sm) node \<Rightarrow> ('st, 'sm) node" where
  "notifyApplyLocked n = n\<lparr>applyCh := True\<rparr>"

definition kickReplication :: "('st, 'sm) node \<Rightarrow> ('st, 'sm) node" where
  "kickReplication n = n\<lparr>replicateCh := True\<rparr>"

section \<open>Persisting the hard state\<close>

definition saveHardStateLocked ::
    "'st Store \<Rightarrow> u64 \<Rightarrow> ('st, 'sm) node \<Rightarrow> goerror option \<times> ('st, 'sm) node" where
  "saveHardStateLocked S commit n =
     (case Store_SaveHardState S
             \<lparr>hs_CurrentTerm = currentTerm n, hs_VotedFor = votedFor n, hs_CommitIndex = commit\<rparr>
             (store n) of
        (None, st) \<Rightarrow> (None, n\<lparr>store := st\<rparr>)
      | (Some e, st) \<Rightarrow> (Some e, n\<lparr>store := st, lastErr := Some e\<rparr>))"

definition persistHardStateLocked ::
    "'st Store \<Rightarrow> ('st, 'sm) node \<Rightarrow> goerror option \<times> ('st, 'sm) node" where
  "persistHardStateLocked S n = saveHardStateLocked S (commitIndex n) n"

section \<open>Waiters\<close>

text \<open>Send an outcome on each channel and close it.\<close>

definition deliver :: "applyOutcome \<Rightarrow> chan list \<Rightarrow> ('st, 'sm) node \<Rightarrow> ('st, 'sm) node" where
  "deliver outcome ws n = n\<lparr>sent := sent n @ map (\<lambda>w. (w, outcome)) ws\<rparr>"

definition error_outcome :: "goerror \<Rightarrow> applyOutcome" where
  "error_outcome e = \<lparr>ao_result = zero_ApplyResult, ao_err = Some e\<rparr>"

definition failUncommittedWaitersLocked :: "('st, 'sm) node \<Rightarrow> ('st, 'sm) node" where
  "failUncommittedWaitersLocked n =
     (let err = notLeaderLocked n;
          failed = filter (\<lambda>(index, ws). \<not> index \<le> commitIndex n) (waiters n);
          kept = filter (\<lambda>(index, ws). index \<le> commitIndex n) (waiters n)
      in (deliver (error_outcome err) (concat (map snd failed)) n)\<lparr>waiters := kept\<rparr>)"

definition finishWaitersLocked :: "u64 \<Rightarrow> ApplyResult \<Rightarrow> ('st, 'sm) node \<Rightarrow> ('st, 'sm) node" where
  "finishWaitersLocked index result n =
     (let ws = (case map_of (waiters n) index of None \<Rightarrow> [] | Some ws \<Rightarrow> ws)
      in deliver \<lparr>ao_result = result, ao_err = None\<rparr> ws
           (n\<lparr>waiters := AList.delete index (waiters n)\<rparr>))"

definition removeWaiter :: "u64 \<Rightarrow> chan \<Rightarrow> ('st, 'sm) node \<Rightarrow> ('st, 'sm) node" where
  "removeWaiter index target n =
     (let ws = (case map_of (waiters n) index of None \<Rightarrow> [] | Some ws \<Rightarrow> ws);
          ws' = remove1 target ws
      in if ws' = [] then n\<lparr>waiters := AList.delete index (waiters n)\<rparr>
         else n\<lparr>waiters := AList.update index ws' (waiters n)\<rparr>)"

text \<open>\<open>stopOnce\<close> runs the body once, and \<open>stopped\<close> is set nowhere else.\<close>

definition Stop :: "('st, 'sm) node \<Rightarrow> ('st, 'sm) node" where
  "Stop n =
     (if stopped n then n
      else (deliver (error_outcome ErrNodeStopped) (concat (map snd (waiters n)))
              (n\<lparr>stopped := True\<rparr>))\<lparr>waiters := []\<rparr>)"

section \<open>Failing closed and stepping down\<close>

definition failStorageLocked :: "goerror option \<Rightarrow> ('st, 'sm) node \<Rightarrow> ('st, 'sm) node" where
  "failStorageLocked err n =
     (case err of
        None \<Rightarrow> n
      | Some e \<Rightarrow>
          failUncommittedWaitersLocked (resetElectionLocked
            (n\<lparr>lastErr := Some e, storageFatal := Some e, role := Follower, leaderID := '''',
               leaderNoopIndex := 0\<rparr>)))"

text \<open>The fields \<open>becomeFollowerWithTimerLocked\<close> assigns before it persists them.\<close>

definition follower_fields :: "u64 \<Rightarrow> string \<Rightarrow> bool \<Rightarrow> ('st, 'sm) node \<Rightarrow> ('st, 'sm) node" where
  "follower_fields term leader resetElection n =
     (let n1 = (if term > currentTerm n then n\<lparr>currentTerm := term, votedFor := ''''\<rparr> else n);
          n2 = n1\<lparr>role := Follower, leaderID := leader, leaderNoopIndex := 0\<rparr>
      in if resetElection then resetElectionLocked n2 else n2)"

definition becomeFollowerWithTimerLocked ::
    "'st Store \<Rightarrow> u64 \<Rightarrow> string \<Rightarrow> bool \<Rightarrow> ('st, 'sm) node \<Rightarrow> goerror option \<times> ('st, 'sm) node" where
  "becomeFollowerWithTimerLocked S term leader resetElection n =
     (let prevRole = role n;
          n3 = follower_fields term leader resetElection n
      in case persistHardStateLocked S n3 of
           (Some e, n4) \<Rightarrow> (Some e, failStorageLocked (Some e) n4)
         | (None, n4) \<Rightarrow>
             (None, if prevRole = Leader then failUncommittedWaitersLocked n4 else n4))"

definition becomeFollowerLocked ::
    "'st Store \<Rightarrow> u64 \<Rightarrow> string \<Rightarrow> ('st, 'sm) node \<Rightarrow> goerror option \<times> ('st, 'sm) node" where
  "becomeFollowerLocked S term leader n = becomeFollowerWithTimerLocked S term leader True n"

definition becomeFollowerForVoteLocked ::
    "'st Store \<Rightarrow> u64 \<Rightarrow> ('st, 'sm) node \<Rightarrow> goerror option \<times> ('st, 'sm) node" where
  "becomeFollowerForVoteLocked S term n = becomeFollowerWithTimerLocked S term '''' False n"

definition stepDown :: "'st Store \<Rightarrow> u64 \<Rightarrow> string \<Rightarrow> ('st, 'sm) node \<Rightarrow> ('st, 'sm) node" where
  "stepDown S term leader n = snd (becomeFollowerLocked S term leader n)"

section \<open>What each method leaves alone\<close>

lemma resetElectionLocked_frame [simp, frame_simps]:
  "snapshot (resetElectionLocked n) = snapshot n"
  "log (resetElectionLocked n) = log n"
  "commitIndex (resetElectionLocked n) = commitIndex n"
  "lastApplied (resetElectionLocked n) = lastApplied n"
  "nid (resetElectionLocked n) = nid n"
  "address (resetElectionLocked n) = address n"
  "peerAddrs (resetElectionLocked n) = peerAddrs n"
  "clientAddrs (resetElectionLocked n) = clientAddrs n"
  "heartbeatEvery (resetElectionLocked n) = heartbeatEvery n"
  "readTimeout (resetElectionLocked n) = readTimeout n"
  "timeoutMin (resetElectionLocked n) = timeoutMin n"
  "timeoutMax (resetElectionLocked n) = timeoutMax n"
  "snapshotEvery (resetElectionLocked n) = snapshotEvery n"
  "snapshotChunkBytes (resetElectionLocked n) = snapshotChunkBytes n"
  "store (resetElectionLocked n) = store n"
  "sm (resetElectionLocked n) = sm n"
  "role (resetElectionLocked n) = role n"
  "currentTerm (resetElectionLocked n) = currentTerm n"
  "votedFor (resetElectionLocked n) = votedFor n"
  "leaderID (resetElectionLocked n) = leaderID n"
  "leaderNoopIndex (resetElectionLocked n) = leaderNoopIndex n"
  "nextIndex (resetElectionLocked n) = nextIndex n"
  "matchIndex (resetElectionLocked n) = matchIndex n"
  "replicating (resetElectionLocked n) = replicating n"
  "waiters (resetElectionLocked n) = waiters n"
  "nextChan (resetElectionLocked n) = nextChan n"
  "sent (resetElectionLocked n) = sent n"
  "pendingSnapshot (resetElectionLocked n) = pendingSnapshot n"
  "lastErr (resetElectionLocked n) = lastErr n"
  "storageFatal (resetElectionLocked n) = storageFatal n"
  "stopped (resetElectionLocked n) = stopped n"
  "applyCh (resetElectionLocked n) = applyCh n"
  "replicateCh (resetElectionLocked n) = replicateCh n"
  by (simp_all add: resetElectionLocked_def Let_def)

lemma notifyApplyLocked_frame [simp, frame_simps]:
  "snapshot (notifyApplyLocked n) = snapshot n"
  "log (notifyApplyLocked n) = log n"
  "commitIndex (notifyApplyLocked n) = commitIndex n"
  "lastApplied (notifyApplyLocked n) = lastApplied n"
  "nid (notifyApplyLocked n) = nid n"
  "address (notifyApplyLocked n) = address n"
  "peerAddrs (notifyApplyLocked n) = peerAddrs n"
  "clientAddrs (notifyApplyLocked n) = clientAddrs n"
  "heartbeatEvery (notifyApplyLocked n) = heartbeatEvery n"
  "readTimeout (notifyApplyLocked n) = readTimeout n"
  "timeoutMin (notifyApplyLocked n) = timeoutMin n"
  "timeoutMax (notifyApplyLocked n) = timeoutMax n"
  "snapshotEvery (notifyApplyLocked n) = snapshotEvery n"
  "snapshotChunkBytes (notifyApplyLocked n) = snapshotChunkBytes n"
  "store (notifyApplyLocked n) = store n"
  "sm (notifyApplyLocked n) = sm n"
  "role (notifyApplyLocked n) = role n"
  "currentTerm (notifyApplyLocked n) = currentTerm n"
  "votedFor (notifyApplyLocked n) = votedFor n"
  "leaderID (notifyApplyLocked n) = leaderID n"
  "leaderNoopIndex (notifyApplyLocked n) = leaderNoopIndex n"
  "nextIndex (notifyApplyLocked n) = nextIndex n"
  "matchIndex (notifyApplyLocked n) = matchIndex n"
  "replicating (notifyApplyLocked n) = replicating n"
  "electionDue (notifyApplyLocked n) = electionDue n"
  "rng (notifyApplyLocked n) = rng n"
  "clock (notifyApplyLocked n) = clock n"
  "waiters (notifyApplyLocked n) = waiters n"
  "nextChan (notifyApplyLocked n) = nextChan n"
  "sent (notifyApplyLocked n) = sent n"
  "pendingSnapshot (notifyApplyLocked n) = pendingSnapshot n"
  "lastErr (notifyApplyLocked n) = lastErr n"
  "storageFatal (notifyApplyLocked n) = storageFatal n"
  "stopped (notifyApplyLocked n) = stopped n"
  "replicateCh (notifyApplyLocked n) = replicateCh n"
  by (simp_all add: notifyApplyLocked_def)

lemma deliver_frame [simp, frame_simps]:
  "snapshot (deliver outcome ws n) = snapshot n"
  "log (deliver outcome ws n) = log n"
  "commitIndex (deliver outcome ws n) = commitIndex n"
  "lastApplied (deliver outcome ws n) = lastApplied n"
  "nid (deliver outcome ws n) = nid n"
  "address (deliver outcome ws n) = address n"
  "peerAddrs (deliver outcome ws n) = peerAddrs n"
  "clientAddrs (deliver outcome ws n) = clientAddrs n"
  "heartbeatEvery (deliver outcome ws n) = heartbeatEvery n"
  "readTimeout (deliver outcome ws n) = readTimeout n"
  "timeoutMin (deliver outcome ws n) = timeoutMin n"
  "timeoutMax (deliver outcome ws n) = timeoutMax n"
  "snapshotEvery (deliver outcome ws n) = snapshotEvery n"
  "snapshotChunkBytes (deliver outcome ws n) = snapshotChunkBytes n"
  "store (deliver outcome ws n) = store n"
  "sm (deliver outcome ws n) = sm n"
  "role (deliver outcome ws n) = role n"
  "currentTerm (deliver outcome ws n) = currentTerm n"
  "votedFor (deliver outcome ws n) = votedFor n"
  "leaderID (deliver outcome ws n) = leaderID n"
  "leaderNoopIndex (deliver outcome ws n) = leaderNoopIndex n"
  "nextIndex (deliver outcome ws n) = nextIndex n"
  "matchIndex (deliver outcome ws n) = matchIndex n"
  "replicating (deliver outcome ws n) = replicating n"
  "electionDue (deliver outcome ws n) = electionDue n"
  "rng (deliver outcome ws n) = rng n"
  "clock (deliver outcome ws n) = clock n"
  "waiters (deliver outcome ws n) = waiters n"
  "nextChan (deliver outcome ws n) = nextChan n"
  "pendingSnapshot (deliver outcome ws n) = pendingSnapshot n"
  "lastErr (deliver outcome ws n) = lastErr n"
  "storageFatal (deliver outcome ws n) = storageFatal n"
  "stopped (deliver outcome ws n) = stopped n"
  "applyCh (deliver outcome ws n) = applyCh n"
  "replicateCh (deliver outcome ws n) = replicateCh n"
  by (simp_all add: deliver_def)

lemma failUncommittedWaitersLocked_frame [simp, frame_simps]:
  "snapshot (failUncommittedWaitersLocked n) = snapshot n"
  "log (failUncommittedWaitersLocked n) = log n"
  "commitIndex (failUncommittedWaitersLocked n) = commitIndex n"
  "lastApplied (failUncommittedWaitersLocked n) = lastApplied n"
  "nid (failUncommittedWaitersLocked n) = nid n"
  "address (failUncommittedWaitersLocked n) = address n"
  "peerAddrs (failUncommittedWaitersLocked n) = peerAddrs n"
  "clientAddrs (failUncommittedWaitersLocked n) = clientAddrs n"
  "heartbeatEvery (failUncommittedWaitersLocked n) = heartbeatEvery n"
  "readTimeout (failUncommittedWaitersLocked n) = readTimeout n"
  "timeoutMin (failUncommittedWaitersLocked n) = timeoutMin n"
  "timeoutMax (failUncommittedWaitersLocked n) = timeoutMax n"
  "snapshotEvery (failUncommittedWaitersLocked n) = snapshotEvery n"
  "snapshotChunkBytes (failUncommittedWaitersLocked n) = snapshotChunkBytes n"
  "store (failUncommittedWaitersLocked n) = store n"
  "sm (failUncommittedWaitersLocked n) = sm n"
  "role (failUncommittedWaitersLocked n) = role n"
  "currentTerm (failUncommittedWaitersLocked n) = currentTerm n"
  "votedFor (failUncommittedWaitersLocked n) = votedFor n"
  "leaderID (failUncommittedWaitersLocked n) = leaderID n"
  "leaderNoopIndex (failUncommittedWaitersLocked n) = leaderNoopIndex n"
  "nextIndex (failUncommittedWaitersLocked n) = nextIndex n"
  "matchIndex (failUncommittedWaitersLocked n) = matchIndex n"
  "replicating (failUncommittedWaitersLocked n) = replicating n"
  "electionDue (failUncommittedWaitersLocked n) = electionDue n"
  "rng (failUncommittedWaitersLocked n) = rng n"
  "clock (failUncommittedWaitersLocked n) = clock n"
  "nextChan (failUncommittedWaitersLocked n) = nextChan n"
  "pendingSnapshot (failUncommittedWaitersLocked n) = pendingSnapshot n"
  "lastErr (failUncommittedWaitersLocked n) = lastErr n"
  "storageFatal (failUncommittedWaitersLocked n) = storageFatal n"
  "stopped (failUncommittedWaitersLocked n) = stopped n"
  "applyCh (failUncommittedWaitersLocked n) = applyCh n"
  "replicateCh (failUncommittedWaitersLocked n) = replicateCh n"
  by (simp_all add: failUncommittedWaitersLocked_def Let_def)

lemma failStorageLocked_frame [simp, frame_simps]:
  "snapshot (failStorageLocked err n) = snapshot n"
  "log (failStorageLocked err n) = log n"
  "commitIndex (failStorageLocked err n) = commitIndex n"
  "lastApplied (failStorageLocked err n) = lastApplied n"
  "nid (failStorageLocked err n) = nid n"
  "address (failStorageLocked err n) = address n"
  "peerAddrs (failStorageLocked err n) = peerAddrs n"
  "clientAddrs (failStorageLocked err n) = clientAddrs n"
  "heartbeatEvery (failStorageLocked err n) = heartbeatEvery n"
  "readTimeout (failStorageLocked err n) = readTimeout n"
  "timeoutMin (failStorageLocked err n) = timeoutMin n"
  "timeoutMax (failStorageLocked err n) = timeoutMax n"
  "snapshotEvery (failStorageLocked err n) = snapshotEvery n"
  "snapshotChunkBytes (failStorageLocked err n) = snapshotChunkBytes n"
  "store (failStorageLocked err n) = store n"
  "sm (failStorageLocked err n) = sm n"
  "currentTerm (failStorageLocked err n) = currentTerm n"
  "votedFor (failStorageLocked err n) = votedFor n"
  "nextIndex (failStorageLocked err n) = nextIndex n"
  "matchIndex (failStorageLocked err n) = matchIndex n"
  "replicating (failStorageLocked err n) = replicating n"
  "nextChan (failStorageLocked err n) = nextChan n"
  "pendingSnapshot (failStorageLocked err n) = pendingSnapshot n"
  "stopped (failStorageLocked err n) = stopped n"
  "applyCh (failStorageLocked err n) = applyCh n"
  "replicateCh (failStorageLocked err n) = replicateCh n"
  by (simp_all add: failStorageLocked_def split: option.splits)

lemma saveHardStateLocked_frame [simp, frame_simps]:
  "snapshot (snd (saveHardStateLocked S c n)) = snapshot n"
  "log (snd (saveHardStateLocked S c n)) = log n"
  "commitIndex (snd (saveHardStateLocked S c n)) = commitIndex n"
  "lastApplied (snd (saveHardStateLocked S c n)) = lastApplied n"
  "nid (snd (saveHardStateLocked S c n)) = nid n"
  "address (snd (saveHardStateLocked S c n)) = address n"
  "peerAddrs (snd (saveHardStateLocked S c n)) = peerAddrs n"
  "clientAddrs (snd (saveHardStateLocked S c n)) = clientAddrs n"
  "heartbeatEvery (snd (saveHardStateLocked S c n)) = heartbeatEvery n"
  "readTimeout (snd (saveHardStateLocked S c n)) = readTimeout n"
  "timeoutMin (snd (saveHardStateLocked S c n)) = timeoutMin n"
  "timeoutMax (snd (saveHardStateLocked S c n)) = timeoutMax n"
  "snapshotEvery (snd (saveHardStateLocked S c n)) = snapshotEvery n"
  "snapshotChunkBytes (snd (saveHardStateLocked S c n)) = snapshotChunkBytes n"
  "sm (snd (saveHardStateLocked S c n)) = sm n"
  "role (snd (saveHardStateLocked S c n)) = role n"
  "currentTerm (snd (saveHardStateLocked S c n)) = currentTerm n"
  "votedFor (snd (saveHardStateLocked S c n)) = votedFor n"
  "leaderID (snd (saveHardStateLocked S c n)) = leaderID n"
  "leaderNoopIndex (snd (saveHardStateLocked S c n)) = leaderNoopIndex n"
  "nextIndex (snd (saveHardStateLocked S c n)) = nextIndex n"
  "matchIndex (snd (saveHardStateLocked S c n)) = matchIndex n"
  "replicating (snd (saveHardStateLocked S c n)) = replicating n"
  "electionDue (snd (saveHardStateLocked S c n)) = electionDue n"
  "rng (snd (saveHardStateLocked S c n)) = rng n"
  "clock (snd (saveHardStateLocked S c n)) = clock n"
  "waiters (snd (saveHardStateLocked S c n)) = waiters n"
  "nextChan (snd (saveHardStateLocked S c n)) = nextChan n"
  "sent (snd (saveHardStateLocked S c n)) = sent n"
  "pendingSnapshot (snd (saveHardStateLocked S c n)) = pendingSnapshot n"
  "storageFatal (snd (saveHardStateLocked S c n)) = storageFatal n"
  "stopped (snd (saveHardStateLocked S c n)) = stopped n"
  "applyCh (snd (saveHardStateLocked S c n)) = applyCh n"
  "replicateCh (snd (saveHardStateLocked S c n)) = replicateCh n"
  by (simp_all add: saveHardStateLocked_def split: prod.splits option.splits)

lemma persistHardStateLocked_frame [simp, frame_simps]:
  "snapshot (snd (persistHardStateLocked S n)) = snapshot n"
  "log (snd (persistHardStateLocked S n)) = log n"
  "commitIndex (snd (persistHardStateLocked S n)) = commitIndex n"
  "lastApplied (snd (persistHardStateLocked S n)) = lastApplied n"
  "nid (snd (persistHardStateLocked S n)) = nid n"
  "address (snd (persistHardStateLocked S n)) = address n"
  "peerAddrs (snd (persistHardStateLocked S n)) = peerAddrs n"
  "clientAddrs (snd (persistHardStateLocked S n)) = clientAddrs n"
  "heartbeatEvery (snd (persistHardStateLocked S n)) = heartbeatEvery n"
  "readTimeout (snd (persistHardStateLocked S n)) = readTimeout n"
  "timeoutMin (snd (persistHardStateLocked S n)) = timeoutMin n"
  "timeoutMax (snd (persistHardStateLocked S n)) = timeoutMax n"
  "snapshotEvery (snd (persistHardStateLocked S n)) = snapshotEvery n"
  "snapshotChunkBytes (snd (persistHardStateLocked S n)) = snapshotChunkBytes n"
  "sm (snd (persistHardStateLocked S n)) = sm n"
  "role (snd (persistHardStateLocked S n)) = role n"
  "currentTerm (snd (persistHardStateLocked S n)) = currentTerm n"
  "votedFor (snd (persistHardStateLocked S n)) = votedFor n"
  "leaderID (snd (persistHardStateLocked S n)) = leaderID n"
  "leaderNoopIndex (snd (persistHardStateLocked S n)) = leaderNoopIndex n"
  "nextIndex (snd (persistHardStateLocked S n)) = nextIndex n"
  "matchIndex (snd (persistHardStateLocked S n)) = matchIndex n"
  "replicating (snd (persistHardStateLocked S n)) = replicating n"
  "electionDue (snd (persistHardStateLocked S n)) = electionDue n"
  "rng (snd (persistHardStateLocked S n)) = rng n"
  "clock (snd (persistHardStateLocked S n)) = clock n"
  "waiters (snd (persistHardStateLocked S n)) = waiters n"
  "nextChan (snd (persistHardStateLocked S n)) = nextChan n"
  "sent (snd (persistHardStateLocked S n)) = sent n"
  "pendingSnapshot (snd (persistHardStateLocked S n)) = pendingSnapshot n"
  "storageFatal (snd (persistHardStateLocked S n)) = storageFatal n"
  "stopped (snd (persistHardStateLocked S n)) = stopped n"
  "applyCh (snd (persistHardStateLocked S n)) = applyCh n"
  "replicateCh (snd (persistHardStateLocked S n)) = replicateCh n"
  by (simp_all add: persistHardStateLocked_def)

lemma follower_fields_frame [simp, frame_simps]:
  "snapshot (follower_fields t l b n) = snapshot n"
  "log (follower_fields t l b n) = log n"
  "commitIndex (follower_fields t l b n) = commitIndex n"
  "lastApplied (follower_fields t l b n) = lastApplied n"
  "nid (follower_fields t l b n) = nid n"
  "address (follower_fields t l b n) = address n"
  "peerAddrs (follower_fields t l b n) = peerAddrs n"
  "clientAddrs (follower_fields t l b n) = clientAddrs n"
  "heartbeatEvery (follower_fields t l b n) = heartbeatEvery n"
  "readTimeout (follower_fields t l b n) = readTimeout n"
  "timeoutMin (follower_fields t l b n) = timeoutMin n"
  "timeoutMax (follower_fields t l b n) = timeoutMax n"
  "snapshotEvery (follower_fields t l b n) = snapshotEvery n"
  "snapshotChunkBytes (follower_fields t l b n) = snapshotChunkBytes n"
  "store (follower_fields t l b n) = store n"
  "sm (follower_fields t l b n) = sm n"
  "nextIndex (follower_fields t l b n) = nextIndex n"
  "matchIndex (follower_fields t l b n) = matchIndex n"
  "replicating (follower_fields t l b n) = replicating n"
  "waiters (follower_fields t l b n) = waiters n"
  "nextChan (follower_fields t l b n) = nextChan n"
  "sent (follower_fields t l b n) = sent n"
  "pendingSnapshot (follower_fields t l b n) = pendingSnapshot n"
  "lastErr (follower_fields t l b n) = lastErr n"
  "storageFatal (follower_fields t l b n) = storageFatal n"
  "stopped (follower_fields t l b n) = stopped n"
  "applyCh (follower_fields t l b n) = applyCh n"
  "replicateCh (follower_fields t l b n) = replicateCh n"
  by (simp_all add: follower_fields_def Let_def)

lemma follower_fields_state [simp]:
  "role (follower_fields t l b n) = Follower"
  "currentTerm (follower_fields t l b n) = max (currentTerm n) t"
  "votedFor (follower_fields t l b n) = (if currentTerm n < t then '''' else votedFor n)"
  "leaderID (follower_fields t l b n) = l"
  "leaderNoopIndex (follower_fields t l b n) = 0"
  by (auto simp: follower_fields_def Let_def max_def)

lemma becomeFollowerWithTimerLocked_frame [simp, frame_simps]:
  "snapshot (snd (becomeFollowerWithTimerLocked S t l b n)) = snapshot n"
  "log (snd (becomeFollowerWithTimerLocked S t l b n)) = log n"
  "commitIndex (snd (becomeFollowerWithTimerLocked S t l b n)) = commitIndex n"
  "lastApplied (snd (becomeFollowerWithTimerLocked S t l b n)) = lastApplied n"
  "nid (snd (becomeFollowerWithTimerLocked S t l b n)) = nid n"
  "address (snd (becomeFollowerWithTimerLocked S t l b n)) = address n"
  "peerAddrs (snd (becomeFollowerWithTimerLocked S t l b n)) = peerAddrs n"
  "clientAddrs (snd (becomeFollowerWithTimerLocked S t l b n)) = clientAddrs n"
  "heartbeatEvery (snd (becomeFollowerWithTimerLocked S t l b n)) = heartbeatEvery n"
  "readTimeout (snd (becomeFollowerWithTimerLocked S t l b n)) = readTimeout n"
  "timeoutMin (snd (becomeFollowerWithTimerLocked S t l b n)) = timeoutMin n"
  "timeoutMax (snd (becomeFollowerWithTimerLocked S t l b n)) = timeoutMax n"
  "snapshotEvery (snd (becomeFollowerWithTimerLocked S t l b n)) = snapshotEvery n"
  "snapshotChunkBytes (snd (becomeFollowerWithTimerLocked S t l b n)) = snapshotChunkBytes n"
  "sm (snd (becomeFollowerWithTimerLocked S t l b n)) = sm n"
  "nextIndex (snd (becomeFollowerWithTimerLocked S t l b n)) = nextIndex n"
  "matchIndex (snd (becomeFollowerWithTimerLocked S t l b n)) = matchIndex n"
  "replicating (snd (becomeFollowerWithTimerLocked S t l b n)) = replicating n"
  "nextChan (snd (becomeFollowerWithTimerLocked S t l b n)) = nextChan n"
  "pendingSnapshot (snd (becomeFollowerWithTimerLocked S t l b n)) = pendingSnapshot n"
  "stopped (snd (becomeFollowerWithTimerLocked S t l b n)) = stopped n"
  "applyCh (snd (becomeFollowerWithTimerLocked S t l b n)) = applyCh n"
  "replicateCh (snd (becomeFollowerWithTimerLocked S t l b n)) = replicateCh n"
  by (simp_all add: becomeFollowerWithTimerLocked_def Let_def case_prod_beta split: option.splits)

lemma becomeFollowerLocked_frame [simp, frame_simps]:
  "snapshot (snd (becomeFollowerLocked S t l n)) = snapshot n"
  "log (snd (becomeFollowerLocked S t l n)) = log n"
  "commitIndex (snd (becomeFollowerLocked S t l n)) = commitIndex n"
  "lastApplied (snd (becomeFollowerLocked S t l n)) = lastApplied n"
  "nid (snd (becomeFollowerLocked S t l n)) = nid n"
  "address (snd (becomeFollowerLocked S t l n)) = address n"
  "peerAddrs (snd (becomeFollowerLocked S t l n)) = peerAddrs n"
  "clientAddrs (snd (becomeFollowerLocked S t l n)) = clientAddrs n"
  "heartbeatEvery (snd (becomeFollowerLocked S t l n)) = heartbeatEvery n"
  "readTimeout (snd (becomeFollowerLocked S t l n)) = readTimeout n"
  "timeoutMin (snd (becomeFollowerLocked S t l n)) = timeoutMin n"
  "timeoutMax (snd (becomeFollowerLocked S t l n)) = timeoutMax n"
  "snapshotEvery (snd (becomeFollowerLocked S t l n)) = snapshotEvery n"
  "snapshotChunkBytes (snd (becomeFollowerLocked S t l n)) = snapshotChunkBytes n"
  "sm (snd (becomeFollowerLocked S t l n)) = sm n"
  "nextIndex (snd (becomeFollowerLocked S t l n)) = nextIndex n"
  "matchIndex (snd (becomeFollowerLocked S t l n)) = matchIndex n"
  "replicating (snd (becomeFollowerLocked S t l n)) = replicating n"
  "nextChan (snd (becomeFollowerLocked S t l n)) = nextChan n"
  "pendingSnapshot (snd (becomeFollowerLocked S t l n)) = pendingSnapshot n"
  "stopped (snd (becomeFollowerLocked S t l n)) = stopped n"
  "applyCh (snd (becomeFollowerLocked S t l n)) = applyCh n"
  "replicateCh (snd (becomeFollowerLocked S t l n)) = replicateCh n"
  by (simp_all add: becomeFollowerLocked_def)

lemma becomeFollowerForVoteLocked_frame [simp, frame_simps]:
  "snapshot (snd (becomeFollowerForVoteLocked S t n)) = snapshot n"
  "log (snd (becomeFollowerForVoteLocked S t n)) = log n"
  "commitIndex (snd (becomeFollowerForVoteLocked S t n)) = commitIndex n"
  "lastApplied (snd (becomeFollowerForVoteLocked S t n)) = lastApplied n"
  "nid (snd (becomeFollowerForVoteLocked S t n)) = nid n"
  "address (snd (becomeFollowerForVoteLocked S t n)) = address n"
  "peerAddrs (snd (becomeFollowerForVoteLocked S t n)) = peerAddrs n"
  "clientAddrs (snd (becomeFollowerForVoteLocked S t n)) = clientAddrs n"
  "heartbeatEvery (snd (becomeFollowerForVoteLocked S t n)) = heartbeatEvery n"
  "readTimeout (snd (becomeFollowerForVoteLocked S t n)) = readTimeout n"
  "timeoutMin (snd (becomeFollowerForVoteLocked S t n)) = timeoutMin n"
  "timeoutMax (snd (becomeFollowerForVoteLocked S t n)) = timeoutMax n"
  "snapshotEvery (snd (becomeFollowerForVoteLocked S t n)) = snapshotEvery n"
  "snapshotChunkBytes (snd (becomeFollowerForVoteLocked S t n)) = snapshotChunkBytes n"
  "sm (snd (becomeFollowerForVoteLocked S t n)) = sm n"
  "nextIndex (snd (becomeFollowerForVoteLocked S t n)) = nextIndex n"
  "matchIndex (snd (becomeFollowerForVoteLocked S t n)) = matchIndex n"
  "replicating (snd (becomeFollowerForVoteLocked S t n)) = replicating n"
  "nextChan (snd (becomeFollowerForVoteLocked S t n)) = nextChan n"
  "pendingSnapshot (snd (becomeFollowerForVoteLocked S t n)) = pendingSnapshot n"
  "stopped (snd (becomeFollowerForVoteLocked S t n)) = stopped n"
  "applyCh (snd (becomeFollowerForVoteLocked S t n)) = applyCh n"
  "replicateCh (snd (becomeFollowerForVoteLocked S t n)) = replicateCh n"
  by (simp_all add: becomeFollowerForVoteLocked_def)


section \<open>Roles, terms and votes after stepping down\<close>

lemma failStorageLocked_state [simp]:
  "role (failStorageLocked (Some e) n) = Follower"
  "storageFatal (failStorageLocked (Some e) n) = Some e"
  "leaderNoopIndex (failStorageLocked (Some e) n) = 0"
  "failStorageLocked None n = n"
  by (simp_all add: failStorageLocked_def)

lemma becomeFollowerWithTimerLocked_state [simp]:
  "role (snd (becomeFollowerWithTimerLocked S t l b n)) = Follower"
  "currentTerm (snd (becomeFollowerWithTimerLocked S t l b n)) = max (currentTerm n) t"
  "votedFor (snd (becomeFollowerWithTimerLocked S t l b n)) =
     (if currentTerm n < t then '''' else votedFor n)"
  by (simp_all add: becomeFollowerWithTimerLocked_def Let_def case_prod_beta split: option.splits)

lemma becomeFollowerWithTimerLocked_ok:
  "fst (becomeFollowerWithTimerLocked S t l b n) = None \<Longrightarrow>
   storageFatal (snd (becomeFollowerWithTimerLocked S t l b n)) = storageFatal n"
  by (simp add: becomeFollowerWithTimerLocked_def Let_def case_prod_beta split: option.splits)

lemma becomeFollowerWithTimerLocked_err:
  "fst (becomeFollowerWithTimerLocked S t l b n) = Some e \<Longrightarrow>
   storageFatal (snd (becomeFollowerWithTimerLocked S t l b n)) = Some e"
  by (simp add: becomeFollowerWithTimerLocked_def Let_def case_prod_beta split: option.splits)

lemmas becomeFollower_state [simp] =
  becomeFollowerWithTimerLocked_state [of S t l True n for S t l n, folded becomeFollowerLocked_def]
  becomeFollowerWithTimerLocked_state [of S t "''''" False n for S t n,
    folded becomeFollowerForVoteLocked_def]

section \<open>Well-formed nodes\<close>

text \<open>The invariant of a node's log positions: the entries follow the snapshot without a gap, and
  snapshot, applied and commit index are in this order and within the log.\<close>

definition wf_node :: "'a node_log_scheme \<Rightarrow> bool" where
  "wf_node n \<longleftrightarrow> wf_log n \<and> lii n \<le> lastApplied n \<and> lastApplied n \<le> commitIndex n \<and>
     commitIndex n \<le> lastIndexLocked n"

text \<open>The part of a node that the invariant reads.\<close>

definition positions :: "'a node_log_scheme \<Rightarrow> Snapshot \<times> LogEntry list \<times> u64 \<times> u64" where
  "positions n = (snapshot n, log n, commitIndex n, lastApplied n)"

lemma positions_eq_iff:
  "positions n' = positions n \<longleftrightarrow> snapshot n' = snapshot n \<and> log n' = log n \<and>
     commitIndex n' = commitIndex n \<and> lastApplied n' = lastApplied n"
  by (simp add: positions_def)

lemma positions_cong:
  assumes "positions n' = positions n"
  shows "wf_node n' = wf_node n" and "lastIndexLocked n' = lastIndexLocked n"
    and "entryAtLocked n' = entryAtLocked n" and "termAtLocked n' = termAtLocked n"
    and "lastTermLocked n' = lastTermLocked n"
  using assms
  by (auto simp: positions_eq_iff wf_node_def wf_log_def lastIndexLocked_def entryAtLocked_def
      termAtLocked_def lastTermLocked_def fun_eq_iff Let_def)

lemma positions_frame [simp]:
  "positions (resetElectionLocked n) = positions n"
  "positions (notifyApplyLocked n) = positions n"
  "positions (failStorageLocked err n) = positions n"
  "positions (failUncommittedWaitersLocked n) = positions n"
  "positions (snd (persistHardStateLocked S n)) = positions n"
  "positions (snd (becomeFollowerLocked S t l n)) = positions n"
  "positions (snd (becomeFollowerForVoteLocked S t n)) = positions n"
  by (simp_all add: positions_def)


section \<open>A concrete node for the witnesses\<close>

text \<open>A store that accepts every write, and node a of the cluster a, b, c with the log
  \<open>ex_log\<close>, as a follower in term 2.\<close>

definition ex_store :: "unit Store" where
  "ex_store = \<lparr>Store_Load = (\<lambda>st. (Inr (zero_HardState, [], zero_Snapshot), st)),
     Store_SaveHardState = (\<lambda>h st. (None, st)), Store_AppendEntries = (\<lambda>es st. (None, st)),
     Store_ReplaceEntries = (\<lambda>es st. (None, st)), Store_SaveSnapshot = (\<lambda>s st. (None, st))\<rparr>"

definition ex_node :: "(unit, KVStateMachine) node" where
  "ex_node = \<lparr>snapshot = snapshot ex_log, log = log ex_log, commitIndex = 3, lastApplied = 3,
     nid = ''a'', address = ''a:1'', peerAddrs = [(''b'', ''b:1''), (''c'', ''c:1'')],
     clientAddrs = Map.empty, heartbeatEvery = 75, readTimeout = 5000, timeoutMin = 300,
     timeoutMax = 600, snapshotEvery = 64, snapshotChunkBytes = 4,
     store = (), sm = NewKVStateMachine, role = Follower, currentTerm = 2, votedFor = '''',
     leaderID = '''', leaderNoopIndex = 0, nextIndex = Map.empty, matchIndex = Map.empty,
     replicating = Map.empty, electionDue = 0, rng = sconst 0, clock = sconst 0, waiters = [],
     nextChan = 0, sent = [], pendingSnapshot = None, lastErr = None, storageFatal = None,
     stopped = False, applyCh = False, replicateCh = False\<rparr>"

lemma ex_node_wf: "wf_node ex_node"
  by (simp add: ex_node_def ex_log_def ex_entry_def wf_node_def wf_log_def lastIndexLocked_def
      lastIndex_def)


end
