(* ===== verification/Raft_Replication.thy ===== *)
theory Raft_Replication
  imports Raft_Node
begin

text \<open>
  Log replication (\<open>internal/raft/node.go\<close>): the follower's \<open>HandleAppendEntries\<close>, the
  leader's \<open>proposeAppend\<close>, \<open>advanceCommitLocked\<close> and \<open>replicateToPeer\<close>.

  \<open>replicateToPeer\<close> releases the mutex around each remote call.  It is cut at these points:
  \<open>replicate_prepare\<close> is the part of one loop iteration before the call, \<open>replicate_append_reply\<close>
  and \<open>replicate_snapshot_sent\<close> the parts after it; \<open>replicateToPeer\<close> composes them for a given
  behaviour of the peer.
\<close>

section \<open>The follower: HandleAppendEntries\<close>

definition ae_reject :: "('st, 'sm) node \<Rightarrow> AppendEntriesResponse" where
  "ae_reject n = \<lparr>aer_Term = currentTerm n, aer_Success = False,
     aer_LastLogIndex = lastIndexLocked n, aer_ConflictIndex = 0\<rparr>"

definition ae_conflict :: "u64 \<Rightarrow> ('st, 'sm) node \<Rightarrow> AppendEntriesResponse" where
  "ae_conflict c n = (ae_reject n)\<lparr>aer_ConflictIndex := c\<rparr>"

definition ae_success :: "('st, 'sm) node \<Rightarrow> AppendEntriesResponse" where
  "ae_success n = (ae_reject n)\<lparr>aer_Success := True\<rparr>"

text \<open>Writing the merged log: the whole log when it was rewritten, else the new entries.\<close>

definition persist_merge :: "'st Store \<Rightarrow> mergeEntriesResult \<Rightarrow> ('st, 'sm) node \<Rightarrow> goerror option \<times> 'st" where
  "persist_merge S merge n =
     (if changed merge then
        (if replaced merge then Store_ReplaceEntries S (log n) (store n)
         else Store_AppendEntries S (appended merge) (store n))
      else (None, store n))"

definition ae_commit :: "'st Store \<Rightarrow> u64 \<Rightarrow> ('st, 'sm) node \<Rightarrow> AppendEntriesResponse \<times> ('st, 'sm) node" where
  "ae_commit S newCommit n =
     (if newCommit > commitIndex n then
        (case persistHardStateLocked S (n\<lparr>commitIndex := newCommit\<rparr>) of
           (Some e, n1) \<Rightarrow>
             (let n2 = n1\<lparr>commitIndex := commitIndex n\<rparr> in (ae_reject n2, n2))
         | (None, n1) \<Rightarrow> (let n2 = notifyApplyLocked n1 in (ae_success n2, n2)))
      else (ae_success n, n))"

definition ae_log :: "'st Store \<Rightarrow> AppendEntriesRequest \<Rightarrow> ('st, 'sm) node \<Rightarrow>
    AppendEntriesResponse \<times> ('st, 'sm) node" where
  "ae_log S req n =
     (if ae_PrevLogIndex req < lii n then (ae_conflict (lii n + 1) n, n)
      else if termAtLocked n (ae_PrevLogIndex req) \<noteq> Some (ae_PrevLogTerm req) then
        (ae_conflict (conflictIndexLocked n (ae_PrevLogIndex req)) n, n)
      else
        (case mergeEntriesLocked (ae_PrevLogIndex req) (ae_Entries req) n of
           (merge, n1) \<Rightarrow>
             if conflictIndex merge > 0 then (ae_conflict (conflictIndex merge) n1, n1)
             else
               (case persist_merge S merge n1 of
                  (Some e, st) \<Rightarrow>
                    (let n2 = failStorageLocked (Some e) (n1\<lparr>store := st, log := log n\<rparr>)
                     in (ae_reject n2, n2))
                | (None, st) \<Rightarrow>
                    ae_commit S (min (ae_LeaderCommit req) (lastNewIndex merge))
                      (n1\<lparr>store := st\<rparr>))))"

definition HandleAppendEntries :: "'st Store \<Rightarrow> AppendEntriesRequest \<Rightarrow> ('st, 'sm) node \<Rightarrow>
    AppendEntriesResponse \<times> ('st, 'sm) node" where
  "HandleAppendEntries S req n =
     (if stopped n \<or> storageFatal n \<noteq> None then (ae_reject n, n)
      else if \<not> isKnownRemotePeerLocked n (ae_LeaderID req) then (ae_reject n, n)
      else if ae_Term req < currentTerm n then (ae_reject n, n)
      else
        (case (if ae_Term req > currentTerm n \<or> role n \<noteq> Follower
               then becomeFollowerLocked S (ae_Term req) (ae_LeaderID req) n
               else (None, n)) of
           (Some e, n1) \<Rightarrow> (ae_reject n1, n1)
         | (None, n1) \<Rightarrow> ae_log S req (resetElectionLocked (n1\<lparr>leaderID := ae_LeaderID req\<rparr>))))"

section \<open>The leader: committing\<close>

definition replica_count :: "u64 \<Rightarrow> ('st, 'sm) node \<Rightarrow> nat" where
  "replica_count index n =
     1 + length (filter (\<lambda>(peerID, _). get_u64 (matchIndex n) peerID \<ge> index) (peerAddrs n))"

definition commit_to :: "'st Store \<Rightarrow> u64 \<Rightarrow> ('st, 'sm) node \<Rightarrow> ('st, 'sm) node" where
  "commit_to S index n =
     (case persistHardStateLocked S (n\<lparr>commitIndex := index\<rparr>) of
        (Some e, n1) \<Rightarrow> failStorageLocked (Some e) (n1\<lparr>commitIndex := commitIndex n\<rparr>)
      | (None, n1) \<Rightarrow> notifyApplyLocked n1)"

function advance_loop :: "'st Store \<Rightarrow> u64 \<Rightarrow> ('st, 'sm) node \<Rightarrow> ('st, 'sm) node" where
  "advance_loop S index n =
     (if index > commitIndex n then
        (if termAtLocked n index \<noteq> Some (currentTerm n) then advance_loop S (index - 1) n
         else if replica_count index n \<ge> quorum n then commit_to S index n
         else advance_loop S (index - 1) n)
      else n)"
  by pat_completeness auto
termination
proof (relation "measure (\<lambda>(S, index, n). unat index)", goal_cases)
  case 1
  then show ?case by simp
next
  case (2 S index n)
  then have "index \<noteq> 0" by auto
  then show ?case by (simp add: unat_pred_u64 unat_gt_0)
next
  case (3 S index n)
  then have "index \<noteq> 0" by auto
  then show ?case by (simp add: unat_pred_u64 unat_gt_0)
qed

declare advance_loop.simps [simp del]

definition advanceCommitLocked :: "'st Store \<Rightarrow> ('st, 'sm) node \<Rightarrow> ('st, 'sm) node" where
  "advanceCommitLocked S n = advance_loop S (lastIndexLocked n) n"

section \<open>The leader: accepting a proposal\<close>

definition proposeAppend :: "'st Store \<Rightarrow> Command \<Rightarrow> ('st, 'sm) node \<Rightarrow>
    (goerror + chan \<times> u64) \<times> ('st, 'sm) node" where
  "proposeAppend S command n =
     (if stopped n then (Inl ErrNodeStopped, n)
      else case storageFatal n of
        Some err \<Rightarrow> (Inl err, n)
      | None \<Rightarrow>
          if role n \<noteq> Leader then (Inl (notLeaderLocked n), n)
          else
            (let entry = \<lparr>le_Index = lastIndexLocked n + 1, le_Term = currentTerm n,
                          le_Command = command\<rparr>
             in case Store_AppendEntries S [entry] (store n) of
                  (Some err, st) \<Rightarrow> (Inl err, failStorageLocked (Some err) (n\<lparr>store := st\<rparr>))
                | (None, st) \<Rightarrow>
                    (let waiter = nextChan n;
                         ws = (case map_of (waiters n) (le_Index entry) of
                                 None \<Rightarrow> [] | Some ws \<Rightarrow> ws);
                         n1 = n\<lparr>store := st, log := log n @ [entry],
                                matchIndex := (matchIndex n)(nid n \<mapsto> le_Index entry),
                                nextIndex := (nextIndex n)(nid n \<mapsto> le_Index entry + 1),
                                nextChan := waiter + 1,
                                waiters := AList.update (le_Index entry) (ws @ [waiter]) (waiters n)\<rparr>
                     in (Inr (waiter, le_Index entry), advanceCommitLocked S n1))))"

section \<open>The leader: driving one peer\<close>

datatype replicate_action =
    Give_up
  | Try_again
  | Send_append AppendEntriesRequest
  | Send_snapshot u64 u64 u64 "smap option" int

definition cloneMap :: "smap option \<Rightarrow> smap option" where
  "cloneMap src = (case src of None \<Rightarrow> None | Some m \<Rightarrow> Some (copy_map m))"

text \<open>The part of an iteration under the mutex: what to send to the peer.  \<open>Send_snapshot\<close>
  carries the term, the snapshot's index and term, its data and the chunk size.\<close>

definition replicate_prepare :: "string \<Rightarrow> ('st, 'sm) node \<Rightarrow> replicate_action \<times> ('st, 'sm) node" where
  "replicate_prepare peerID n =
     (if stopped n \<or> role n \<noteq> Leader then (Give_up, n)
      else
        (let n1 = (if get_u64 (nextIndex n) peerID = 0
                   then n\<lparr>nextIndex := (nextIndex n)(peerID \<mapsto> lastIndexLocked n + 1)\<rparr> else n);
             next = get_u64 (nextIndex n1) peerID
         in if next \<le> lii n1 then
              (Send_snapshot (currentTerm n1) (lii n1) (LastIncludedTerm (snapshot n1))
                 (cloneMap (Data (snapshot n1))) (snapshotChunkBytes n1), n1)
            else
              (let prevIndex = next - 1
               in case termAtLocked n1 prevIndex of
                    None \<Rightarrow>
                      (Try_again,
                       n1\<lparr>nextIndex := (nextIndex n1)(peerID \<mapsto> max 1 (lii n1 + 1))\<rparr>)
                  | Some prevTerm \<Rightarrow>
                      (Send_append
                         \<lparr>ae_Term = currentTerm n1, ae_LeaderID = nid n1, ae_PrevLogIndex = prevIndex,
                          ae_PrevLogTerm = prevTerm, ae_Entries = entriesFromLocked n1 next,
                          ae_LeaderCommit = commitIndex n1\<rparr>, n1))))"

text \<open>Raising the match and next index of a peer to an acknowledged position, never lowering
  them.\<close>

definition acknowledge :: "string \<Rightarrow> u64 \<Rightarrow> ('st, 'sm) node \<Rightarrow> ('st, 'sm) node" where
  "acknowledge peerID match n =
     (let n1 = (if get_u64 (matchIndex n) peerID < match
                then n\<lparr>matchIndex := (matchIndex n)(peerID \<mapsto> match)\<rparr> else n)
      in if get_u64 (nextIndex n1) peerID < match + 1
         then n1\<lparr>nextIndex := (nextIndex n1)(peerID \<mapsto> match + 1)\<rparr> else n1)"

text \<open>After the reply to \<open>req\<close>: \<open>Some b\<close> when \<open>replicateToPeer\<close> returns \<open>b\<close>, \<open>None\<close> when
  the loop goes on.\<close>

definition replicate_append_reply :: "'st Store \<Rightarrow> string \<Rightarrow> AppendEntriesRequest \<Rightarrow>
    AppendEntriesResponse \<Rightarrow> ('st, 'sm) node \<Rightarrow> bool option \<times> ('st, 'sm) node" where
  "replicate_append_reply S peerID req resp n =
     (if aer_Term resp > currentTerm n then
        (Some False, snd (becomeFollowerLocked S (aer_Term resp) '''' n))
      else if role n \<noteq> Leader \<or> currentTerm n \<noteq> ae_Term req then (Some False, n)
      else if aer_Success resp then
        (Some True,
         advanceCommitLocked S
           (acknowledge peerID (ae_PrevLogIndex req + of_nat (length (ae_Entries req))) n))
      else if aer_ConflictIndex resp > 0 then
        (None, n\<lparr>nextIndex := (nextIndex n)(peerID \<mapsto> aer_ConflictIndex resp)\<rparr>)
      else (Some False, n))"

definition replicate_snapshot_sent :: "string \<Rightarrow> u64 \<Rightarrow> u64 \<Rightarrow> ('st, 'sm) node \<Rightarrow> ('st, 'sm) node" where
  "replicate_snapshot_sent peerID term snapIdx n =
     (if role n = Leader \<and> currentTerm n = term then acknowledge peerID snapIdx n else n)"

text \<open>
  The loop for a peer that does not interleave with other work on this node: \<open>rpc\<close> answers an
  AppendEntries call (\<open>None\<close> for a transport error) and \<open>ship\<close> stands for \<open>sendSnapshot\<close>; both
  may change a state \<open>w\<close> of the outside world.
\<close>

fun replicate_loop :: "'st Store \<Rightarrow> string \<Rightarrow>
    (AppendEntriesRequest \<Rightarrow> 'w \<Rightarrow> AppendEntriesResponse option \<times> 'w) \<Rightarrow>
    (replicate_action \<Rightarrow> ('st, 'sm) node \<Rightarrow> 'w \<Rightarrow> bool \<times> ('st, 'sm) node \<times> 'w) \<Rightarrow>
    nat \<Rightarrow> ('st, 'sm) node \<Rightarrow> 'w \<Rightarrow> bool \<times> ('st, 'sm) node \<times> 'w" where
  "replicate_loop S peerID rpc ship 0 n w = (False, n, w)"
| "replicate_loop S peerID rpc ship (Suc attempts) n w =
     (case replicate_prepare peerID n of
        (Give_up, n1) \<Rightarrow> (False, n1, w)
      | (Try_again, n1) \<Rightarrow> replicate_loop S peerID rpc ship attempts n1 w
      | (Send_snapshot term idx sterm d chunk, n1) \<Rightarrow>
          (case ship (Send_snapshot term idx sterm d chunk) n1 w of
             (False, n2, w1) \<Rightarrow> (False, n2, w1)
           | (True, n2, w1) \<Rightarrow> (True, replicate_snapshot_sent peerID term idx n2, w1))
      | (Send_append req, n1) \<Rightarrow>
          (case rpc req w of
             (None, w1) \<Rightarrow> (False, n1, w1)
           | (Some resp, w1) \<Rightarrow>
               (case replicate_append_reply S peerID req resp n1 of
                  (Some b, n2) \<Rightarrow> (b, n2, w1)
                | (None, n2) \<Rightarrow> replicate_loop S peerID rpc ship attempts n2 w1)))"

definition replicateToPeer where
  "replicateToPeer S peerID rpc ship n w = replicate_loop S peerID rpc ship maxReplicationAttempts n w"

section \<open>The leader: replication slots\<close>

definition finishPeerReplication :: "string \<Rightarrow> ('st, 'sm) node \<Rightarrow> ('st, 'sm) node" where
  "finishPeerReplication peerID n = n\<lparr>replicating := (replicating n)(peerID := None)\<rparr>"

text \<open>One poll of \<open>acquirePeerReplication\<close>: \<open>Some b\<close> returns, \<open>None\<close> waits and polls again.\<close>

definition acquirePeerReplication :: "bool \<Rightarrow> string \<Rightarrow> ('st, 'sm) node \<Rightarrow> bool option \<times> ('st, 'sm) node" where
  "acquirePeerReplication ctxDone peerID n =
     (if ctxDone then (Some False, n)
      else if stopped n \<or> storageFatal n \<noteq> None \<or> role n \<noteq> Leader then (Some False, n)
      else if \<not> get_bool (replicating n) peerID then
        (Some True, n\<lparr>replicating := (replicating n)(peerID \<mapsto> True)\<rparr>)
      else (None, n))"

text \<open>The part of \<open>replicateAllOnce\<close> under the mutex: the peers whose slot was free, now
  taken.\<close>

definition claim_slots :: "('st, 'sm) node \<Rightarrow> string list \<times> ('st, 'sm) node" where
  "claim_slots n =
     (let peers = filter (\<lambda>peerID. \<not> get_bool (replicating n) peerID) (map fst (peerAddrs n))
      in (peers, n\<lparr>replicating := (\<lambda>p. if p \<in> set peers then Some True else replicating n p)\<rparr>))"

definition replicateAllOnce_begin :: "('st, 'sm) node \<Rightarrow> (goerror + string list) \<times> ('st, 'sm) node" where
  "replicateAllOnce_begin n =
     (if stopped n then (Inl ErrNodeStopped, n)
      else if role n \<noteq> Leader then (Inl (notLeaderLocked n), n)
      else (case claim_slots n of (peers, n1) \<Rightarrow> (Inr peers, n1)))"

text \<open>The goroutines that \<open>replicateAllOnce\<close> starts, one after the other, and one round of
  \<open>heartbeatLoop\<close>; their interleaving is the subject of theory \<open>Raft_Process\<close>.\<close>

fun replicate_peers where
  "replicate_peers S rpc ship [] n w = (n, w)"
| "replicate_peers S rpc ship (peerID # peers) n w =
     (case replicateToPeer S peerID (rpc peerID) (ship peerID) n w of
        (_, n1, w1) \<Rightarrow> replicate_peers S rpc ship peers (finishPeerReplication peerID n1) w1)"

definition replicateAllOnce where
  "replicateAllOnce S rpc ship n w =
     (case replicateAllOnce_begin n of
        (Inl err, n1) \<Rightarrow> (Some err, n1, w)
      | (Inr peers, n1) \<Rightarrow> (None, replicate_peers S rpc ship peers n1 w))"

definition heartbeat_round where
  "heartbeat_round S rpc ship n w =
     (if isLeader n then snd (replicateAllOnce S rpc ship n w) else (n, w))"

section \<open>HandleAppendEntries keeps the log well formed and the committed entries in place\<close>

text \<open>What a step of a follower may do to the positions: the committed entries stay, the commit
  index does not go back, and the invariant holds again.\<close>

definition keeps_committed :: "'a node_log_scheme \<Rightarrow> 'b node_log_scheme \<Rightarrow> bool" where
  "keeps_committed n n' \<longleftrightarrow> wf_node n' \<and> commitIndex n \<le> commitIndex n' \<and>
     (\<forall>i \<le> commitIndex n. entryAtLocked n' i = entryAtLocked n i)"

lemma keeps_committed_refl: "wf_node n \<Longrightarrow> keeps_committed n n"
  by (simp add: keeps_committed_def)

lemma keeps_committed_positions:
  assumes "keeps_committed n n1" and "positions n' = positions n1"
  shows "keeps_committed n n'"
proof -
  have "commitIndex n' = commitIndex n1" using assms(2) by (simp add: positions_eq_iff)
  then show ?thesis using assms(1) positions_cong [OF assms(2)]
    by (simp add: keeps_committed_def)
qed

lemma keeps_committed_positions_left:
  assumes "keeps_committed n1 n'" and "positions n1 = positions n"
  shows "keeps_committed n n'"
proof -
  have "commitIndex n1 = commitIndex n" using assms(2) by (simp add: positions_eq_iff)
  then show ?thesis using assms(1) positions_cong [OF assms(2)]
    by (simp add: keeps_committed_def)
qed

lemma keeps_committed_raise:
  assumes "keeps_committed n n1" and "commitIndex n1 \<le> c" and "c \<le> lastIndexLocked n1"
    and "positions n' = positions (n1\<lparr>commitIndex := c\<rparr>)"
  shows "keeps_committed n n'"
proof (rule keeps_committed_positions [OF _ assms(4)])
  show "keeps_committed n (n1\<lparr>commitIndex := c\<rparr>)"
    using assms(1-3)
    by (auto simp: keeps_committed_def wf_node_def intro: order_trans)
qed

lemma ae_commit_keeps:
  assumes "keeps_committed n n1" and "c \<le> lastIndexLocked n1"
  shows "keeps_committed n (snd (ae_commit S c n1))"
proof (cases "c > commitIndex n1")
  case False
  then show ?thesis using assms(1) by (simp add: ae_commit_def)
next
  case True
  let ?p = "persistHardStateLocked S (n1\<lparr>commitIndex := c\<rparr>)"
  show ?thesis
  proof (cases "fst ?p")
    case None
    have "positions (snd (ae_commit S c n1)) = positions (n1\<lparr>commitIndex := c\<rparr>)"
      using True None by (simp add: ae_commit_def case_prod_beta Let_def)
    from keeps_committed_raise [OF assms(1) _ assms(2) this] show ?thesis using True by simp
  next
    case (Some e)
    have "positions (snd (ae_commit S c n1)) = positions n1"
      using True Some by (simp add: ae_commit_def case_prod_beta Let_def positions_def)
    then show ?thesis by (rule keeps_committed_positions [OF assms(1)])
  qed
qed

lemma merge_step:
  assumes "wf_node n" and "lii n \<le> p" and "termAtLocked n p = Some t"
    and "\<forall>e \<in> set es. lii n < le_Index e" and "unat p + length es < 2 ^ 64"
    and "mergeEntriesLocked p es n = (r, n')" and "conflictIndex r = 0"
  shows "contiguous p es" and "n' = n\<lparr>log := merged p es n\<rparr>" and "keeps_committed n n'"
    and "lastNewIndex r \<le> lastIndexLocked n'"
    and "\<And>e. e \<in> set es \<Longrightarrow> termAtLocked n' (le_Index e) = Some (le_Term e)"
proof -
  have wf: "wf_log n" and ci: "commitIndex n \<le> lastIndexLocked n" using assms(1)
    by (simp_all add: wf_node_def)
  have p: "p \<le> lastIndexLocked n"
    by (rule termAtLocked_le_last [OF wf assms(3)])
  note cases = mergeEntriesLocked_cases [OF wf assms(4,5,2) p assms(6)]
  show c: "contiguous p es" and n': "n' = n\<lparr>log := merged p es n\<rparr>"
    using cases assms(7) by (auto split: if_splits)
  have mis: "\<And>i. mismatch p es n = Some i \<Longrightarrow> commitIndex n < i"
    and new: "unat (lastNewIndex r) = unat p + length es"
    using cases assms(7) by (auto split: if_splits)
  have last: "unat p + length es \<le> unat (lastIndexLocked n')"
    unfolding n' by (rule unat_last_merged [OF wf c assms(2) p])
  then show "lastNewIndex r \<le> lastIndexLocked n'" using new by (simp add: u64_simps)
  show "\<And>e. e \<in> set es \<Longrightarrow> termAtLocked n' (le_Index e) = Some (le_Term e)"
    unfolding n' by (rule merged_holds_request [OF wf c assms(2) p])
  have wf': "wf_log n'" unfolding n' by (rule wf_log_merged [OF wf c assms(2) p])
  have keep: "entryAtLocked n' i = entryAtLocked n i" if "i \<le> commitIndex n" for i
    unfolding n' using merged_keeps_committed [OF wf c assms(2) p ci mis that] .
  have "commitIndex n \<le> lastIndexLocked n'"
  proof (cases "commitIndex n \<le> lii n")
    case True
    have "lii n' = lii n" using n' by simp
    then show ?thesis using order_trans [OF True] lii_le_lastIndexLocked [OF wf'] by simp
  next
    case False
    then have "entryAtLocked n' (commitIndex n) \<noteq> None"
      using keep ci by (simp add: entryAtLocked_eq [OF wf])
    then show ?thesis using entryAtLocked_eq [OF wf', of "commitIndex n"] by (auto split: if_splits)
  qed
  moreover have "lii n' = lii n \<and> commitIndex n' = commitIndex n \<and> lastApplied n' = lastApplied n"
    using n' by simp
  ultimately show "keeps_committed n n'"
    using keep wf' assms(1) by (simp add: keeps_committed_def wf_node_def)
qed


text \<open>
  What the handler needs of a request it does not turn away at once: no entry at or below the
  snapshot, and no wrap-around of the indices.  Every request with consecutive entries has it.
\<close>

definition request_ok :: "AppendEntriesRequest \<Rightarrow> 'a node_log_scheme \<Rightarrow> bool" where
  "request_ok req n \<longleftrightarrow> (lii n \<le> ae_PrevLogIndex req \<longrightarrow>
     (\<forall>e \<in> set (ae_Entries req). lii n < le_Index e) \<and>
     unat (ae_PrevLogIndex req) + length (ae_Entries req) < 2 ^ 64)"

lemma contiguous_request_ok:
  "contiguous (ae_PrevLogIndex req) (ae_Entries req) \<Longrightarrow> request_ok req n"
  using contiguous_gt [of "ae_PrevLogIndex req" "ae_Entries req"]
    contiguous_max [of "ae_PrevLogIndex req" "ae_Entries req"]
  by (fastforce simp: request_ok_def u64_simps)

lemma ae_commit_state:
  "log (snd (ae_commit S c n)) = log n" "snapshot (snd (ae_commit S c n)) = snapshot n"
  "aer_Success (fst (ae_commit S c n)) \<Longrightarrow> c \<le> commitIndex (snd (ae_commit S c n))"
  by (auto simp: ae_commit_def Let_def case_prod_beta ae_reject_def not_less split: option.splits)

lemma termAtLocked_snapshot_log_cong:
  "snapshot n' = snapshot n \<Longrightarrow> log n' = log n \<Longrightarrow> termAtLocked n' = termAtLocked n"
  by (simp add: termAtLocked_def entryAtLocked_def fun_eq_iff Let_def)

text \<open>The outcomes of the log part of the handler.\<close>

lemma ae_log_outcome:
  assumes "wf_node n" and "request_ok req n"
  shows "positions (snd (ae_log S req n)) = positions n \<and> \<not> aer_Success (fst (ae_log S req n)) \<or>
    (\<exists>r n1 st. mergeEntriesLocked (ae_PrevLogIndex req) (ae_Entries req) n = (r, n1) \<and>
       conflictIndex r = 0 \<and> lii n \<le> ae_PrevLogIndex req \<and>
       termAtLocked n (ae_PrevLogIndex req) = Some (ae_PrevLogTerm req) \<and>
       persist_merge S r n1 = (None, st) \<and>
       ae_log S req n = ae_commit S (min (ae_LeaderCommit req) (lastNewIndex r)) (n1\<lparr>store := st\<rparr>))"
proof -
  let ?p = "ae_PrevLogIndex req" and ?es = "ae_Entries req"
  obtain r n1 where m: "mergeEntriesLocked ?p ?es n = (r, n1)" by fastforce
  consider (low) "?p < lii n" | (other) "\<not> ?p < lii n" "termAtLocked n ?p \<noteq> Some (ae_PrevLogTerm req)"
    | (go) "lii n \<le> ?p" "termAtLocked n ?p = Some (ae_PrevLogTerm req)" by fastforce
  then show ?thesis
  proof cases
    case low
    then show ?thesis by (simp add: ae_log_def ae_conflict_def ae_reject_def)
  next
    case other
    then show ?thesis by (simp add: ae_log_def ae_conflict_def ae_reject_def)
  next
    case go
    have wf: "wf_log n" using assms(1) by (simp add: wf_node_def)
    have ok: "\<forall>e \<in> set ?es. lii n < le_Index e" "unat ?p + length ?es < 2 ^ 64"
      using assms(2) go(1) by (simp_all add: request_ok_def)
    have refuse: "n1 = n" if "conflictIndex r \<noteq> 0"
      using mergeEntriesLocked_cases [OF wf ok go(1) termAtLocked_le_last [OF wf go(2)] m] that
      by (auto split: if_splits)
    have log: "conflictIndex r = 0 \<Longrightarrow> n1 = n\<lparr>log := merged ?p ?es n\<rparr>"
      using merge_step(2) [OF assms(1) go ok m] .
    show ?thesis
    proof (cases "conflictIndex r = 0")
      case True
      obtain err st where pm: "persist_merge S r n1 = (err, st)" by fastforce
      show ?thesis using go m pm log [OF True] True
        by (cases err) (auto simp: ae_log_def ae_reject_def Let_def positions_def not_less [symmetric])
    next
      case False
      then show ?thesis using go m refuse [OF False]
        by (simp add: ae_log_def ae_conflict_def ae_reject_def word_neq_0_conv not_less [symmetric])
    qed
  qed
qed

lemma ae_log_keeps:
  assumes "wf_node n" and "request_ok req n"
  shows "keeps_committed n (snd (ae_log S req n))"
  using ae_log_outcome [OF assms, of S]
proof (elim disjE exE conjE)
  assume "positions (snd (ae_log S req n)) = positions n"
  then show ?thesis by (rule keeps_committed_positions [OF keeps_committed_refl [OF assms(1)]])
next
  fix r n1 st
  assume m: "mergeEntriesLocked (ae_PrevLogIndex req) (ae_Entries req) n = (r, n1)"
    and c: "conflictIndex r = 0" and p: "lii n \<le> ae_PrevLogIndex req"
    and t: "termAtLocked n (ae_PrevLogIndex req) = Some (ae_PrevLogTerm req)"
    and eq: "ae_log S req n =
      ae_commit S (min (ae_LeaderCommit req) (lastNewIndex r)) (n1\<lparr>store := st\<rparr>)"
  have ok: "\<forall>e \<in> set (ae_Entries req). lii n < le_Index e"
    "unat (ae_PrevLogIndex req) + length (ae_Entries req) < 2 ^ 64"
    using assms(2) p by (simp_all add: request_ok_def)
  note step = merge_step [OF assms(1) p t ok m c]
  have pos: "positions (n1\<lparr>store := st\<rparr>) = positions n1" by (simp add: positions_def)
  have keep: "keeps_committed n (n1\<lparr>store := st\<rparr>)"
    by (rule keeps_committed_positions [OF step(3) pos])
  have "lastNewIndex r \<le> lastIndexLocked (n1\<lparr>store := st\<rparr>)"
    using step(4) positions_cong(2) [OF pos] by simp
  then have "min (ae_LeaderCommit req) (lastNewIndex r) \<le> lastIndexLocked (n1\<lparr>store := st\<rparr>)"
    by (rule min.coboundedI2)
  then show ?thesis unfolding eq by (rule ae_commit_keeps [OF keep])
qed


lemma ae_log_success:
  assumes "wf_node n" and "request_ok req n" and "aer_Success (fst (ae_log S req n))"
  shows "termAtLocked (snd (ae_log S req n)) (ae_PrevLogIndex req) = Some (ae_PrevLogTerm req)"
    and "\<forall>e \<in> set (ae_Entries req).
      termAtLocked (snd (ae_log S req n)) (le_Index e) = Some (le_Term e)"
    and "unat (ae_LeaderCommit req) \<le> unat (ae_PrevLogIndex req) + length (ae_Entries req) \<Longrightarrow>
      ae_LeaderCommit req \<le> commitIndex (snd (ae_log S req n))"
proof -
  obtain r n1 st where
    m: "mergeEntriesLocked (ae_PrevLogIndex req) (ae_Entries req) n = (r, n1)"
    and c: "conflictIndex r = 0" and p: "lii n \<le> ae_PrevLogIndex req"
    and t: "termAtLocked n (ae_PrevLogIndex req) = Some (ae_PrevLogTerm req)"
    and eq: "ae_log S req n =
      ae_commit S (min (ae_LeaderCommit req) (lastNewIndex r)) (n1\<lparr>store := st\<rparr>)"
    using ae_log_outcome [OF assms(1,2), of S] assms(3) by blast
  have ok: "\<forall>e \<in> set (ae_Entries req). lii n < le_Index e"
    "unat (ae_PrevLogIndex req) + length (ae_Entries req) < 2 ^ 64"
    using assms(2) p by (simp_all add: request_ok_def)
  note step = merge_step [OF assms(1) p t ok m c]
  have wf: "wf_log n" using assms(1) by (simp add: wf_node_def)
  note last = termAtLocked_le_last [OF wf t]
  have tt: "termAtLocked (snd (ae_log S req n)) = termAtLocked n1"
    unfolding eq by (rule termAtLocked_snapshot_log_cong) (simp_all add: ae_commit_state)
  then show "\<forall>e \<in> set (ae_Entries req).
      termAtLocked (snd (ae_log S req n)) (le_Index e) = Some (le_Term e)"
    using step(5) by simp
  have new: "unat (lastNewIndex r) = unat (ae_PrevLogIndex req) + length (ae_Entries req)"
    using mergeEntriesLocked_cases [OF wf ok p last m] c by (auto split: if_splits)
  show "unat (ae_LeaderCommit req) \<le> unat (ae_PrevLogIndex req) + length (ae_Entries req) \<Longrightarrow>
      ae_LeaderCommit req \<le> commitIndex (snd (ae_log S req n))"
    using ae_commit_state(3) [of S "min (ae_LeaderCommit req) (lastNewIndex r)" "n1\<lparr>store := st\<rparr>"]
      assms(3) eq new by (simp add: min_def u64_simps split: if_splits)
  show "termAtLocked (snd (ae_log S req n)) (ae_PrevLogIndex req) = Some (ae_PrevLogTerm req)"
    unfolding tt step(2) using t merged_prev [OF wf step(1) p last] by simp
qed

text \<open>The handler up to its log part: it rejects with the positions untouched, or runs the log
  part on a node with the same positions.\<close>

lemma HandleAppendEntries_outcome:
  "positions (snd (HandleAppendEntries S req n)) = positions n \<and>
     \<not> aer_Success (fst (HandleAppendEntries S req n)) \<or>
   (\<exists>n1. positions n1 = positions n \<and> currentTerm n1 = max (currentTerm n) (ae_Term req) \<and>
      role n1 = Follower \<and> HandleAppendEntries S req n = ae_log S req n1)"
proof (cases "stopped n \<or> storageFatal n \<noteq> None \<or>
    \<not> isKnownRemotePeerLocked n (ae_LeaderID req) \<or> ae_Term req < currentTerm n")
  case True
  then show ?thesis by (auto simp: HandleAppendEntries_def ae_reject_def)
next
  case go: False
  let ?f = "becomeFollowerLocked S (ae_Term req) (ae_LeaderID req) n"
  let ?reset = "\<lambda>n1. resetElectionLocked (n1\<lparr>leaderID := ae_LeaderID req\<rparr>)"
  show ?thesis
  proof (cases "ae_Term req > currentTerm n \<or> role n \<noteq> Follower")
    case False
    then have "HandleAppendEntries S req n = ae_log S req (?reset n)"
      using go by (simp add: HandleAppendEntries_def)
    moreover have "positions (?reset n) = positions n" by (simp add: positions_def)
    ultimately show ?thesis using False go by (intro disjI2 exI [of _ "?reset n"]) auto
  next
    case True
    show ?thesis
    proof (cases "fst ?f")
      case None
      then have "HandleAppendEntries S req n = ae_log S req (?reset (snd ?f))"
        using go True by (simp add: HandleAppendEntries_def case_prod_beta)
      moreover have "positions (?reset (snd ?f)) = positions n" by (simp add: positions_def)
      ultimately show ?thesis by (intro disjI2 exI [of _ "?reset (snd ?f)"]) simp
    next
      case (Some e)
      then show ?thesis
        using go True by (simp add: HandleAppendEntries_def case_prod_beta ae_reject_def)
    qed
  qed
qed


section \<open>Committing by counting replicas\<close>

text \<open>An index the leader may commit: a majority holds it and its entry is of the current
  term.\<close>

definition committable :: "('st, 'sm) node \<Rightarrow> u64 \<Rightarrow> bool" where
  "committable n i \<longleftrightarrow> commitIndex n < i \<and> termAtLocked n i = Some (currentTerm n) \<and>
     quorum n \<le> replica_count i n"

definition greatest_committable :: "('st, 'sm) node \<Rightarrow> u64 \<Rightarrow> u64 \<Rightarrow> bool" where
  "greatest_committable n i k \<longleftrightarrow> k \<le> i \<and> committable n k \<and>
     (\<forall>j. k < j \<and> j \<le> i \<longrightarrow> \<not> committable n j)"

lemma greatest_committable_pred:
  assumes "i \<noteq> 0" and "\<not> committable n i"
  shows "greatest_committable n i k \<longleftrightarrow> greatest_committable n (i - 1) k"
    and "(\<forall>j \<le> i. \<not> committable n j) \<longleftrightarrow> (\<forall>j \<le> i - 1. \<not> committable n j)"
  using assms(2) by (auto simp: greatest_committable_def le_pred_u64 [OF assms(1)])

lemma advance_loop_cases:
  "(advance_loop S i n = n \<and> (\<forall>j \<le> i. \<not> committable n j)) \<or>
   (\<exists>k. greatest_committable n i k \<and> advance_loop S i n = commit_to S k n)"
proof (induction S i n rule: advance_loop.induct)
  case (1 S i n)
  show ?case
  proof (cases "commitIndex n < i")
    case False
    then have "\<not> committable n j" if "j \<le> i" for j
      using that unfolding committable_def by (meson le_less_trans not_le)
    then show ?thesis using False by (simp add: advance_loop.simps [of S i n])
  next
    case gt: True
    then have i0: "i \<noteq> 0" by auto
    show ?thesis
    proof (cases "committable n i")
      case True
      then have "advance_loop S i n = commit_to S i n"
        using gt by (simp add: advance_loop.simps [of S i n] committable_def)
      moreover have "greatest_committable n i i"
        using True by (auto simp: greatest_committable_def)
      ultimately show ?thesis by blast
    next
      case False
      then have stay: "termAtLocked n i \<noteq> Some (currentTerm n) \<or> \<not> quorum n \<le> replica_count i n"
        using gt by (simp add: committable_def)
      then have eq: "advance_loop S i n = advance_loop S (i - 1) n"
        using gt by (subst advance_loop.simps) auto
      from stay gt "1.IH" show ?thesis
        unfolding eq greatest_committable_pred [OF i0 False] by blast
    qed
  qed
qed

lemma commit_to_cases:
  "(fst (persistHardStateLocked S (n\<lparr>commitIndex := i\<rparr>)) = None \<and>
      positions (commit_to S i n) = positions (n\<lparr>commitIndex := i\<rparr>) \<and>
      role (commit_to S i n) = role n \<and> storageFatal (commit_to S i n) = storageFatal n) \<or>
   (\<exists>e. fst (persistHardStateLocked S (n\<lparr>commitIndex := i\<rparr>)) = Some e \<and>
      positions (commit_to S i n) = positions n \<and>
      role (commit_to S i n) = Follower \<and> storageFatal (commit_to S i n) = Some e)"
  by (cases "fst (persistHardStateLocked S (n\<lparr>commitIndex := i\<rparr>))")
    (simp_all add: commit_to_def case_prod_beta positions_def)

lemma commit_to_frame [simp]:
  "currentTerm (commit_to S i n) = currentTerm n" "votedFor (commit_to S i n) = votedFor n"
  "peerAddrs (commit_to S i n) = peerAddrs n" "nid (commit_to S i n) = nid n"
  "matchIndex (commit_to S i n) = matchIndex n" "nextIndex (commit_to S i n) = nextIndex n"
  "stopped (commit_to S i n) = stopped n" "nextChan (commit_to S i n) = nextChan n"
  by (simp_all add: commit_to_def case_prod_beta split: option.splits)

lemma advanceCommitLocked_cases:
  "(advanceCommitLocked S n = n \<and> (\<forall>j \<le> lastIndexLocked n. \<not> committable n j)) \<or>
   (\<exists>k. greatest_committable n (lastIndexLocked n) k \<and>
      advanceCommitLocked S n = commit_to S k n)"
  unfolding advanceCommitLocked_def by (rule advance_loop_cases)

lemma advanceCommitLocked_frame [simp]:
  "currentTerm (advanceCommitLocked S n) = currentTerm n"
  "votedFor (advanceCommitLocked S n) = votedFor n"
  "peerAddrs (advanceCommitLocked S n) = peerAddrs n" "nid (advanceCommitLocked S n) = nid n"
  "matchIndex (advanceCommitLocked S n) = matchIndex n"
  "nextIndex (advanceCommitLocked S n) = nextIndex n"
  "stopped (advanceCommitLocked S n) = stopped n" "nextChan (advanceCommitLocked S n) = nextChan n"
  using advanceCommitLocked_cases [of S n] by auto

lemma advanceCommitLocked_keeps:
  assumes "wf_node n"
  shows "keeps_committed n (advanceCommitLocked S n)"
  using advanceCommitLocked_cases [of S n]
proof (elim disjE exE conjE)
  assume "advanceCommitLocked S n = n"
  then show ?thesis using keeps_committed_refl [OF assms] by simp
next
  fix k assume "greatest_committable n (lastIndexLocked n) k"
    and eq: "advanceCommitLocked S n = commit_to S k n"
  then have k: "k \<le> lastIndexLocked n" "committable n k"
    by (simp_all add: greatest_committable_def)
  note keep = keeps_committed_refl [OF assms]
  show ?thesis unfolding eq using commit_to_cases [of S k n]
  proof (elim disjE exE conjE)
    assume "positions (commit_to S k n) = positions (n\<lparr>commitIndex := k\<rparr>)"
    moreover have "commitIndex n \<le> k" using k(2) unfolding committable_def by (blast intro: less_imp_le)
    ultimately show "keeps_committed n (commit_to S k n)"
      by (intro keeps_committed_raise [OF keep _ k(1)])
  next
    assume "positions (commit_to S k n) = positions n"
    then show "keeps_committed n (commit_to S k n)" by (rule keeps_committed_positions [OF keep])
  qed
qed


lemma ae_commit_frame [simp]:
  "currentTerm (snd (ae_commit S c n)) = currentTerm n" "votedFor (snd (ae_commit S c n)) = votedFor n"
  "role (snd (ae_commit S c n)) = role n" "storageFatal (snd (ae_commit S c n)) = storageFatal n"
  "peerAddrs (snd (ae_commit S c n)) = peerAddrs n" "nid (snd (ae_commit S c n)) = nid n"
  by (simp_all add: ae_commit_def case_prod_beta Let_def split: option.splits)

text \<open>A merge edits nothing but the log.\<close>

lemma merge_loop_more: "\<exists>l. snd (merge_loop lastNew es r n) = n\<lparr>log := l\<rparr>"
proof (induction es arbitrary: r n)
  case Nil
  show ?case by (rule exI [of _ "log n"]) simp
next
  case (Cons e es)
  from Cons [of r n] Cons [of _ "n\<lparr>log := log n @ [e]\<rparr>"] show ?case
    by (auto simp: Let_def truncateFromLocked_def intro: exI [of _ "log n"])
qed

lemma mergeEntriesLocked_more: "\<exists>l. snd (mergeEntriesLocked p es n) = n\<lparr>log := l\<rparr>"
  using merge_loop_more [of "last_new_loop (lii n) p es" es _ n]
  by (auto simp: mergeEntriesLocked_def Let_def intro: exI [of _ "log n"])

lemma ae_log_frame [simp]:
  "currentTerm (snd (ae_log S req n)) = currentTerm n" "votedFor (snd (ae_log S req n)) = votedFor n"
  "peerAddrs (snd (ae_log S req n)) = peerAddrs n" "nid (snd (ae_log S req n)) = nid n"
  using mergeEntriesLocked_more [of "ae_PrevLogIndex req" "ae_Entries req" n]
  by (auto simp: ae_log_def case_prod_beta Let_def split: option.splits)

lemma HandleAppendEntries_term:
  "currentTerm n \<le> currentTerm (snd (HandleAppendEntries S req n))"
proof -
  let ?f = "becomeFollowerLocked S (ae_Term req) (ae_LeaderID req) n"
  have "currentTerm n \<le> currentTerm (snd ?f)" by simp
  then show ?thesis by (auto simp: HandleAppendEntries_def case_prod_beta split: option.splits)
qed

lemma HandleAppendEntries_keeps:
  assumes "wf_node n" and "request_ok req n"
  shows "keeps_committed n (snd (HandleAppendEntries S req n))"
  using HandleAppendEntries_outcome [of S req n]
proof (elim disjE exE conjE)
  assume "positions (snd (HandleAppendEntries S req n)) = positions n"
  then show ?thesis by (rule keeps_committed_positions [OF keeps_committed_refl [OF assms(1)]])
next
  fix n1
  assume pos: "positions n1 = positions n" and eq: "HandleAppendEntries S req n = ae_log S req n1"
  have "wf_node n1" using assms(1) positions_cong(1) [OF pos] by simp
  moreover have "request_ok req n1"
    using assms(2) pos by (simp add: request_ok_def positions_eq_iff)
  ultimately have "keeps_committed n1 (snd (ae_log S req n1))" by (rule ae_log_keeps)
  then show ?thesis unfolding eq by (rule keeps_committed_positions_left [OF _ pos])
qed

section \<open>Properties of replication\<close>





text \<open>
  C31.  What a leader sends is well formed: the request carries the leader's term, its previous
  entry is in the leader's log with the stated term, and its entries are the consecutive entries
  of the leader's log from there to the end.
\<close>

theorem replicate_prepare_request:
  assumes "wf_log n" and "unat (lastIndexLocked n) + 1 < 2 ^ 64"
    and "replicate_prepare peerID n = (Send_append req, n')"
  shows "role n = Leader \<and> ae_Term req = currentTerm n \<and> ae_LeaderID req = nid n \<and>
    ae_LeaderCommit req = commitIndex n \<and> lii n \<le> ae_PrevLogIndex req \<and>
    termAtLocked n (ae_PrevLogIndex req) = Some (ae_PrevLogTerm req) \<and>
    contiguous (ae_PrevLogIndex req) (ae_Entries req) \<and>
    ae_Entries req = drop (unat (ae_PrevLogIndex req) - unat (lii n)) (log n) \<and>
    unat (ae_PrevLogIndex req) + length (ae_Entries req) = unat (lastIndexLocked n)"
proof -
  define nxt where "nxt = (if get_u64 (nextIndex n) peerID = 0 then lastIndexLocked n + 1
    else get_u64 (nextIndex n) peerID)"
  have succ: "unat (lastIndexLocked n + 1) = Suc (unat (lastIndexLocked n))"
    using assms(2) by (intro unat_Suc_u64_max) simp
  have cong: "termAtLocked (n\<lparr>nextIndex := m\<rparr>) = termAtLocked n"
    "entriesFromLocked (n\<lparr>nextIndex := m\<rparr>) = entriesFromLocked n" for m
    by (simp_all add: termAtLocked_def entryAtLocked_def entriesFromLocked_def fun_eq_iff Let_def)
  have facts: "role n = Leader" "lii n < nxt" "termAtLocked n (nxt - 1) = Some (ae_PrevLogTerm req)"
    "ae_PrevLogIndex req = nxt - 1" "ae_Entries req = entriesFromLocked n nxt"
    "ae_Term req = currentTerm n" "ae_LeaderID req = nid n" "ae_LeaderCommit req = commitIndex n"
    using assms(3)
    by (auto simp: replicate_prepare_def Let_def nxt_def get_u64_def cong not_le
        split: if_splits option.splits)
  have nz: "nxt \<noteq> 0" using facts(2) by auto
  note wf = assms(1) [unfolded wf_log_def]
  have prev: "unat (nxt - 1) = unat nxt - 1" "unat (lii n) < unat nxt"
    using facts(2) nz by (simp_all add: unat_pred_u64 u64_simps)
  have last: "nxt - 1 \<le> lastIndexLocked n" by (rule termAtLocked_le_last [OF assms(1) facts(3)])
  let ?k = "unat (nxt - 1) - unat (lii n)"
  have ents: "ae_Entries req = drop ?k (log n)"
    unfolding facts(5) entriesFromLocked_eq [OF assms(1) facts(2)] using prev by simp
  have k: "?k \<le> length (log n)" "unat (nxt - 1) = unat (lii n) + ?k"
    using last prev by (simp_all add: le_u64_unat unat_lastIndexLocked [OF assms(1)])
  have "contiguous (nxt - 1) (drop ?k (log n))" by (rule contiguous_drop [OF wf k])
  moreover have "length (ae_Entries req) + ?k = length (log n)" using ents k(1) by simp
  ultimately show ?thesis
    using facts(1-4,6-8) ents prev k by (simp add: le_u64_unat unat_lastIndexLocked [OF assms(1)])
qed

section \<open>Witnesses for replication\<close>

definition ex_request :: AppendEntriesRequest where
  "ex_request = \<lparr>ae_Term = 3, ae_LeaderID = ''b'', ae_PrevLogIndex = 3, ae_PrevLogTerm = 1,
     ae_Entries = [ex_entry 4 3], ae_LeaderCommit = 4\<rparr>"

lemmas ex_node_defs = ex_node_def ex_log_def ex_entry_def ex_store_def ex_request_def

lemma ex_request_ok: "request_ok ex_request ex_node"
  by (simp add: ex_node_defs request_ok_def)

lemma ex_request_run:
  "aer_Success (fst (HandleAppendEntries ex_store ex_request ex_node))"
  "commitIndex (snd (HandleAppendEntries ex_store ex_request ex_node)) = 4"
  by (simp_all add: HandleAppendEntries_def isKnownRemotePeerLocked_def becomeFollowerLocked_def
      becomeFollowerWithTimerLocked_def follower_fields_def persistHardStateLocked_def
      saveHardStateLocked_def ae_log_def ae_success_def ae_reject_def ae_commit_def
      mergeEntriesLocked_def validateEntriesLocked_def termAtLocked_def entryAtLocked_def
      lastIndexLocked_def lastIndex_def truncateFromLocked_def zero_merge_def persist_merge_def
      resetElectionLocked_def notifyApplyLocked_def Let_def ex_node_defs)



definition ex_leader :: "(unit, KVStateMachine) node" where
  "ex_leader = ex_node\<lparr>role := Leader, matchIndex := [''a'' \<mapsto> 5, ''b'' \<mapsto> 5],
     nextIndex := [''b'' \<mapsto> 4]\<rparr>"

lemma ex_leader_committable: "greatest_committable ex_leader (lastIndexLocked ex_leader) 5"
proof -
  have "lastIndexLocked ex_leader = 5"
    by (simp add: ex_leader_def ex_node_defs lastIndexLocked_def lastIndex_def)
  moreover have "committable ex_leader 5"
    by (simp add: committable_def replica_count_def quorum_def termAtLocked_def entryAtLocked_def
        get_u64_def Let_def ex_leader_def ex_node_defs)
  ultimately show ?thesis by (auto simp: greatest_committable_def)
qed

lemma ex_leader_fatal: "storageFatal (advanceCommitLocked ex_store ex_leader) = None"
proof -
  have "storageFatal ex_leader = None" by (simp add: ex_leader_def ex_node_def)
  moreover have "fst (persistHardStateLocked ex_store m) = None" for m :: "(unit, KVStateMachine) node"
    by (simp add: persistHardStateLocked_def saveHardStateLocked_def ex_store_def)
  ultimately show ?thesis
    using advanceCommitLocked_cases [of ex_store ex_leader] commit_to_cases [of ex_store _ ex_leader]
    by (metis option.distinct(1))
qed


lemma replicate_prepare_request_witness:
  "\<exists>req n'. replicate_prepare ''b'' ex_leader = (Send_append req, n') \<and> ae_PrevLogIndex req = 3 \<and>
     contiguous 3 (ae_Entries req) \<and> length (ae_Entries req) = 2"
proof -
  have "\<exists>req n'. replicate_prepare ''b'' ex_leader = (Send_append req, n') \<and> ae_PrevLogIndex req = 3"
    by (simp add: replicate_prepare_def get_u64_def termAtLocked_def entryAtLocked_def Let_def
        ex_leader_def ex_node_defs)
  then obtain req n' where run: "replicate_prepare ''b'' ex_leader = (Send_append req, n')"
    and p: "ae_PrevLogIndex req = 3" by blast
  have "wf_log ex_leader" and "lastIndexLocked ex_leader = 5"
    by (simp_all add: ex_leader_def ex_node_defs wf_log_def lastIndexLocked_def lastIndex_def)
  then show ?thesis using replicate_prepare_request [OF _ _ run] run p by auto
qed


end
