(* ===== verification/Raft_Election.thy ===== *)
theory Raft_Election
  imports Raft_Replication
begin

text \<open>
  Elections (\<open>internal/raft/node.go\<close>): answering a vote request, standing for election and
  becoming leader.

  \<open>startElection\<close> releases the mutex while it waits for the peers' answers.  It is cut there:
  \<open>startElection_begin\<close> makes the node a candidate and yields the request it sends to every
  peer, \<open>vote_loop\<close> counts the answers in the order they arrive, and \<open>startElection_end\<close> acts on
  the outcome.  \<open>startElection\<close> composes the three for an election that nothing interleaves with.
\<close>

section \<open>Answering a vote request\<close>

definition rv_refuse :: "('st, 'sm) node \<Rightarrow> RequestVoteResponse" where
  "rv_refuse n = \<lparr>rvr_Term = currentTerm n, rvr_VoteGranted = False\<rparr>"

definition up_to_date :: "RequestVoteRequest \<Rightarrow> ('st, 'sm) node \<Rightarrow> bool" where
  "up_to_date req n \<longleftrightarrow> rv_LastLogTerm req > lastTermLocked n \<or>
     (rv_LastLogTerm req = lastTermLocked n \<and> rv_LastLogIndex req \<ge> lastIndexLocked n)"

definition cast_vote :: "'st Store \<Rightarrow> RequestVoteRequest \<Rightarrow> ('st, 'sm) node \<Rightarrow>
    RequestVoteResponse \<times> ('st, 'sm) node" where
  "cast_vote S req n =
     (let canVote = (votedFor n = '''' \<or> votedFor n = rv_CandidateID req)
      in if canVote \<and> up_to_date req n then
           (case persistHardStateLocked S (n\<lparr>votedFor := rv_CandidateID req\<rparr>) of
              (Some e, n1) \<Rightarrow> (let n2 = n1\<lparr>votedFor := votedFor n\<rparr> in (rv_refuse n2, n2))
            | (None, n1) \<Rightarrow>
                (let n2 = resetElectionLocked n1 in ((rv_refuse n2)\<lparr>rvr_VoteGranted := True\<rparr>, n2)))
         else (rv_refuse n, n))"

definition HandleRequestVote :: "'st Store \<Rightarrow> RequestVoteRequest \<Rightarrow> ('st, 'sm) node \<Rightarrow>
    RequestVoteResponse \<times> ('st, 'sm) node" where
  "HandleRequestVote S req n =
     (if stopped n \<or> storageFatal n \<noteq> None then (rv_refuse n, n)
      else if \<not> isKnownRemotePeerLocked n (rv_CandidateID req) then (rv_refuse n, n)
      else if rv_Term req < currentTerm n then (rv_refuse n, n)
      else
        (case (if rv_Term req > currentTerm n then becomeFollowerForVoteLocked S (rv_Term req) n
               else (None, n)) of
           (Some e, n1) \<Rightarrow> (rv_refuse n1, n1)
         | (None, n1) \<Rightarrow> cast_vote S req n1))"

section \<open>Becoming leader\<close>

definition leader_fields :: "('st, 'sm) node \<Rightarrow> ('st, 'sm) node" where
  "leader_fields n =
     (let last = lastIndexLocked n;
          peers = set (map fst (peerAddrs n))
      in n\<lparr>role := Leader, leaderID := nid n,
           nextIndex := (\<lambda>p. if p \<in> peers \<or> p = nid n then Some (last + 1) else None),
           matchIndex := (\<lambda>p. if p \<in> peers then Some 0 else if p = nid n then Some last else None),
           replicating := Map.empty\<rparr>)"

definition noop_entry :: "u64 \<Rightarrow> ('st, 'sm) node \<Rightarrow> LogEntry" where
  "noop_entry term n =
     \<lparr>le_Index = lastIndexLocked n + 1, le_Term = term, le_Command = noop_command\<rparr>"

definition append_noop :: "LogEntry \<Rightarrow> ('st, 'sm) node \<Rightarrow> ('st, 'sm) node" where
  "append_noop noop n =
     n\<lparr>log := log n @ [noop], leaderNoopIndex := le_Index noop,
       matchIndex := (matchIndex n)(nid n \<mapsto> le_Index noop),
       nextIndex := (nextIndex n)(nid n \<mapsto> le_Index noop + 1)\<rparr>"

text \<open>The result says whether the node became leader and goes on to \<open>replicateAllOnce\<close>.\<close>

definition becomeLeader :: "'st Store \<Rightarrow> u64 \<Rightarrow> ('st, 'sm) node \<Rightarrow> bool \<times> ('st, 'sm) node" where
  "becomeLeader S term n =
     (if stopped n \<or> role n \<noteq> Candidate \<or> currentTerm n \<noteq> term then (False, n)
      else
        (let n1 = leader_fields n;
             noop = noop_entry term n1
         in case Store_AppendEntries S [noop] (store n1) of
              (Some e, st) \<Rightarrow> (False, failStorageLocked (Some e) (n1\<lparr>store := st\<rparr>))
            | (None, st) \<Rightarrow> (True, advanceCommitLocked S (append_noop noop (n1\<lparr>store := st\<rparr>)))))"

section \<open>Standing for election\<close>

definition electionLoop_start :: "('st, 'sm) node \<Rightarrow> bool \<times> ('st, 'sm) node" where
  "electionLoop_start n =
     (if role n \<noteq> Leader then (shd (clock n) > electionDue n, n\<lparr>clock := stl (clock n)\<rparr>)
      else (False, n))"

definition startElection_begin :: "'st Store \<Rightarrow> ('st, 'sm) node \<Rightarrow>
    RequestVoteRequest option \<times> ('st, 'sm) node" where
  "startElection_begin S n =
     (if stopped n \<or> role n = Leader \<or> storageFatal n \<noteq> None then (None, n)
      else
        (let n1 = resetElectionLocked
               (n\<lparr>role := Candidate, currentTerm := currentTerm n + 1, votedFor := nid n,
                  leaderID := '''', leaderNoopIndex := 0\<rparr>)
         in case persistHardStateLocked S n1 of
              (Some e, n2) \<Rightarrow>
                (None, n2\<lparr>role := role n, currentTerm := currentTerm n, votedFor := votedFor n,
                          leaderID := leaderID n, electionDue := electionDue n\<rparr>)
            | (None, n2) \<Rightarrow>
                (Some \<lparr>rv_Term = currentTerm n2, rv_CandidateID = nid n2,
                       rv_LastLogIndex = lastIndexLocked n2, rv_LastLogTerm = lastTermLocked n2\<rparr>, n2)))"

datatype vote_outcome = Won | Outdated u64 | Lost

text \<open>One answer per peer at most, \<open>None\<close> for a transport error; the list ends early when the
  context is done.\<close>

fun vote_loop :: "nat \<Rightarrow> u64 \<Rightarrow> nat \<Rightarrow> RequestVoteResponse option list \<Rightarrow> vote_outcome" where
  "vote_loop q term votes [] = Lost"
| "vote_loop q term votes (None # results) = vote_loop q term votes results"
| "vote_loop q term votes (Some resp # results) =
     (if rvr_Term resp > term then Outdated (rvr_Term resp)
      else if rvr_VoteGranted resp then
        (if votes + 1 \<ge> q then Won else vote_loop q term (votes + 1) results)
      else vote_loop q term votes results)"

definition count_votes :: "'a node_config_scheme \<Rightarrow> u64 \<Rightarrow> RequestVoteResponse option list \<Rightarrow> vote_outcome" where
  "count_votes n term results =
     (if quorum n = 1 then Won else vote_loop (quorum n) term 1 results)"

definition startElection_end :: "'st Store \<Rightarrow> u64 \<Rightarrow> vote_outcome \<Rightarrow> ('st, 'sm) node \<Rightarrow>
    bool \<times> ('st, 'sm) node" where
  "startElection_end S term outcome n =
     (case outcome of
        Won \<Rightarrow> becomeLeader S term n
      | Outdated t \<Rightarrow> (False, stepDown S t '''' n)
      | Lost \<Rightarrow> (False, n))"

definition startElection :: "'st Store \<Rightarrow> (RequestVoteRequest \<Rightarrow> RequestVoteResponse option list) \<Rightarrow>
    ('st, 'sm) node \<Rightarrow> bool \<times> ('st, 'sm) node" where
  "startElection S answers n =
     (case startElection_begin S n of
        (None, n1) \<Rightarrow> (False, n1)
      | (Some req, n1) \<Rightarrow>
          startElection_end S (rv_Term req) (count_votes n1 (rv_Term req) (answers req)) n1)"

section \<open>Votes\<close>

lemma lastIndexLocked_update [simp]:
  "lastIndexLocked (n\<lparr>votedFor := v\<rparr>) = lastIndexLocked n" "lastTermLocked (n\<lparr>votedFor := v\<rparr>) = lastTermLocked n"
  by (simp_all add: lastIndexLocked_def lastTermLocked_def)

lemma up_to_date_positions: "positions n' = positions n \<Longrightarrow> up_to_date req n' = up_to_date req n"
  using positions_cong [of n' n] by (simp add: up_to_date_def)

lemma cast_vote_frame [simp]:
  "positions (snd (cast_vote S req n)) = positions n" "currentTerm (snd (cast_vote S req n)) = currentTerm n"
  "role (snd (cast_vote S req n)) = role n" "nid (snd (cast_vote S req n)) = nid n"
  "peerAddrs (snd (cast_vote S req n)) = peerAddrs n" "stopped (snd (cast_vote S req n)) = stopped n"
  "rvr_Term (fst (cast_vote S req n)) = currentTerm n"
  by (simp_all add: cast_vote_def case_prod_beta Let_def positions_def rv_refuse_def split: option.splits)

lemma cast_vote_granted:
  "rvr_VoteGranted (fst (cast_vote S req n)) \<longleftrightarrow>
     (votedFor n = '''' \<or> votedFor n = rv_CandidateID req) \<and> up_to_date req n \<and>
     fst (persistHardStateLocked S (n\<lparr>votedFor := rv_CandidateID req\<rparr>)) = None"
  "votedFor (snd (cast_vote S req n)) =
     (if rvr_VoteGranted (fst (cast_vote S req n)) then rv_CandidateID req else votedFor n)"
  by (auto simp: cast_vote_def case_prod_beta Let_def rv_refuse_def split: option.splits)

definition hard_state :: "('st, 'sm) node \<Rightarrow> HardState" where
  "hard_state n =
     \<lparr>hs_CurrentTerm = currentTerm n, hs_VotedFor = votedFor n, hs_CommitIndex = commitIndex n\<rparr>"

lemma persist_store:
  "fst (persistHardStateLocked S n) = fst (Store_SaveHardState S (hard_state n) (store n))"
  "store (snd (persistHardStateLocked S n)) = snd (Store_SaveHardState S (hard_state n) (store n))"
  by (simp_all add: persistHardStateLocked_def saveHardStateLocked_def hard_state_def case_prod_beta
      split: option.splits)

lemma cast_vote_stored:
  assumes "rvr_VoteGranted (fst (cast_vote S req n))"
  shows "\<exists>st. Store_SaveHardState S \<lparr>hs_CurrentTerm = currentTerm n, hs_VotedFor = rv_CandidateID req,
    hs_CommitIndex = commitIndex n\<rparr> st = (None, store (snd (cast_vote S req n)))"
  using assms persist_store [of S "n\<lparr>votedFor := rv_CandidateID req\<rparr>"]
  by (intro exI [of _ "store n"])
    (auto simp: cast_vote_def case_prod_beta Let_def rv_refuse_def hard_state_def prod_eq_iff split: if_splits option.splits)

lemma HandleRequestVote_frame [simp]:
  "positions (snd (HandleRequestVote S req n)) = positions n"
  "nid (snd (HandleRequestVote S req n)) = nid n" "peerAddrs (snd (HandleRequestVote S req n)) = peerAddrs n"
  by (simp_all add: HandleRequestVote_def case_prod_beta split: option.splits)

lemma HandleRequestVote_cases:
  obtains (refused) "HandleRequestVote S req n = (rv_refuse n, n)"
      "stopped n \<or> storageFatal n \<noteq> None \<or> \<not> isKnownRemotePeerLocked n (rv_CandidateID req) \<or>
       rv_Term req < currentTerm n"
    | (failed) e where "isKnownRemotePeerLocked n (rv_CandidateID req)" "currentTerm n < rv_Term req"
        "fst (becomeFollowerForVoteLocked S (rv_Term req) n) = Some e"
        "HandleRequestVote S req n = (rv_refuse (snd (becomeFollowerForVoteLocked S (rv_Term req) n)),
           snd (becomeFollowerForVoteLocked S (rv_Term req) n))"
    | (newer) "isKnownRemotePeerLocked n (rv_CandidateID req)" "currentTerm n < rv_Term req"
        "fst (becomeFollowerForVoteLocked S (rv_Term req) n) = None"
        "HandleRequestVote S req n = cast_vote S req (snd (becomeFollowerForVoteLocked S (rv_Term req) n))"
    | (same) "isKnownRemotePeerLocked n (rv_CandidateID req)" "currentTerm n = rv_Term req"
        "HandleRequestVote S req n = cast_vote S req n"
proof (cases "stopped n \<or> storageFatal n \<noteq> None \<or> \<not> isKnownRemotePeerLocked n (rv_CandidateID req) \<or>
    rv_Term req < currentTerm n")
  case True
  then show thesis by (intro refused) (auto simp: HandleRequestVote_def)
next
  case go: False
  show thesis
  proof (cases "currentTerm n < rv_Term req")
    case False
    then have "currentTerm n = rv_Term req" using go by auto
    then show thesis using go by (intro same) (auto simp: HandleRequestVote_def)
  next
    case True
    show thesis
    proof (cases "fst (becomeFollowerForVoteLocked S (rv_Term req) n)")
      case None
      then show thesis using go True by (intro newer) (auto simp: HandleRequestVote_def case_prod_beta)
    next
      case (Some e)
      then show thesis using go True
        by (intro failed [of e]) (auto simp: HandleRequestVote_def case_prod_beta)
    qed
  qed
qed

section \<open>Counting answers\<close>

definition granted_count :: "RequestVoteResponse option list \<Rightarrow> nat" where
  "granted_count results = length (filter (\<lambda>r. \<exists>resp. r = Some resp \<and> rvr_VoteGranted resp) results)"

lemma granted_count_simps [simp]:
  "granted_count [] = 0" "granted_count (None # rs) = granted_count rs"
  "granted_count (Some r # rs) = (if rvr_VoteGranted r then Suc (granted_count rs) else granted_count rs)"
  by (simp_all add: granted_count_def)

lemma vote_loop_Won:
  "vote_loop q term votes results = Won \<Longrightarrow> q \<le> votes + granted_count results"
  by (induction q "term" votes results rule: vote_loop.induct) (auto split: if_splits)

lemma vote_loop_no_outdated:
  assumes "\<And>r. Some r \<in> set results \<Longrightarrow> rvr_Term r \<le> term" and "votes < q"
  shows "vote_loop q term votes results = (if q \<le> votes + granted_count results then Won else Lost)"
  using assms
proof (induction q "term" votes results rule: vote_loop.induct)
  case (3 q "term" votes resp results)
  have "rvr_Term resp \<le> term" using "3.prems"(1) by simp
  then have n: "\<not> term < rvr_Term resp" by simp
  show ?case
  proof (cases "rvr_VoteGranted resp")
    case True
    then show ?thesis using n "3.IH"(1) "3.prems" by auto
  next
    case False
    then show ?thesis using n "3.IH"(2) "3.prems" by auto
  qed
qed auto

lemma vote_loop_Outdated:
  "vote_loop q term votes results = Outdated t \<Longrightarrow> term < t \<and> (\<exists>r. Some r \<in> set results \<and> rvr_Term r = t)"
  by (induction q "term" votes results rule: vote_loop.induct) (auto split: if_splits)

section \<open>Becoming leader\<close>

lemma leader_fields_frame [simp]:
  "positions (leader_fields n) = positions n" "snapshot (leader_fields n) = snapshot n"
  "log (leader_fields n) = log n" "commitIndex (leader_fields n) = commitIndex n"
  "lastApplied (leader_fields n) = lastApplied n" "store (leader_fields n) = store n"
  "currentTerm (leader_fields n) = currentTerm n" "votedFor (leader_fields n) = votedFor n"
  "nid (leader_fields n) = nid n" "peerAddrs (leader_fields n) = peerAddrs n"
  "storageFatal (leader_fields n) = storageFatal n" "stopped (leader_fields n) = stopped n"
  "waiters (leader_fields n) = waiters n" "sent (leader_fields n) = sent n" "nextChan (leader_fields n) = nextChan n"
  "role (leader_fields n) = Leader" "leaderID (leader_fields n) = nid n"
  "lastIndexLocked (leader_fields n) = lastIndexLocked n" "noop_entry t (leader_fields n) = noop_entry t n"
  by (simp_all add: leader_fields_def Let_def positions_def lastIndexLocked_def noop_entry_def)

lemma append_noop_frame [simp]:
  "snapshot (append_noop e n) = snapshot n" "commitIndex (append_noop e n) = commitIndex n"
  "lastApplied (append_noop e n) = lastApplied n" "log (append_noop e n) = log n @ [e]"
  "store (append_noop e n) = store n" "currentTerm (append_noop e n) = currentTerm n"
  "votedFor (append_noop e n) = votedFor n" "nid (append_noop e n) = nid n"
  "peerAddrs (append_noop e n) = peerAddrs n" "storageFatal (append_noop e n) = storageFatal n"
  "stopped (append_noop e n) = stopped n" "role (append_noop e n) = role n"
  "leaderNoopIndex (append_noop e n) = le_Index e"
  "waiters (append_noop e n) = waiters n" "sent (append_noop e n) = sent n" "nextChan (append_noop e n) = nextChan n"
  by (simp_all add: append_noop_def)

lemma becomeLeader_cases:
  obtains (no) "becomeLeader S term n = (False, n)" "stopped n \<or> role n \<noteq> Candidate \<or> currentTerm n \<noteq> term"
    | (failed) e st where "role n = Candidate" "currentTerm n = term" "\<not> stopped n"
        "Store_AppendEntries S [noop_entry term n] (store n) = (Some e, st)"
        "becomeLeader S term n = (False, failStorageLocked (Some e) ((leader_fields n)\<lparr>store := st\<rparr>))"
    | (won) st where "role n = Candidate" "currentTerm n = term" "\<not> stopped n"
        "Store_AppendEntries S [noop_entry term n] (store n) = (None, st)"
        "becomeLeader S term n =
           (True, advanceCommitLocked S (append_noop (noop_entry term n) ((leader_fields n)\<lparr>store := st\<rparr>)))"
proof (cases "stopped n \<or> role n \<noteq> Candidate \<or> currentTerm n \<noteq> term")
  case True
  then show thesis by (intro no) (auto simp: becomeLeader_def)
next
  case go: False
  obtain r st where a: "Store_AppendEntries S [noop_entry term n] (store n) = (r, st)" by fastforce
  show thesis
  proof (cases r)
    case None
    then show thesis using go a by (intro won) (auto simp: becomeLeader_def Let_def)
  next
    case (Some e)
    then show thesis using go a by (intro failed) (auto simp: becomeLeader_def Let_def)
  qed
qed

lemma commit_to_more:
  "log (commit_to S k n) = log n" "snapshot (commit_to S k n) = snapshot n"
  "lastApplied (commit_to S k n) = lastApplied n"
  "role (commit_to S k n) = role n \<and> storageFatal (commit_to S k n) = storageFatal n \<or>
   role (commit_to S k n) = Follower \<and> storageFatal (commit_to S k n) \<noteq> None"
  by (simp_all add: commit_to_def case_prod_beta split: option.splits)

lemma advanceCommitLocked_more:
  "log (advanceCommitLocked S n) = log n" "snapshot (advanceCommitLocked S n) = snapshot n"
  "lastApplied (advanceCommitLocked S n) = lastApplied n"
  "role (advanceCommitLocked S n) = role n \<and> storageFatal (advanceCommitLocked S n) = storageFatal n \<or>
   role (advanceCommitLocked S n) = Follower \<and> storageFatal (advanceCommitLocked S n) \<noteq> None"
  using advanceCommitLocked_cases [of S n] commit_to_more [of S _ n] by (metis (no_types))+

lemma keeps_committed_trans:
  assumes "keeps_committed a b" and "keeps_committed b c"
  shows "keeps_committed a c"
proof -
  have "i \<le> commitIndex b" if "i \<le> commitIndex a" for i
    using assms(1) that order_trans by (auto simp: keeps_committed_def)
  then show ?thesis using assms order_trans [of "commitIndex a" "commitIndex b" "commitIndex c"]
    by (simp add: keeps_committed_def)
qed

lemma append_keeps:
  assumes "wf_node n" and "unat (lastIndexLocked n) + 1 < 2 ^ 64"
    and "log n1 = log n @ [e]" and "le_Index e = lastIndexLocked n + 1"
    and "snapshot n1 = snapshot n" and "commitIndex n1 = commitIndex n" and "lastApplied n1 = lastApplied n"
  shows "keeps_committed n n1 \<and> lastIndexLocked n1 = lastIndexLocked n + 1 \<and>
    termAtLocked n1 (lastIndexLocked n + 1) = Some (le_Term e)"
proof -
  have wf: "wf_log n" using assms(1) by (simp add: wf_node_def)
  let ?m = "n\<lparr>log := log n @ [e]\<rparr>"
  have succ: "unat (lastIndexLocked n + 1) = Suc (unat (lastIndexLocked n))"
    using assms(2) by (intro unat_Suc_u64_max) simp
  have pos: "positions n1 = positions ?m" using assms(3,5-7) by (simp add: positions_def)
  have wf': "wf_log ?m"
    using wf succ assms(4) unat_lastIndexLocked [OF wf]
    by (auto simp: wf_log_def contiguous_append lastIndexLocked_def lastIndex_def)
  have last: "lastIndexLocked ?m = lastIndexLocked n + 1"
    using assms(4) by (simp add: lastIndexLocked_def lastIndex_def)
  have gt: "lastIndexLocked n < lastIndexLocked n + 1" using succ by (simp add: less_u64_unat)
  have entry: "entryAtLocked ?m i = entryAtLocked n i" if "i \<le> lastIndexLocked n" for i
  proof -
    have "i \<le> lastIndexLocked n + 1" using that gt by simp
    then show ?thesis
      using that unat_lastIndexLocked [OF wf]
      by (auto simp: entryAtLocked_eq [OF wf] entryAtLocked_eq [OF wf'] last nth_append u64_simps)
  qed
  have "keeps_committed n ?m"
    using assms(1) wf' last gt entry
    by (auto simp: keeps_committed_def wf_node_def intro: order_trans less_imp_le)
  moreover have "termAtLocked ?m (lastIndexLocked n + 1) = Some (le_Term e)"
    using termAtLocked_log [OF wf', of "length (log n)" "lastIndexLocked n + 1"] succ
      unat_lastIndexLocked [OF wf] by simp
  ultimately show ?thesis
    using keeps_committed_positions [OF _ pos] positions_cong [OF pos] last by simp
qed

section \<open>Properties of elections\<close>

text \<open>Raft's conditions for a vote: a known candidate, a term that is not old, no vote for another
  candidate in it, and a log whose last entry has a greater term, or the same term and no smaller index.\<close>

definition may_vote :: "RequestVoteRequest \<Rightarrow> ('st, 'sm) node \<Rightarrow> bool" where
  "may_vote req n \<longleftrightarrow> isKnownRemotePeerLocked n (rv_CandidateID req) \<and> currentTerm n \<le> rv_Term req \<and>
     (currentTerm n = rv_Term req \<longrightarrow> votedFor n \<in> {'''', rv_CandidateID req}) \<and>
     (lastTermLocked n < rv_LastLogTerm req \<or>
      lastTermLocked n = rv_LastLogTerm req \<and> lastIndexLocked n \<le> rv_LastLogIndex req)"

text \<open>C12. A vote is granted exactly under Raft's conditions.  The candidate is a known peer, its
  term is not old, its log is at least as up to date, and this node has not voted for another
  candidate in that term; and the vote has been stored.  The answer carries the node's term, and
  neither the log nor a commit position changes.\<close>

theorem HandleRequestVote_spec:
  assumes "HandleRequestVote S req n = (resp, n')"
  shows "rvr_Term resp = currentTerm n' \<and> positions n' = positions n \<and> currentTerm n \<le> currentTerm n' \<and>
    (rvr_VoteGranted resp \<longrightarrow> may_vote req n \<and> currentTerm n' = rv_Term req \<and> votedFor n' = rv_CandidateID req \<and>
       (\<exists>st. Store_SaveHardState S \<lparr>hs_CurrentTerm = rv_Term req, hs_VotedFor = rv_CandidateID req,
          hs_CommitIndex = commitIndex n\<rparr> st = (None, store n'))) \<and>
    (\<not> rvr_VoteGranted resp \<longrightarrow>
       votedFor n' = (if currentTerm n < currentTerm n' then '''' else votedFor n)) \<and>
    (\<not> stopped n \<and> storageFatal n = None \<and> may_vote req n \<and>
       (\<forall>h st. fst (Store_SaveHardState S h st) = None) \<longrightarrow> rvr_VoteGranted resp)"
proof -
  have ok: "fst (persistHardStateLocked S m) = None" if "\<forall>h st. fst (Store_SaveHardState S h st) = None"
    for m :: "('a, 'b) node"
    using that by (simp add: persistHardStateLocked_def saveHardStateLocked_def case_prod_beta)
  have okf: "fst (becomeFollowerForVoteLocked S t m) = None" if "\<forall>h st. fst (Store_SaveHardState S h st) = None"
    for t and m :: "('a, 'b) node"
    using ok [OF that]
    by (simp add: becomeFollowerForVoteLocked_def becomeFollowerWithTimerLocked_def Let_def case_prod_beta)
  show ?thesis
  proof (cases rule: HandleRequestVote_cases [of S req n])
    case refused
    then show ?thesis using assms by (auto simp: rv_refuse_def may_vote_def)
  next
    case (failed e)
    then show ?thesis using assms okf by (auto simp: rv_refuse_def max_def)
  next
    case newer
    let ?m = "snd (becomeFollowerForVoteLocked S (rv_Term req) n)"
    have "positions ?m = positions n" by simp
    note utd = up_to_date_positions [OF this, of req]
    have "cast_vote S req ?m = (resp, n')" using newer(4) assms by simp
    then have r: "resp = fst (cast_vote S req ?m)" "n' = snd (cast_vote S req ?m)" by simp_all
    have m: "currentTerm ?m = rv_Term req" "votedFor ?m = ''''" using newer(2) by (auto simp: max_def)
    have lt: "currentTerm n \<le> rv_Term req" "currentTerm n \<noteq> rv_Term req" using newer(2) by auto
    show ?thesis unfolding r using newer(1,2) lt cast_vote_granted [of S req ?m] cast_vote_stored [of S req ?m] ok m utd
      by (auto simp: may_vote_def up_to_date_def)
  next
    case same
    have "cast_vote S req n = (resp, n')" using same(3) assms by simp
    then have r: "resp = fst (cast_vote S req n)" "n' = snd (cast_vote S req n)" by simp_all
    show ?thesis unfolding r using same(1,2) cast_vote_granted [of S req n] cast_vote_stored [of S req n] ok
      by (auto simp: may_vote_def up_to_date_def)
  qed
qed

text \<open>C13. Standing for election either takes the node to a new term in which it has stored a vote
  for itself, or, when the vote cannot be stored, leaves its role, term, vote, leader, election time
  and log as they were.\<close>

theorem startElection_begin_spec:
  assumes "startElection_begin S n = (r, n')"
  shows "positions n' = positions n \<and>
    (case r of
       None \<Rightarrow> role n' = role n \<and> currentTerm n' = currentTerm n \<and> votedFor n' = votedFor n \<and>
         leaderID n' = leaderID n \<and> electionDue n' = electionDue n \<and> storageFatal n' = storageFatal n
     | Some req \<Rightarrow> role n' = Candidate \<and> currentTerm n' = currentTerm n + 1 \<and> votedFor n' = nid n \<and>
         rv_Term req = currentTerm n' \<and> rv_CandidateID req = nid n \<and>
         rv_LastLogIndex req = lastIndexLocked n \<and> rv_LastLogTerm req = lastTermLocked n \<and>
         (\<exists>st. Store_SaveHardState S \<lparr>hs_CurrentTerm = currentTerm n', hs_VotedFor = nid n,
            hs_CommitIndex = commitIndex n\<rparr> st = (None, store n')))"
proof (cases "stopped n \<or> role n = Leader \<or> storageFatal n \<noteq> None")
  case True
  then show ?thesis using assms by (auto simp: startElection_begin_def)
next
  case False
  define m where "m = resetElectionLocked (n\<lparr>role := Candidate, currentTerm := currentTerm n + 1,
    votedFor := nid n, leaderID := '''', leaderNoopIndex := 0\<rparr>)"
  obtain p n2 where run: "persistHardStateLocked S m = (p, n2)" by fastforce
  have m: "role m = Candidate" "currentTerm m = currentTerm n + 1" "votedFor m = nid n" "nid m = nid n"
    "positions m = positions n" "storageFatal m = storageFatal n" "store m = store n"
    "commitIndex m = commitIndex n" by (simp_all add: m_def positions_def)
  have n2: "role n2 = Candidate" "currentTerm n2 = currentTerm n + 1" "votedFor n2 = nid n" "nid n2 = nid n"
    "positions n2 = positions n" "storageFatal n2 = storageFatal n"
    using persistHardStateLocked_frame [of S m] positions_frame(5) [of S m] m run by simp_all
  show ?thesis
  proof (cases p)
    case None
    then have r: "r = Some \<lparr>rv_Term = currentTerm n2, rv_CandidateID = nid n2,
        rv_LastLogIndex = lastIndexLocked n2, rv_LastLogTerm = lastTermLocked n2\<rparr>" and n': "n' = n2"
      using assms False run by (auto simp: startElection_begin_def Let_def m_def)
    have "Store_SaveHardState S \<lparr>hs_CurrentTerm = currentTerm n + 1, hs_VotedFor = nid n,
        hs_CommitIndex = commitIndex n\<rparr> (store n) = (None, store n2)"
      using None persist_store [of S m] run m by (simp add: hard_state_def prod_eq_iff)
    then show ?thesis using n2 positions_cong [OF n2(5)] by (auto simp: r n')
  next
    case (Some e)
    then have "r = None" and n': "n' = n2\<lparr>role := role n, currentTerm := currentTerm n,
        votedFor := votedFor n, leaderID := leaderID n, electionDue := electionDue n\<rparr>"
      using assms False run by (simp_all add: startElection_begin_def Let_def m_def)
    moreover have "positions n' = positions n" using n2(5) by (simp add: n' positions_def)
    ultimately show ?thesis using n2(6) by simp
  qed
qed



section \<open>Witnesses for elections\<close>

definition ex_vote_request :: RequestVoteRequest where
  "ex_vote_request = \<lparr>rv_Term = 3, rv_CandidateID = ''b'', rv_LastLogIndex = 5, rv_LastLogTerm = 2\<rparr>"

lemma ex_node_log: "lastIndexLocked ex_node = 5" "lastTermLocked ex_node = 2"
  by (simp_all add: ex_node_defs lastIndexLocked_def lastIndex_def lastTermLocked_def)

lemma ex_vote_conditions:
  "\<not> stopped ex_node" "storageFatal ex_node = None" "currentTerm ex_node = 2" "role ex_node = Follower"
  "isKnownRemotePeerLocked ex_node ''b''" "may_vote ex_vote_request ex_node"
  "\<forall>h st. fst (Store_SaveHardState ex_store h st) = None"
  using ex_node_log
  by (simp_all add: ex_node_defs ex_vote_request_def isKnownRemotePeerLocked_def may_vote_def)

theorem HandleRequestVote_spec_witness:
  "\<exists>resp n'. HandleRequestVote ex_store ex_vote_request ex_node = (resp, n') \<and> rvr_VoteGranted resp \<and>
     votedFor n' = ''b'' \<and> currentTerm n' = 3"
proof -
  obtain resp n' where run: "HandleRequestVote ex_store ex_vote_request ex_node = (resp, n')" by fastforce
  from HandleRequestVote_spec [OF run] run ex_vote_conditions show ?thesis
    by (simp add: ex_vote_request_def)
qed

theorem startElection_begin_spec_witness:
  "\<exists>req n'. startElection_begin ex_store ex_node = (Some req, n') \<and> rv_Term req = 3 \<and>
     rv_LastLogIndex req = 5 \<and> role n' = Candidate \<and> votedFor n' = ''a''"
proof -
  obtain r n' where run: "startElection_begin ex_store ex_node = (r, n')" by fastforce
  moreover have "fst (persistHardStateLocked ex_store m) = None" for m :: "(unit, KVStateMachine) node"
    by (simp add: persist_store(1) ex_store_def)
  with run have "r \<noteq> None"
    using ex_vote_conditions by (auto simp: startElection_begin_def Let_def case_prod_beta)
  ultimately show ?thesis using startElection_begin_spec [OF run] ex_node_log ex_vote_conditions
    by (auto simp: ex_node_def)
qed

definition ex_candidate :: "(unit, KVStateMachine) node" where
  "ex_candidate = ex_node\<lparr>role := Candidate\<rparr>"



end
