(* ===== verification/Raft_Client.thy ===== *)
theory Raft_Client
  imports Raft_Election
begin

text \<open>
  What a client sees of a node (\<open>internal/raft/node.go\<close>): \<open>Propose\<close>, \<open>LinearizableGet\<close> with its
  read barrier \<open>ensureQuorum\<close>, and \<open>Status\<close>.

  These calls wait with the mutex released, so the node changes between the points at which they
  hold it.  Each such point is a function of the node as it is then; the composed functions take
  the successive states as arguments.  A context is the error it has, if any, when it is looked at.
\<close>

section \<open>Proposing a command\<close>

definition resultFromOutcome :: "applyOutcome \<Rightarrow> ApplyResult \<times> goerror option" where
  "resultFromOutcome outcome =
     (case ao_err outcome of
        Some err \<Rightarrow> (zero_ApplyResult, Some err)
      | None \<Rightarrow>
          if \<not> res_OK (ao_result outcome) \<and> res_Error (ao_result outcome) \<noteq> ''''
          then (ao_result outcome, Some (ErrorString (res_Error (ao_result outcome))))
          else (ao_result outcome, None))"

text \<open>Up to the wait: \<open>Inl\<close> is the result of a call that ends here, \<open>Inr\<close> the waiter and the
  index to wait for.\<close>

definition Propose_begin :: "'st Store \<Rightarrow> goerror option \<Rightarrow> Command \<Rightarrow> ('st, 'sm) node \<Rightarrow>
    (ApplyResult \<times> goerror option + chan \<times> u64) \<times> ('st, 'sm) node" where
  "Propose_begin S ctxErr command n =
     (case ctxErr of
        Some err \<Rightarrow> (Inl (zero_ApplyResult, Some err), n)
      | None \<Rightarrow>
          (case proposeAppend S command n of
             (Inl err, n1) \<Rightarrow> (Inl (zero_ApplyResult, Some err), n1)
           | (Inr (waiter, index), n1) \<Rightarrow> (Inr (waiter, index), kickReplication n1)))"

text \<open>What can be received on a waiter channel, and the end of the call: \<open>None\<close> while it still
  waits.  With \<open>cancelled\<close> the \<open>select\<close> has taken the case of the context.\<close>

definition received :: "chan \<Rightarrow> ('st, 'sm) node \<Rightarrow> applyOutcome option" where
  "received waiter n = map_of (sent n) waiter"

definition Propose_end :: "goerror option \<Rightarrow> chan \<Rightarrow> u64 \<Rightarrow> ('st, 'sm) node \<Rightarrow>
    (ApplyResult \<times> goerror option) option \<times> ('st, 'sm) node" where
  "Propose_end cancelled waiter index n =
     (case cancelled of
        None \<Rightarrow> (map_option resultFromOutcome (received waiter n), n)
      | Some err \<Rightarrow>
          (let n1 = removeWaiter index waiter n
           in (Some (case received waiter n1 of
                       Some outcome \<Rightarrow> resultFromOutcome outcome
                     | None \<Rightarrow> (zero_ApplyResult, Some (ProposalUnknownError index err))), n1)))"

section \<open>The read barrier\<close>

text \<open>\<open>acquirePeerReplication\<close> with its polls: each finds the context done or not, and what the rest
  of the program does to the node while it waits is a function.\<close>

fun acquire_loop :: "string \<Rightarrow> (bool \<times> (('st, 'sm) node \<Rightarrow> ('st, 'sm) node)) list \<Rightarrow> ('st, 'sm) node \<Rightarrow>
    bool \<times> ('st, 'sm) node" where
  "acquire_loop peerID [] n = (False, n)"
| "acquire_loop peerID ((ctxDone, others) # polls) n =
     (case acquirePeerReplication ctxDone peerID n of
        (Some b, n1) \<Rightarrow> (b, n1)
      | (None, n1) \<Rightarrow> acquire_loop peerID polls (others n1))"

definition replicateToPeerForRead where
  "replicateToPeerForRead S peerID rpc ship polls n w =
     (case acquire_loop peerID polls n of
        (False, n1) \<Rightarrow> (False, n1, w)
      | (True, n1) \<Rightarrow>
          (case replicateToPeer S peerID rpc ship n1 w of
             (b, n2, w1) \<Rightarrow> (b, finishPeerReplication peerID n2, w1)))"

definition leader_check :: "('st, 'sm) node \<Rightarrow> goerror + u64" where
  "leader_check n =
     (if stopped n then Inl ErrNodeStopped
      else if role n \<noteq> Leader then Inl (notLeaderLocked n)
      else Inr (currentTerm n))"

text \<open>Whether an answer of a peer counts: the replication succeeded and the node, looked at after
  it, still leads the term.\<close>

definition ack_counts :: "u64 \<Rightarrow> bool \<Rightarrow> ('st, 'sm) node \<Rightarrow> bool" where
  "ack_counts term ok n \<longleftrightarrow> ok \<and> role n = Leader \<and> currentTerm n = term"

datatype barrier = Quorum_reached | All_answered | Expired

text \<open>The counting of \<open>signal\<close>, over the answers in the order they come in; the list ends where
  the context does.\<close>

fun barrier_loop :: "nat \<Rightarrow> nat \<Rightarrow> nat \<Rightarrow> nat \<Rightarrow> bool list \<Rightarrow> barrier" where
  "barrier_loop target peers acked failed [] = Expired"
| "barrier_loop target peers acked failed (ok # oks) =
     (let acked1 = (if ok then acked + 1 else acked);
          failed1 = (if ok then failed else failed + 1)
      in if acked1 \<ge> target then Quorum_reached
         else if acked1 + failed1 \<ge> peers + 1 then All_answered
         else barrier_loop target peers acked1 failed1 oks)"

text \<open>\<open>n\<close> is the node when the call begins, \<open>oks\<close> the counted answers, \<open>n1\<close> the node when a quorum
  has answered and \<open>ctxErr\<close> the context's error when none has in time.\<close>

definition ensureQuorum :: "('st, 'sm) node \<Rightarrow> bool list \<Rightarrow> ('st, 'sm) node \<Rightarrow> goerror \<Rightarrow> goerror + u64" where
  "ensureQuorum n oks n1 ctxErr =
     (if quorum n = 1 then leader_check n
      else
        (case leader_check n of
           Inl err \<Rightarrow> Inl err
         | Inr term \<Rightarrow>
             (case barrier_loop (quorum n) (length (peerAddrs n)) 1 0 oks of
                Quorum_reached \<Rightarrow>
                  if stopped n1 then Inl ErrNodeStopped
                  else if role n1 \<noteq> Leader \<or> currentTerm n1 \<noteq> term then Inl (notLeaderLocked n1)
                  else Inr term
              | All_answered \<Rightarrow> Inl (ErrorString ''leader cannot contact quorum'')
              | Expired \<Rightarrow> Inl ctxErr)))"

section \<open>Waiting for the state machine\<close>

text \<open>One look of the waiting loops: \<open>None\<close> waits on, \<open>Some r\<close> returns.\<close>

definition waitUntilApplied :: "goerror option \<Rightarrow> u64 \<Rightarrow> ('st, 'sm) node \<Rightarrow> goerror option option" where
  "waitUntilApplied ctxErr index n =
     (if lastApplied n < index then
        (if stopped n then Some (Some ErrNodeStopped)
         else if storageFatal n \<noteq> None then Some (storageFatal n)
         else if ctxErr \<noteq> None then Some ctxErr
         else None)
      else Some None)"

definition waitUntilAppliedAsLeader :: "goerror option \<Rightarrow> u64 \<Rightarrow> u64 \<Rightarrow> ('st, 'sm) node \<Rightarrow> goerror option option" where
  "waitUntilAppliedAsLeader ctxErr index term n =
     (if lastApplied n < index then
        (if stopped n then Some (Some ErrNodeStopped)
         else if storageFatal n \<noteq> None then Some (storageFatal n)
         else if role n \<noteq> Leader \<or> currentTerm n \<noteq> term then Some (Some (notLeaderLocked n))
         else if ctxErr \<noteq> None then Some ctxErr
         else None)
      else
        (if stopped n then Some (Some ErrNodeStopped)
         else if storageFatal n \<noteq> None then Some (storageFatal n)
         else if role n \<noteq> Leader \<or> currentTerm n \<noteq> term then Some (Some (notLeaderLocked n))
         else Some None))"

text \<open>The loop over the looks, each with the context's error and the node at that time.\<close>

fun wait_loop :: "u64 \<Rightarrow> u64 \<Rightarrow> (goerror option \<times> ('st, 'sm) node) list \<Rightarrow> goerror option option" where
  "wait_loop index term [] = None"
| "wait_loop index term ((ctxErr, n) # looks) =
     (case waitUntilAppliedAsLeader ctxErr index term n of
        Some r \<Rightarrow> Some r
      | None \<Rightarrow> wait_loop index term looks)"

section \<open>Linearizable reads\<close>

definition readValue :: "'sm StateMachine \<Rightarrow> 'sm \<Rightarrow> string \<Rightarrow> string \<times> bool" where
  "readValue M m key = (case SM_Get M of None \<Rightarrow> ('''', False) | Some get \<Rightarrow> get key m)"

text \<open>The two looks under the mutex; \<open>Inr None\<close> is \<open>continue\<close>.\<close>

definition read_index :: "u64 \<Rightarrow> ('st, 'sm) node \<Rightarrow> goerror + u64 option" where
  "read_index confirmedTerm n =
     (case leader_check n of
        Inl err \<Rightarrow> Inl err
      | Inr term \<Rightarrow>
          if term \<noteq> confirmedTerm then Inr None
          else Inr (Some (if leaderNoopIndex n > commitIndex n then leaderNoopIndex n else commitIndex n)))"

definition read_finish :: "'sm StateMachine \<Rightarrow> u64 \<Rightarrow> string \<Rightarrow> ('st, 'sm) node \<Rightarrow>
    goerror + (string \<times> bool) option" where
  "read_finish M confirmedTerm key n =
     (case leader_check n of
        Inl err \<Rightarrow> Inl err
      | Inr term \<Rightarrow> if term \<noteq> confirmedTerm then Inr None else Inr (Some (readValue M (sm n) key)))"

text \<open>What one round of the loop of \<open>LinearizableGet\<close> looks at.\<close>

record ('st, 'sm) read_round =
  rr_start :: "('st, 'sm) node"
  rr_acks :: "bool list"
  rr_quorum :: "('st, 'sm) node"
  rr_ctxErr :: goerror
  rr_index :: "('st, 'sm) node"
  rr_looks :: "(goerror option \<times> ('st, 'sm) node) list"
  rr_read :: "('st, 'sm) node"

text \<open>The outer \<open>None\<close> is a call that still runs when the rounds end.\<close>

fun LinearizableGet :: "'sm StateMachine \<Rightarrow> string \<Rightarrow> ('st, 'sm) read_round list \<Rightarrow>
    (goerror + string \<times> bool) option" where
  "LinearizableGet M key [] = None"
| "LinearizableGet M key (r # rounds) =
     (case ensureQuorum (rr_start r) (rr_acks r) (rr_quorum r) (rr_ctxErr r) of
        Inl err \<Rightarrow> Some (Inl err)
      | Inr confirmedTerm \<Rightarrow>
          (case read_index confirmedTerm (rr_index r) of
             Inl err \<Rightarrow> Some (Inl err)
           | Inr None \<Rightarrow> LinearizableGet M key rounds
           | Inr (Some applied) \<Rightarrow>
               (case wait_loop applied confirmedTerm (rr_looks r) of
                  None \<Rightarrow> None
                | Some (Some err) \<Rightarrow> Some (Inl err)
                | Some None \<Rightarrow>
                    (case read_finish M confirmedTerm key (rr_read r) of
                       Inl err \<Rightarrow> Some (Inl err)
                     | Inr None \<Rightarrow> LinearizableGet M key rounds
                     | Inr (Some vf) \<Rightarrow> Some (Inr vf)))))"

text \<open>The deadline of the context of a read, given the caller's and the time of the call.\<close>

definition readContext :: "time option \<Rightarrow> time \<Rightarrow> ('st, 'sm) node \<Rightarrow> time option" where
  "readContext deadline now n =
     (if readTimeout n \<le> 0 then deadline
      else case deadline of Some d \<Rightarrow> Some d | None \<Rightarrow> Some (now + readTimeout n))"

section \<open>Status\<close>

definition peer_status :: "('st, 'sm) node \<Rightarrow> string \<times> string \<Rightarrow> PeerStatus" where
  "peer_status n p = \<lparr>ps_ID = fst p, ps_Address = snd p, ps_NextIndex = get_u64 (nextIndex n) (fst p),
     ps_MatchIndex = get_u64 (matchIndex n) (fst p)\<rparr>"

definition Status_of :: "('st, 'sm) node \<Rightarrow> Status" where
  "Status_of n =
     (if stopped n then
        \<lparr>st_ID = nid n, st_Address = address n, st_Role = None, st_Term = currentTerm n,
         st_LeaderID = '''', st_LeaderAddress = '''', st_CommitIndex = commitIndex n,
         st_LastApplied = lastApplied n, st_LastLogIndex = lastIndexLocked n,
         st_SnapshotIndex = lii n, st_Peers = []\<rparr>
      else
        \<lparr>st_ID = nid n, st_Address = address n, st_Role = Some (role n), st_Term = currentTerm n,
         st_LeaderID = leaderID n, st_LeaderAddress = leaderAddressLocked n,
         st_CommitIndex = commitIndex n, st_LastApplied = lastApplied n,
         st_LastLogIndex = lastIndexLocked n, st_SnapshotIndex = lii n,
         st_Peers = sort_key ps_ID (map (peer_status n) (peerAddrs n))\<rparr>)"

definition LastError :: "('st, 'sm) node \<Rightarrow> goerror option" where
  "LastError n = lastErr n"

section \<open>The barrier counts a majority of fresh answers\<close>

lemma barrier_loop_quorum:
  "barrier_loop target peers acked failed oks = Quorum_reached \<Longrightarrow>
   target \<le> acked + length (filter id oks) \<and> oks \<noteq> []"
  by (induction target peers acked failed oks rule: barrier_loop.induct)
    (auto simp: Let_def split: if_splits)

text \<open>With an answer of every peer the barrier does not wait: it has a quorum or it fails.\<close>

lemma barrier_loop_complete:
  assumes "length oks + acked + failed = peers + 1" and "oks \<noteq> []" and "acked < target"
  shows "barrier_loop target peers acked failed oks =
    (if target \<le> acked + length (filter id oks) then Quorum_reached else All_answered)"
  using assms
proof (induction target peers acked failed oks rule: barrier_loop.induct)
  case (2 target peers acked failed ok oks)
  show ?case
  proof (cases "oks = []")
    case True
    then show ?thesis using "2.prems" by (auto simp: Let_def)
  next
    case False
    then have "0 < length oks" by simp
    then show ?thesis using 2 False by (auto simp: Let_def not_le)
  qed
qed simp

lemma leader_check_Inr: "leader_check n = Inr t \<longleftrightarrow> \<not> stopped n \<and> role n = Leader \<and> currentTerm n = t"
  by (auto simp: leader_check_def)

lemma wait_loop_ok:
  "wait_loop index term looks = Some None \<Longrightarrow>
   \<exists>e n. (e, n) \<in> set looks \<and> index \<le> lastApplied n \<and> \<not> stopped n \<and> storageFatal n = None \<and>
     role n = Leader \<and> currentTerm n = term"
  by (induction index "term" looks rule: wait_loop.induct)
    (auto simp: waitUntilAppliedAsLeader_def not_less split: if_splits option.splits)

section \<open>Properties\<close>



section \<open>Witnesses\<close>


definition ex_read :: "(unit, KVStateMachine) read_round" where
  "ex_read = \<lparr>rr_start = ex_leader, rr_acks = [True], rr_quorum = ex_leader, rr_ctxErr = DeadlineExceeded,
     rr_index = ex_leader, rr_looks = [(None, ex_leader)], rr_read = ex_leader\<rparr>"


end
