(* ===== verification/SM_Contract.thy ===== *)
theory SM_Contract
  imports Raft_Types
begin

text \<open>
  What package raft relies on from its state machine: restoring forgets the old state, and
  restoring a snapshot brings back the state it was taken from.  The laws are discharged for the
  key-value state machine of \<open>internal/server/state_machine.go\<close>, which also refines a partial
  function from keys to values.
\<close>

section \<open>The contract\<close>

text \<open>The state after a list of log entries, without the results.\<close>

definition replay :: "'sm StateMachine \<Rightarrow> LogEntry list \<Rightarrow> 'sm \<Rightarrow> 'sm" where
  "replay M es m = fold (\<lambda>e m. snd (SM_Apply M (le_Command e) m)) es m"

lemma replay_Nil [simp]: "replay M [] m = m"
  by (simp add: replay_def)

lemma replay_append: "replay M (xs @ ys) m = replay M ys (replay M xs m)"
  by (simp add: replay_def)

locale state_machine =
  fixes M :: "'sm StateMachine"
  assumes restore_forgets: "SM_Restore M d m = SM_Restore M d m'"
    and restore_snapshot: "SM_Restore M (Some (SM_Snapshot M m)) m' = m"
begin

text \<open>Replaying from a snapshot is replaying the whole history.\<close>

lemma replay_from_snapshot:
  "replay M ys (SM_Restore M (Some (SM_Snapshot M (replay M xs m))) m') = replay M (xs @ ys) m"
  by (simp add: restore_snapshot replay_append)

end

section \<open>The key-value state machine\<close>

interpretation kv: state_machine KV
  by unfold_locales (simp_all add: KV_def Restore_def Snapshot_kv_def)

text \<open>The abstract specification: a partial function from keys to values.\<close>

definition kv_abs :: "KVStateMachine \<Rightarrow> string \<rightharpoonup> string" where
  "kv_abs m = fmlookup (kv_data m)"

definition kv_spec :: "Command \<Rightarrow> (string \<rightharpoonup> string) \<Rightarrow> string \<rightharpoonup> string" where
  "kv_spec c f =
     (if cmd_Op c = OpPut then f(cmd_Key c \<mapsto> cmd_Value c)
      else if cmd_Op c = OpDelete then f(cmd_Key c := None)
      else if cmd_Op c = OpCAS \<and> f (cmd_Key c) = Some (cmd_Expected c) then f(cmd_Key c \<mapsto> cmd_Value c)
      else f)"

text \<open>C16. The key-value state machine refines a partial function.  Each command changes the
  abstract map as specified, reading returns what the map holds, a compare-and-swap reports a swap
  exactly when the key held the expected value, a delete reports the value it removed, and only an
  unknown operation reports an error.\<close>

theorem Apply_refines:
  assumes "Apply c m = (r, m')"
  shows "kv_abs m' = kv_spec c (kv_abs m) \<and>
    Get k m' = (case kv_abs m' k of None \<Rightarrow> ('''', False) | Some v \<Rightarrow> (v, True)) \<and>
    (cmd_Op c = OpCAS \<longrightarrow> (res_Swapped r \<longleftrightarrow> kv_abs m (cmd_Key c) = Some (cmd_Expected c))) \<and>
    (cmd_Op c = OpDelete \<longrightarrow> (res_Value r, res_Found r) = Get (cmd_Key c) m) \<and>
    (res_OK r \<longleftrightarrow> cmd_Op c \<in> {OpPut, OpDelete, OpCAS, OpNoop}) \<and>
    (res_OK r \<longleftrightarrow> res_Error r = '''')"
  using assms
  by (auto simp: Apply_def kv_abs_def kv_spec_def Get_def kv_lookup_def zero_ApplyResult_def Op_defs
      fun_eq_iff split: if_splits option.splits)

theorem Apply_refines_witness:
  "\<exists>r m'. Apply \<lparr>cmd_Op = OpPut, cmd_Key = ''a'', cmd_Value = ''1'', cmd_Expected = ''''\<rparr> NewKVStateMachine = (r, m') \<and>
     Get ''a'' m' = (''1'', True)"
proof -
  let ?c = "\<lparr>cmd_Op = OpPut, cmd_Key = ''a'', cmd_Value = ''1'', cmd_Expected = ''''\<rparr>"
  obtain r m' where run: "Apply ?c NewKVStateMachine = (r, m')" by fastforce
  from Apply_refines [OF this, of "''a''"] run show ?thesis by (simp add: kv_spec_def)
qed

text \<open>C30. A snapshot of the key-value state machine restores it: replaying the rest of a log on the
  restored state gives the state of replaying the whole log, from any other state the machine had.\<close>

theorem kv_snapshot_roundtrip:
  "replay KV ys (Restore (Some (Snapshot_kv (replay KV xs m))) m') = replay KV (xs @ ys) m"
  using kv.replay_from_snapshot by (simp add: KV_def)

end
