(* ===== verification/Raft_Apply.thy ===== *)
theory Raft_Apply
  imports Raft_Replication SM_Contract
begin

text \<open>
  Applying committed entries and taking snapshots (\<open>internal/raft/node.go\<close>).

  One iteration of \<open>applyReady\<close> takes the mutex twice, around the call of the state machine:
  \<open>apply_begin\<close> and \<open>apply_finish\<close> are the two locked parts, \<open>apply_run\<close> the call between them.
  Only the apply goroutine and the installation of a snapshot hold \<open>applyMu\<close>, so nothing else
  moves \<open>lastApplied\<close> in between.  \<open>persistSnapshot\<close> is cut in the same way around the write of
  the snapshot.  \<open>applyReady\<close> composes the parts for a run that nothing interleaves with.
\<close>

section \<open>Applying an entry\<close>

datatype apply_action = Apply_return | Apply_continue | Apply_entry LogEntry

definition apply_begin :: "('st, 'sm) node \<Rightarrow> apply_action \<times> ('st, 'sm) node" where
  "apply_begin n =
     (if lastApplied n \<ge> commitIndex n then (Apply_return, n)
      else if lastApplied n + 1 \<le> lii n then (Apply_continue, n\<lparr>lastApplied := lii n\<rparr>)
      else (case entryAtLocked n (lastApplied n + 1) of
              None \<Rightarrow> (Apply_return, n)
            | Some entry \<Rightarrow> (Apply_entry entry, n)))"

definition apply_run :: "'sm StateMachine \<Rightarrow> LogEntry \<Rightarrow> ('st, 'sm) node \<Rightarrow> ApplyResult \<times> ('st, 'sm) node" where
  "apply_run M entry n =
     (case SM_Apply M (le_Command entry) (sm n) of (result, m) \<Rightarrow> (result, n\<lparr>sm := m\<rparr>))"

definition snapshotAtLocked :: "'sm StateMachine \<Rightarrow> u64 \<Rightarrow> ('st, 'sm) node \<Rightarrow> Snapshot option" where
  "snapshotAtLocked M index n =
     (case termAtLocked n index of
        None \<Rightarrow> None
      | Some term \<Rightarrow>
          Some \<lparr>LastIncludedIndex = index, LastIncludedTerm = term,
                Data = cloneMap (Some (SM_Snapshot M (sm n)))\<rparr>)"

text \<open>\<open>None\<close> ends \<open>applyReady\<close>; \<open>Some snap\<close> goes on, after persisting \<open>snap\<close> if there is one.\<close>

definition apply_finish :: "'sm StateMachine \<Rightarrow> LogEntry \<Rightarrow> ApplyResult \<Rightarrow> ('st, 'sm) node \<Rightarrow>
    Snapshot option option \<times> ('st, 'sm) node" where
  "apply_finish M entry result n =
     (if le_Index entry \<noteq> lastApplied n + 1 \<or> le_Index entry > commitIndex n \<or>
         map_option le_Term (entryAtLocked n (le_Index entry)) \<noteq> Some (le_Term entry)
      then (None, n)
      else
        (let n1 = finishWaitersLocked (le_Index entry) result (n\<lparr>lastApplied := le_Index entry\<rparr>)
         in (Some (if snapshotEvery n1 > 0 \<and> int (length (log n1)) > snapshotEvery n1 \<and>
                      lastApplied n1 > lii n1
                   then snapshotAtLocked M (lastApplied n1) n1 else None), n1)))"

section \<open>Persisting a snapshot\<close>

definition snapshot_current :: "Snapshot \<Rightarrow> ('st, 'sm) node \<Rightarrow> bool" where
  "snapshot_current snap n \<longleftrightarrow>
     \<not> (LastIncludedIndex snap \<le> lii n \<or> LastIncludedIndex snap > lastApplied n)"

definition persistSnapshot_save :: "'st Store \<Rightarrow> Snapshot \<Rightarrow> ('st, 'sm) node \<Rightarrow> bool \<times> ('st, 'sm) node" where
  "persistSnapshot_save S snap n =
     (case Store_SaveSnapshot S snap (store n) of
        (Some e, st) \<Rightarrow> (False, n\<lparr>store := st, lastErr := Some e\<rparr>)
      | (None, st) \<Rightarrow> (True, n\<lparr>store := st\<rparr>))"

definition persistSnapshot_install :: "'st Store \<Rightarrow> Snapshot \<Rightarrow> ('st, 'sm) node \<Rightarrow> ('st, 'sm) node" where
  "persistSnapshot_install S snap n =
     (if \<not> snapshot_current snap n then n
      else
        (let newLog = filter (\<lambda>entry. le_Index entry > LastIncludedIndex snap) (log n)
         in case Store_ReplaceEntries S newLog (store n) of
              (Some e, st) \<Rightarrow> n\<lparr>store := st, lastErr := Some e\<rparr>
            | (None, st) \<Rightarrow> n\<lparr>store := st, snapshot := snap, log := newLog\<rparr>))"

definition persistSnapshot :: "'st Store \<Rightarrow> Snapshot \<Rightarrow> ('st, 'sm) node \<Rightarrow> ('st, 'sm) node" where
  "persistSnapshot S snap n =
     (if \<not> snapshot_current snap n then n
      else case persistSnapshot_save S snap n of
             (False, n1) \<Rightarrow> n1
           | (True, n1) \<Rightarrow> persistSnapshot_install S snap n1)"

section \<open>The loop\<close>

definition apply_step :: "'st Store \<Rightarrow> 'sm StateMachine \<Rightarrow> ('st, 'sm) node \<Rightarrow> bool \<times> ('st, 'sm) node" where
  "apply_step S M n =
     (case apply_begin n of
        (Apply_return, n1) \<Rightarrow> (False, n1)
      | (Apply_continue, n1) \<Rightarrow> (True, n1)
      | (Apply_entry entry, n1) \<Rightarrow>
          (case apply_run M entry n1 of
             (result, n2) \<Rightarrow>
               (case apply_finish M entry result n2 of
                  (None, n3) \<Rightarrow> (False, n3)
                | (Some None, n3) \<Rightarrow> (True, n3)
                | (Some (Some snap), n3) \<Rightarrow> (True, persistSnapshot S snap n3))))"

lemma finishWaitersLocked_frame [simp, frame_simps]:
  "snapshot (finishWaitersLocked i r n) = snapshot n" "log (finishWaitersLocked i r n) = log n"
  "commitIndex (finishWaitersLocked i r n) = commitIndex n"
  "lastApplied (finishWaitersLocked i r n) = lastApplied n" "sm (finishWaitersLocked i r n) = sm n"
  "store (finishWaitersLocked i r n) = store n" "currentTerm (finishWaitersLocked i r n) = currentTerm n"
  "votedFor (finishWaitersLocked i r n) = votedFor n" "role (finishWaitersLocked i r n) = role n"
  "nid (finishWaitersLocked i r n) = nid n" "peerAddrs (finishWaitersLocked i r n) = peerAddrs n"
  "snapshotEvery (finishWaitersLocked i r n) = snapshotEvery n"
  "storageFatal (finishWaitersLocked i r n) = storageFatal n" "stopped (finishWaitersLocked i r n) = stopped n"
  "positions (finishWaitersLocked i r n) = positions n"
  by (simp_all add: finishWaitersLocked_def Let_def positions_def)

lemma persistSnapshot_frame [simp, frame_simps]:
  "commitIndex (persistSnapshot S snap n) = commitIndex n" "lastApplied (persistSnapshot S snap n) = lastApplied n"
  "sm (persistSnapshot S snap n) = sm n" "currentTerm (persistSnapshot S snap n) = currentTerm n"
  "votedFor (persistSnapshot S snap n) = votedFor n" "role (persistSnapshot S snap n) = role n"
  "nid (persistSnapshot S snap n) = nid n" "peerAddrs (persistSnapshot S snap n) = peerAddrs n"
  "waiters (persistSnapshot S snap n) = waiters n" "sent (persistSnapshot S snap n) = sent n"
  "storageFatal (persistSnapshot S snap n) = storageFatal n" "stopped (persistSnapshot S snap n) = stopped n"
  by (simp_all add: persistSnapshot_def persistSnapshot_save_def persistSnapshot_install_def Let_def
      split: prod.splits option.splits bool.splits)

text \<open>An iteration that goes on has moved \<open>lastApplied\<close> forward and left \<open>commitIndex\<close>.\<close>

lemma apply_step_progress:
  assumes "apply_step S M n = (True, n')"
  shows "commitIndex n' = commitIndex n" and "lastApplied n < lastApplied n'" and "lastApplied n < commitIndex n"
proof -
  have lt: "lastApplied n < commitIndex n"
    using assms by (auto simp: apply_step_def apply_begin_def split: if_splits)
  then have succ: "unat (lastApplied n + 1) = Suc (unat (lastApplied n))"
    by (intro unat_Suc_u64) (simp add: u64_simps)
  then have gt: "lastApplied n < lastApplied n + 1" by (simp add: less_u64_unat)
  show "lastApplied n < commitIndex n" by (rule lt)
  show "commitIndex n' = commitIndex n"
    using assms
    by (auto simp: apply_step_def apply_begin_def apply_run_def apply_finish_def Let_def
        split: if_splits option.splits prod.splits apply_action.splits)
  show "lastApplied n < lastApplied n'"
    using assms gt
    by (auto simp: apply_step_def apply_begin_def apply_run_def apply_finish_def Let_def
        split: if_splits option.splits prod.splits apply_action.splits intro: less_le_trans)
qed

function applyReady :: "'st Store \<Rightarrow> 'sm StateMachine \<Rightarrow> ('st, 'sm) node \<Rightarrow> ('st, 'sm) node" where
  "applyReady S M n = (case apply_step S M n of (False, n') \<Rightarrow> n' | (True, n') \<Rightarrow> applyReady S M n')"
  by pat_completeness auto
termination
proof (relation "measure (\<lambda>(S, M, n). unat (commitIndex n) - unat (lastApplied n))", goal_cases)
  case 1
  then show ?case by simp
next
  case (2 S M n x n')
  then have "apply_step S M n = (True, n')" by simp
  from apply_step_progress [OF this] show ?case by (simp add: u64_simps)
qed

declare applyReady.simps [simp del]

section \<open>The state machine follows the log\<close>

text \<open>The invariant: the state machine is in the state that the snapshot and the applied entries
  after it lead to.\<close>

definition applied_entries :: "'a node_log_scheme \<Rightarrow> LogEntry list" where
  "applied_entries n = take (unat (lastApplied n) - unat (lii n)) (log n)"

definition sm_ok :: "'sm StateMachine \<Rightarrow> ('st, 'sm) node \<Rightarrow> bool" where
  "sm_ok M n \<longleftrightarrow> sm n = replay M (applied_entries n) (SM_Restore M (Data (snapshot n)) (sm n))"

lemma apply_begin_entry:
  assumes "wf_node n" and "lastApplied n < commitIndex n"
  obtains e where "apply_begin n = (Apply_entry e, n)" "entryAtLocked n (lastApplied n + 1) = Some e"
    "le_Index e = lastApplied n + 1" "unat (lastApplied n + 1) = Suc (unat (lastApplied n))"
    "applied_entries (n\<lparr>lastApplied := lastApplied n + 1\<rparr>) = applied_entries n @ [e]"
proof -
  have wf: "wf_log n" and le: "lii n \<le> lastApplied n" "commitIndex n \<le> lastIndexLocked n"
    using assms(1) by (auto simp: wf_node_def)
  have succ: "unat (lastApplied n + 1) = Suc (unat (lastApplied n))"
    using assms(2) by (intro unat_Suc_u64) (simp add: u64_simps)
  let ?k = "unat (lastApplied n) - unat (lii n)"
  have k: "?k < length (log n)" "Suc (unat (lastApplied n)) - unat (lii n) = Suc ?k"
    using le assms(2) unat_lastIndexLocked [OF wf] by (simp_all add: u64_simps)
  have e: "entryAtLocked n (lastApplied n + 1) = Some (log n ! ?k)"
    using le assms(2) succ by (simp add: entryAtLocked_eq [OF wf] u64_simps)
  show thesis
  proof (rule that [of "log n ! ?k"])
    show "apply_begin n = (Apply_entry (log n ! ?k), n)"
      using assms(2) le(1) e succ by (simp add: apply_begin_def u64_simps)
    show "entryAtLocked n (lastApplied n + 1) = Some (log n ! ?k)" by (rule e)
    then show "le_Index (log n ! ?k) = lastApplied n + 1"
      by (auto simp: entryAtLocked_def Let_def split: if_splits)
    show "unat (lastApplied n + 1) = Suc (unat (lastApplied n))" by (rule succ)
    show "applied_entries (n\<lparr>lastApplied := lastApplied n + 1\<rparr>) = applied_entries n @ [log n ! ?k]"
      using k succ by (simp add: applied_entries_def take_Suc_conv_app_nth)
  qed
qed

text \<open>What persisting a snapshot does: nothing, or it takes the snapshot and drops the entries it
  covers.\<close>

definition compacted :: "Snapshot \<Rightarrow> ('st, 'sm) node \<Rightarrow> ('st, 'sm) node \<Rightarrow> bool" where
  "compacted snap n n' \<longleftrightarrow> commitIndex n' = commitIndex n \<and> lastApplied n' = lastApplied n \<and>
     (positions n' = positions n \<or>
      snapshot_current snap n \<and> snapshot n' = snap \<and>
      log n' = filter (\<lambda>e. le_Index e > LastIncludedIndex snap) (log n))"

lemma persistSnapshot_compacts:
  "compacted snap n (persistSnapshot_install S snap n)" "compacted snap n (persistSnapshot S snap n)"
  by (auto simp: compacted_def persistSnapshot_def persistSnapshot_save_def persistSnapshot_install_def
      snapshot_current_def Let_def positions_def split: prod.splits option.splits bool.splits)

lemma compacted_wf:
  assumes "wf_node n" and "compacted snap n n'"
    and "termAtLocked n (LastIncludedIndex snap) = Some (LastIncludedTerm snap)"
  shows "wf_node n' \<and> (\<forall>i. lii n' < i \<longrightarrow> entryAtLocked n' i = entryAtLocked n i) \<and>
    lastIndexLocked n' = lastIndexLocked n"
  using assms(2) unfolding compacted_def
proof (elim disjE conjE)
  assume "positions n' = positions n"
  from positions_cong [OF this] assms(1) show ?thesis by simp
next
  let ?l = "LastIncludedIndex snap"
  assume c: "snapshot_current snap n" and snap: "snapshot n' = snap"
    and log: "log n' = filter (\<lambda>e. le_Index e > ?l) (log n)"
    and eq: "commitIndex n' = commitIndex n" "lastApplied n' = lastApplied n"
  have wf: "wf_log n" and le: "lii n \<le> lastApplied n" "lastApplied n \<le> commitIndex n"
    "commitIndex n \<le> lastIndexLocked n" using assms(1) by (auto simp: wf_node_def)
  have l: "lii n < ?l" "?l \<le> lastApplied n" using c by (auto simp: snapshot_current_def)
  let ?k = "unat ?l - unat (lii n)"
  have k: "?k \<le> length (log n)" "unat ?l = unat (lii n) + ?k"
    using l le unat_lastIndexLocked [OF wf] by (simp_all add: u64_simps)
  have log': "log n' = drop ?k (log n)"
    using wf by (simp add: log wf_log_def contiguous_filter_gt)
  have wf': "wf_log n'"
    using contiguous_drop [OF _ k, of ] wf by (simp add: wf_log_def snap log')
  have last: "lastIndexLocked n' = lastIndexLocked n"
    using unat_lastIndexLocked [OF wf] unat_lastIndexLocked [OF wf'] k
    by (simp add: eq_u64_unat snap log')
  have "entryAtLocked n' i = entryAtLocked n i" if "?l < i" for i
  proof -
    have "unat (lii n) < unat ?l" "unat ?l < unat i" using l that by (simp_all add: u64_simps)
    then have idx: "?k + (unat i - unat ?l - 1) = unat i - unat (lii n) - 1" by simp
    have "drop ?k (log n) ! (unat i - unat ?l - 1) = log n ! (unat i - unat (lii n) - 1)"
      using k(1) idx by (simp add: nth_drop)
    moreover have "lii n < i" using l(1) that by simp
    ultimately show ?thesis using that
      by (simp add: entryAtLocked_eq [OF wf] entryAtLocked_eq [OF wf'] last snap log')
  qed
  then show ?thesis using wf' last le l snap eq by (simp add: wf_node_def)
qed

text \<open>The committed entries that are still to be applied, and what applying them sends to the
  waiters.\<close>

definition pending :: "'a node_log_scheme \<Rightarrow> LogEntry list" where
  "pending n = drop (unat (lastApplied n) - unat (lii n)) (take (unat (commitIndex n) - unat (lii n)) (log n))"

definition waiters_at :: "(u64 \<times> chan list) list \<Rightarrow> u64 \<Rightarrow> chan list" where
  "waiters_at ws i = (case map_of ws i of None \<Rightarrow> [] | Some cs \<Rightarrow> cs)"

fun deliveries :: "'sm StateMachine \<Rightarrow> (u64 \<times> chan list) list \<Rightarrow> LogEntry list \<Rightarrow> 'sm \<Rightarrow> (chan \<times> applyOutcome) list" where
  "deliveries M ws [] m = []"
| "deliveries M ws (e # es) m =
     map (\<lambda>w. (w, \<lparr>ao_result = fst (SM_Apply M (le_Command e) m), ao_err = None\<rparr>)) (waiters_at ws (le_Index e))
     @ deliveries M ws es (snd (SM_Apply M (le_Command e) m))"

lemma deliveries_cong:
  "(\<And>e. e \<in> set es \<Longrightarrow> waiters_at ws (le_Index e) = waiters_at ws' (le_Index e)) \<Longrightarrow>
   deliveries M ws es m = deliveries M ws' es m"
  by (induction es arbitrary: m) auto

lemma finishWaitersLocked_sent:
  "sent (finishWaitersLocked i r n) =
     sent n @ map (\<lambda>w. (w, \<lparr>ao_result = r, ao_err = None\<rparr>)) (waiters_at (waiters n) i)"
  "waiters (finishWaitersLocked i r n) = AList.delete i (waiters n)"
  by (simp_all add: finishWaitersLocked_def Let_def deliver_def waiters_at_def)

lemma waiters_at_delete: "j \<noteq> i \<Longrightarrow> waiters_at (AList.delete i ws) j = waiters_at ws j"
  by (simp add: waiters_at_def delete_conv')

lemma pending_compacted:
  assumes "wf_node n" and "compacted snap n n'"
  shows "pending n' = pending n"
  using assms(2) unfolding compacted_def
proof (elim disjE conjE)
  assume "positions n' = positions n"
  then show ?thesis by (simp add: pending_def positions_eq_iff)
next
  let ?l = "LastIncludedIndex snap"
  assume c: "snapshot_current snap n" and snap: "snapshot n' = snap"
    and log: "log n' = filter (\<lambda>e. le_Index e > ?l) (log n)"
    and eq: "commitIndex n' = commitIndex n" "lastApplied n' = lastApplied n"
  have log': "log n' = drop (unat ?l - unat (lii n)) (log n)"
    using assms(1) by (simp add: log wf_node_def wf_log_def contiguous_filter_gt)
  have "unat (lii n) \<le> unat ?l" "unat ?l \<le> unat (lastApplied n)" "unat (lastApplied n) \<le> unat (commitIndex n)"
    using c assms(1) by (auto simp: snapshot_current_def wf_node_def u64_simps)
  then show ?thesis by (simp add: pending_def snap log' drop_take eq)
qed

lemma pending_Cons:
  assumes "wf_node n" and "lastApplied n < commitIndex n" and "entryAtLocked n (lastApplied n + 1) = Some e"
    and "unat (lastApplied n + 1) = Suc (unat (lastApplied n))"
  shows "pending n = e # pending (n\<lparr>lastApplied := lastApplied n + 1\<rparr>)"
proof -
  have wf: "wf_log n" and le: "lii n \<le> lastApplied n" "commitIndex n \<le> lastIndexLocked n"
    using assms(1) by (auto simp: wf_node_def)
  let ?k = "unat (lastApplied n) - unat (lii n)" and ?c = "unat (commitIndex n) - unat (lii n)"
  have k: "?k < ?c" "?c \<le> length (log n)" "Suc (unat (lastApplied n)) - unat (lii n) = Suc ?k"
    using le assms(2) unat_lastIndexLocked [OF wf] by (simp_all add: u64_simps)
  have "e = log n ! ?k"
    using le assms(2,3,4) by (simp add: entryAtLocked_eq [OF wf] u64_simps split: if_splits)
  moreover have "drop ?k (take ?c (log n)) = take ?c (log n) ! ?k # drop (Suc ?k) (take ?c (log n))"
    using k by (intro Cons_nth_drop_Suc [symmetric]) simp
  ultimately show ?thesis using k assms(4) by (simp add: pending_def)
qed

lemma pending_gt:
  assumes "wf_node n" and "e \<in> set (pending n)"
  shows "unat (lastApplied n) < unat (le_Index e)"
proof -
  let ?k = "unat (lastApplied n) - unat (lii n)"
  have le: "unat (lii n) \<le> unat (lastApplied n)" "unat (lastApplied n) \<le> unat (lii n) + length (log n)"
    and c: "contiguous (lii n) (log n)"
    using assms(1) unat_lastIndexLocked [of n] by (auto simp: wf_node_def wf_log_def u64_simps)
  have "contiguous (lastApplied n) (drop ?k (log n))"
    using contiguous_drop [OF c, of ?k "lastApplied n"] le by simp
  moreover have "e \<in> set (drop ?k (log n))"
    using assms(2) by (auto simp: pending_def drop_take dest: in_set_takeD)
  ultimately show ?thesis by (rule contiguous_gt)
qed

context state_machine
begin

lemma persistSnapshot_ok:
  assumes "wf_node n" and "sm_ok M n" and "snapshotAtLocked M (lastApplied n) n = Some snap"
  shows "wf_node (persistSnapshot S snap n) \<and> sm_ok M (persistSnapshot S snap n)"
proof -
  have s: "LastIncludedIndex snap = lastApplied n" "termAtLocked n (lastApplied n) = Some (LastIncludedTerm snap)"
    "Data snap = Some (SM_Snapshot M (sm n))"
    using assms(3) by (auto simp: snapshotAtLocked_def cloneMap_def split: option.splits)
  then have "wf_node (persistSnapshot S snap n)"
    using compacted_wf [OF assms(1) persistSnapshot_compacts(2)] by simp
  moreover have "sm_ok M (persistSnapshot S snap n)"
    using persistSnapshot_compacts(2) [of snap n S] unfolding compacted_def
  proof (elim disjE conjE)
    assume "positions (persistSnapshot S snap n) = positions n"
    then show ?thesis using assms(2) by (simp add: sm_ok_def applied_entries_def positions_eq_iff)
  next
    assume "snapshot (persistSnapshot S snap n) = snap"
    then show ?thesis using s by (simp add: sm_ok_def applied_entries_def restore_snapshot)
  qed
  ultimately show ?thesis by blast
qed

text \<open>An iteration of the apply loop.\<close>

lemma apply_step_ok:
  assumes "wf_node n" and "sm_ok M n" and "apply_step S M n = (b, n')"
  shows "wf_node n' \<and> sm_ok M n' \<and> commitIndex n' = commitIndex n \<and>
    (if lastApplied n < commitIndex n
     then b \<and> (\<exists>e. pending n = e # pending n' \<and> sm n' = snd (SM_Apply M (le_Command e) (sm n)) \<and>
       waiters n' = AList.delete (le_Index e) (waiters n) \<and>
       unat (le_Index e) = Suc (unat (lastApplied n)) \<and> lastApplied n' = le_Index e \<and>
       sent n' = sent n @ map (\<lambda>w. (w, \<lparr>ao_result = fst (SM_Apply M (le_Command e) (sm n)), ao_err = None\<rparr>))
         (waiters_at (waiters n) (le_Index e)))
     else \<not> b \<and> n' = n)"
proof (cases "lastApplied n < commitIndex n")
  case False
  then show ?thesis using assms by (simp add: apply_step_def apply_begin_def not_less)
next
  case lt: True
  from apply_begin_entry [OF assms(1) lt] obtain e where
    e: "apply_begin n = (Apply_entry e, n)" "entryAtLocked n (lastApplied n + 1) = Some e"
      "le_Index e = lastApplied n + 1" "unat (lastApplied n + 1) = Suc (unat (lastApplied n))"
      "applied_entries (n\<lparr>lastApplied := lastApplied n + 1\<rparr>) = applied_entries n @ [e]" .
  obtain r m where ap: "SM_Apply M (le_Command e) (sm n) = (r, m)" by fastforce
  let ?n2 = "n\<lparr>sm := m\<rparr>"
  define n3 where "n3 = finishWaitersLocked (le_Index e) r (?n2\<lparr>lastApplied := le_Index e\<rparr>)"
  have le: "lastApplied n + 1 \<le> commitIndex n" using lt e(4) by (simp add: u64_simps)
  have ent: "entryAtLocked ?n2 = entryAtLocked n"
    by (simp add: entryAtLocked_def fun_eq_iff Let_def)
  have n3: "positions n3 = positions (n\<lparr>lastApplied := le_Index e\<rparr>)" "sm n3 = m"
    "waiters n3 = AList.delete (le_Index e) (waiters n)" "lastApplied n3 = le_Index e"
    "sent n3 = sent n @ map (\<lambda>w. (w, \<lparr>ao_result = r, ao_err = None\<rparr>)) (waiters_at (waiters n) (le_Index e))"
    by (simp_all add: n3_def finishWaitersLocked_sent positions_def)
  have wf3: "wf_node n3"
    unfolding positions_cong(1) [OF n3(1)]
    using assms(1) e(3,4) le by (auto simp: wf_node_def u64_simps)
  have sm3: "sm_ok M n3"
  proof -
    have "applied_entries n3 = applied_entries n @ [e]"
      using e(3,5) n3(1) by (simp add: applied_entries_def positions_eq_iff)
    moreover have "snapshot n3 = snapshot n" using n3(1) by (simp add: positions_eq_iff)
    moreover have "SM_Restore M (Data (snapshot n)) m = SM_Restore M (Data (snapshot n)) (sm n)"
      by (rule restore_forgets)
    ultimately show ?thesis using assms(2) ap n3(2)
      by (simp add: sm_ok_def replay_append) (simp add: replay_def)
  qed
  have pend3: "pending n = e # pending n3"
    using pending_Cons [OF assms(1) lt e(2,4)] e(3) n3(1) by (simp add: pending_def positions_eq_iff)
  have ci3: "commitIndex n3 = commitIndex n" using n3(1) by (simp add: positions_eq_iff)
  define x where "x = (if snapshotEvery n3 > 0 \<and> int (length (log n3)) > snapshotEvery n3 \<and> lii n3 < lastApplied n3
    then snapshotAtLocked M (lastApplied n3) n3 else None)"
  have fin: "apply_finish M e r ?n2 = (Some x, n3)" "x = None \<or> x = snapshotAtLocked M (lastApplied n3) n3"
    using e(2,3) le ent n3(4) unfolding apply_finish_def x_def n3_def Let_def
    by (simp_all add: not_less)
  have step: "apply_step S M n = (True, case x of None \<Rightarrow> n3 | Some snap \<Rightarrow> persistSnapshot S snap n3)"
    using e(1) ap fin(1) by (simp add: apply_step_def apply_run_def split: option.splits)
  have "b" and n': "n' = (case x of None \<Rightarrow> n3 | Some snap \<Rightarrow> persistSnapshot S snap n3)"
    using step assms(3) by simp_all
  have "wf_node n' \<and> sm_ok M n' \<and> pending n' = pending n3"
  proof (cases x)
    case None
    then show ?thesis using wf3 sm3 by (simp add: n')
  next
    case (Some snap)
    then have "snapshotAtLocked M (lastApplied n3) n3 = Some snap" using fin(2) by simp
    from persistSnapshot_ok [OF wf3 sm3 this] show ?thesis
      using pending_compacted [OF wf3 persistSnapshot_compacts(2)] Some by (simp add: n')
  qed
  moreover have "commitIndex n' = commitIndex n3" "sm n' = sm n3" "waiters n' = waiters n3"
    "sent n' = sent n3" "lastApplied n' = lastApplied n3" by (simp_all add: n' split: option.splits)
  ultimately show ?thesis using \<open>b\<close> lt n3 pend3 ci3 ap e(3,4) by simp
qed

lemma applyReady_ok:
  assumes "wf_node n" and "sm_ok M n"
  shows "wf_node (applyReady S M n) \<and> sm_ok M (applyReady S M n) \<and>
    commitIndex (applyReady S M n) = commitIndex n \<and> lastApplied (applyReady S M n) = commitIndex n \<and>
    sm (applyReady S M n) = replay M (pending n) (sm n) \<and>
    sent (applyReady S M n) = sent n @ deliveries M (waiters n) (pending n) (sm n)"
  using assms
proof (induction "length (pending n)" arbitrary: n rule: less_induct)
  case less
  obtain b n' where step: "apply_step S M n = (b, n')" by fastforce
  note ok = apply_step_ok [OF less.prems step]
  have le: "lastApplied n \<le> commitIndex n" using less.prems(1) by (simp add: wf_node_def)
  show ?case
  proof (cases "lastApplied n < commitIndex n")
    case False
    then have "pending n = []" by (simp add: pending_def u64_simps)
    with False ok step le less.prems show ?thesis
      by (simp add: applyReady.simps [of S M n] replay_def)
  next
    case True
    with ok obtain e where b: "b" and e: "pending n = e # pending n'"
        "sm n' = snd (SM_Apply M (le_Command e) (sm n))" "waiters n' = AList.delete (le_Index e) (waiters n)"
        "lastApplied n' = le_Index e"
        "sent n' = sent n @ map (\<lambda>w. (w, \<lparr>ao_result = fst (SM_Apply M (le_Command e) (sm n)), ao_err = None\<rparr>))
         (waiters_at (waiters n) (le_Index e))"
      by auto
    have wf': "wf_node n'" and sm': "sm_ok M n'" and ci: "commitIndex n' = commitIndex n" using ok by simp_all
    have "length (pending n') < length (pending n)" by (simp add: e(1))
    note IH = less.hyps [OF this wf' sm']
    have "deliveries M (waiters n') (pending n') (sm n') = deliveries M (waiters n) (pending n') (sm n')"
    proof (rule deliveries_cong)
      fix e' assume "e' \<in> set (pending n')"
      then have "le_Index e' \<noteq> le_Index e" using pending_gt [OF wf'] e(4) by fastforce
      then show "waiters_at (waiters n') (le_Index e') = waiters_at (waiters n) (le_Index e')"
        by (simp add: e(3) waiters_at_delete)
    qed
    moreover have "applyReady S M n = applyReady S M n'"
      using step b by (simp add: applyReady.simps [of S M n])
    ultimately show ?thesis using IH ci e by (simp add: replay_def)
  qed
qed

end

section \<open>Properties\<close>

text \<open>C17. Applying what is committed, with the key-value state machine and any store.  The loop
  ends with everything up to the commit index applied; the machine is then in the state that
  replaying the committed entries on the snapshot gives, wherever snapshots were taken in between
  and whether or not the store accepted them; the positions stay consistent; and every waiter of a
  newly applied entry is sent, once and in log order, the result of its own command.\<close>

theorem applyReady_correct:
  assumes "wf_node n" and "sm_ok KV n"
  shows "wf_node (applyReady S KV n) \<and> sm_ok KV (applyReady S KV n) \<and>
    commitIndex (applyReady S KV n) = commitIndex n \<and> lastApplied (applyReady S KV n) = commitIndex n \<and>
    sm (applyReady S KV n) = replay KV (pending n) (sm n) \<and>
    sent (applyReady S KV n) = sent n @ deliveries KV (waiters n) (pending n) (sm n)"
  using assms by (rule kv.applyReady_ok)

text \<open>Two clients wait for a put and for a compare-and-swap of the same key; a snapshot is due
  after the first.\<close>

definition ex_apply_node :: "(unit, KVStateMachine) node" where
  "ex_apply_node = ex_node\<lparr>log := [ex_entry 3 1,
       (ex_entry 4 1)\<lparr>le_Command := \<lparr>cmd_Op = OpPut, cmd_Key = ''k'', cmd_Value = ''1'', cmd_Expected = []\<rparr>\<rparr>,
       (ex_entry 5 2)\<lparr>le_Command := \<lparr>cmd_Op = OpCAS, cmd_Key = ''k'', cmd_Value = ''2'', cmd_Expected = ''1''\<rparr>\<rparr>],
     commitIndex := 5, snapshotEvery := 1, waiters := [(4, [7]), (5, [8])]\<rparr>"

lemmas ex_apply_defs = ex_apply_node_def ex_node_def ex_log_def ex_entry_def noop_command_def Op_defs

lemma ex_apply_node_ok: "wf_node ex_apply_node" "sm_ok KV ex_apply_node"
  by (simp_all add: ex_apply_defs wf_node_def wf_log_def lastIndexLocked_def lastIndex_def sm_ok_def
      applied_entries_def replay_def KV_def Restore_def NewKVStateMachine_def Apply_def)

theorem applyReady_correct_witness:
  "lastApplied (applyReady ex_store KV ex_apply_node) = 5 \<and>
   fmlookup (kv_data (sm (applyReady ex_store KV ex_apply_node))) ''k'' = Some ''2'' \<and>
   map (\<lambda>(w, out). (w, res_Swapped (ao_result out))) (sent (applyReady ex_store KV ex_apply_node)) =
     [(7, False), (8, True)]"
proof -
  have "pending ex_apply_node = drop 1 (log ex_apply_node)"
    by (simp add: pending_def ex_apply_defs)
  with applyReady_correct [OF ex_apply_node_ok, of ex_store] show ?thesis
    by (simp add: ex_apply_defs replay_def KV_def Apply_def kv_lookup_def waiters_at_def
        zero_ApplyResult_def NewKVStateMachine_def)
qed

end
