(* ===== verification/Go_UTF8.thy ===== *)
theory Go_UTF8
  imports Go_Prelude
begin

text \<open>
  Package \<open>unicode/utf8\<close> of Go's standard library, as far as \<open>encoding/json\<close> uses it: decoding
  the first rune of a byte string, and encoding a rune.  \<open>decode_rune\<close> returns the rune and the
  number of bytes it takes, and \<open>None\<close> where Go returns \<open>(RuneError, 1)\<close> for a byte that
  starts no well-formed sequence.
\<close>

definition byte :: "char \<Rightarrow> nat" where
  "byte c = of_char c"

definition cont :: "char \<Rightarrow> bool" where
  "cont c \<longleftrightarrow> 128 \<le> byte c \<and> byte c < 192"

definition is_rune :: "nat \<Rightarrow> bool" where
  "is_rune r \<longleftrightarrow> r < 0xD800 \<or> 0xE000 \<le> r \<and> r \<le> 0x10FFFF"

fun decode_rune :: "string \<Rightarrow> (nat \<times> nat) option" where
  "decode_rune [] = None"
| "decode_rune (a # s) =
     (let b = byte a in
      if b < 128 then Some (b, 1)
      else if 194 \<le> b \<and> b < 224 then
        (case s of
           c # _ \<Rightarrow> if cont c then Some ((b - 192) * 64 + (byte c - 128), 2) else None
         | _ \<Rightarrow> None)
      else if 224 \<le> b \<and> b < 240 then
        (case s of
           c # d # _ \<Rightarrow>
             if cont c \<and> cont d \<and> (b = 224 \<longrightarrow> 160 \<le> byte c) \<and> (b = 237 \<longrightarrow> byte c < 160)
             then Some ((b - 224) * 4096 + (byte c - 128) * 64 + (byte d - 128), 3) else None
         | _ \<Rightarrow> None)
      else if 240 \<le> b \<and> b < 245 then
        (case s of
           c # d # e # _ \<Rightarrow>
             if cont c \<and> cont d \<and> cont e \<and> (b = 240 \<longrightarrow> 144 \<le> byte c) \<and> (b = 244 \<longrightarrow> byte c < 144)
             then Some ((b - 240) * 262144 + (byte c - 128) * 4096 + (byte d - 128) * 64
                        + (byte e - 128), 4) else None
         | _ \<Rightarrow> None)
      else None)"

definition encode_rune :: "nat \<Rightarrow> string" where
  "encode_rune r0 =
     (let r = (if is_rune r0 then r0 else 0xFFFD) in
      if r < 128 then [char_of r]
      else if r < 2048 then [char_of (192 + r div 64), char_of (128 + r mod 64)]
      else if r < 65536 then
        [char_of (224 + r div 4096), char_of (128 + r div 64 mod 64), char_of (128 + r mod 64)]
      else
        [char_of (240 + r div 262144), char_of (128 + r div 4096 mod 64),
         char_of (128 + r div 64 mod 64), char_of (128 + r mod 64)])"

function valid_utf8 :: "string \<Rightarrow> bool" where
  "valid_utf8 [] = True"
| "valid_utf8 (a # s) =
     (case decode_rune (a # s) of None \<Rightarrow> False | Some (r, n) \<Rightarrow> valid_utf8 (drop (n - 1) s))"
  by pat_completeness auto
termination
  by (relation "measure length") (auto simp: less_Suc_eq_le)

section \<open>Decoding inverts encoding\<close>

lemma byte_char_of: "n < 256 \<Longrightarrow> byte (char_of n) = n"
  by (simp add: byte_def)

lemma byte_less: "byte c < 256"
  by (simp add: byte_def)

lemma char_of_byte [simp]: "char_of (byte c) = c"
  by (simp add: byte_def)

lemma byte_inj: "byte c = byte d \<longleftrightarrow> c = d"
  by (metis char_of_byte)

text \<open>The base-64 digits of a number.\<close>

lemma digits_eq:
  "r div 64 div 64 * 4096 + r div 64 mod 64 * 64 + r mod 64 = (r :: nat)"
  "r div 64 div 64 div 64 * 262144 + r div 64 div 64 mod 64 * 4096 + r div 64 mod 64 * 64 + r mod 64 = r"
proof -
  have "r div 64 div 64 * 64 + r div 64 mod 64 = r div 64" "r div 64 * 64 + r mod 64 = r"
    "r div 64 div 64 div 64 * 64 + r div 64 div 64 mod 64 = r div 64 div 64"
    by simp_all
  then show "r div 64 div 64 * 4096 + r div 64 mod 64 * 64 + r mod 64 = r"
    "r div 64 div 64 div 64 * 262144 + r div 64 div 64 mod 64 * 4096 + r div 64 mod 64 * 64 + r mod 64 = r"
    by linarith+
qed

lemma div_pow64: "r div 4096 = r div 64 div (64 :: nat)" "r div 262144 = r div 64 div 64 div (64 :: nat)"
  by (simp_all add: div_mult2_eq [symmetric])

lemma digits_of:
  fixes x y z w :: nat
  assumes "y < 64" and "z < 64" and "w < 64"
  shows "(y * 64 + z) div 64 = y" and "(y * 64 + z) mod 64 = z"
    and "(x * 4096 + y * 64 + z) div 64 = x * 64 + y" and "(x * 4096 + y * 64 + z) mod 64 = z"
    and "(x * 262144 + y * 4096 + z * 64 + w) div 64 = x * 4096 + y * 64 + z"
    and "(x * 262144 + y * 4096 + z * 64 + w) mod 64 = w"
    and "(x * 64 + y) div 64 = x" and "(x * 64 + y) mod 64 = y"
proof -
  have split: "b < 64 \<Longrightarrow> (a * 64 + b) div 64 = a" "b < 64 \<Longrightarrow> (a * 64 + b) mod 64 = b" for a b :: nat
    by simp_all
  show "(y * 64 + z) div 64 = y" "(y * 64 + z) mod 64 = z"
    "(x * 64 + y) div 64 = x" "(x * 64 + y) mod 64 = y"
    using assms by (simp_all only: split)
  have three: "x * 4096 + y * 64 + z = (x * 64 + y) * 64 + z"
    and four: "x * 262144 + y * 4096 + z * 64 + w = (x * 4096 + y * 64 + z) * 64 + w" by simp_all
  show "(x * 4096 + y * 64 + z) div 64 = x * 64 + y" "(x * 4096 + y * 64 + z) mod 64 = z"
    unfolding three using assms by (simp_all only: split)
  show "(x * 262144 + y * 4096 + z * 64 + w) div 64 = x * 4096 + y * 64 + z"
    "(x * 262144 + y * 4096 + z * 64 + w) mod 64 = w"
    unfolding four using assms by (simp_all only: split)
qed

lemma decode_encode_rune:
  assumes "is_rune r"
  shows "decode_rune (encode_rune r @ t) = Some (r, length (encode_rune r))"
proof -
  consider "r < 128" | "128 \<le> r" "r < 2048" | "2048 \<le> r" "r < 65536" | "65536 \<le> r" by linarith
  then show ?thesis
  proof cases
    case 1
    then show ?thesis using assms by (simp add: encode_rune_def byte_char_of)
  next
    case 2
    then have "r div 64 < 32" "2 \<le> r div 64" by auto
    then show ?thesis using 2 assms
      by (simp add: encode_rune_def byte_char_of cont_def)
  next
    case 3
    define x y z where "x = r div 64 div 64" and "y = r div 64 mod 64" and "z = r mod 64"
    have r: "x * 4096 + y * 64 + z = r" and "y < 64" "z < 64"
      using digits_eq(1) [of r] by (simp_all add: x_def y_def z_def)
    then have "x < 16" "x = 0 \<longrightarrow> 32 \<le> y" "x = 13 \<longrightarrow> y < 32"
      using 3 assms unfolding is_rune_def by linarith+
    moreover have "encode_rune r = [char_of (224 + x), char_of (128 + y), char_of (128 + z)]"
      using 3 assms by (simp add: encode_rune_def div_pow64 x_def y_def z_def)
    ultimately show ?thesis using r \<open>y < 64\<close> \<open>z < 64\<close>
      by (simp add: byte_char_of cont_def)
  next
    case 4
    define x y z w where "x = r div 64 div 64 div 64" and "y = r div 64 div 64 mod 64"
      and "z = r div 64 mod 64" and "w = r mod 64"
    have r: "x * 262144 + y * 4096 + z * 64 + w = r" and "y < 64" "z < 64" "w < 64"
      using digits_eq(2) [of r] by (simp_all add: x_def y_def z_def w_def)
    then have "x < 5" "x = 0 \<longrightarrow> 16 \<le> y" "x = 4 \<longrightarrow> y < 16"
      using 4 assms unfolding is_rune_def by linarith+
    moreover have "encode_rune r =
        [char_of (240 + x), char_of (128 + y), char_of (128 + z), char_of (128 + w)]"
      using 4 assms by (simp add: encode_rune_def div_pow64 x_def y_def z_def w_def)
    ultimately show ?thesis using r \<open>y < 64\<close> \<open>z < 64\<close> \<open>w < 64\<close>
      by (simp add: byte_char_of cont_def)
  qed
qed

lemma decode_rune_Some:
  assumes "decode_rune s = Some (r, n)"
  shows "is_rune r \<and> s = encode_rune r @ drop n s \<and> n = length (encode_rune r)"
proof (cases s)
  case Nil
  then show ?thesis using assms by simp
next
  case (Cons a s')
  let ?b = "byte a"
  consider (one) "?b < 128" | (two) "194 \<le> ?b" "?b < 224" | (three) "224 \<le> ?b" "?b < 240"
    | (four) "240 \<le> ?b" "?b < 245"
    using assms Cons by (auto simp: Let_def split: if_splits)
  then show ?thesis
  proof cases
    case one
    then show ?thesis using assms Cons
      by (auto simp: is_rune_def encode_rune_def)
  next
    case two
    then obtain c s2 where s': "s' = c # s2" and c: "cont c"
      and r: "r = (?b - 192) * 64 + (byte c - 128)" and n: "n = 2"
      using assms Cons by (auto simp: Let_def split: list.splits if_splits)
    define x y where "x = ?b - 192" and "y = byte c - 128"
    have xy: "?b = 192 + x" "byte c = 128 + y" "x < 32" "2 \<le> x" "y < 64"
      using two c by (auto simp: x_def y_def cont_def)
    have rx: "r = x * 64 + y" using r by (simp add: x_def y_def)
    have "encode_rune r = [char_of (192 + x), char_of (128 + y)]"
      using xy by (simp add: encode_rune_def is_rune_def rx digits_of(1,2))
    moreover have "is_rune r" using rx xy by (simp add: is_rune_def)
    ultimately show ?thesis using Cons s' n by (simp add: xy(1,2) [symmetric])
  next
    case three
    then obtain c d s2 where s': "s' = c # d # s2" and c: "cont c" "cont d"
      and e0: "?b = 224 \<longrightarrow> 160 \<le> byte c" and ed: "?b = 237 \<longrightarrow> byte c < 160"
      and r: "r = (?b - 224) * 4096 + (byte c - 128) * 64 + (byte d - 128)" and n: "n = 3"
      using assms Cons by (auto simp: Let_def split: list.splits if_splits)
    define x y z where "x = ?b - 224" and "y = byte c - 128" and "z = byte d - 128"
    have xy: "?b = 224 + x" "byte c = 128 + y" "byte d = 128 + z" "x < 16" "y < 64" "z < 64"
      using three c by (auto simp: x_def y_def z_def cont_def)
    have rx: "r = x * 4096 + y * 64 + z" using r by (simp add: x_def y_def z_def)
    have lo: "x = 0 \<longrightarrow> 32 \<le> y" "x = 13 \<longrightarrow> y < 32" using e0 ed xy by auto
    then have "2048 \<le> r" "r < 65536" using rx xy by linarith+
    have "0xE000 \<le> r" if "\<not> r < 0xD800"
    proof -
      have "x \<noteq> 13" using that rx xy lo by auto
      moreover have "13 \<le> x" using that rx xy by linarith
      ultimately show ?thesis using rx by simp
    qed
    then have "is_rune r" using \<open>r < 65536\<close> by (auto simp: is_rune_def)
    then have "encode_rune r = [char_of (224 + x), char_of (128 + y), char_of (128 + z)]"
      using xy \<open>2048 \<le> r\<close> \<open>r < 65536\<close>
      by (simp add: encode_rune_def div_pow64) (simp add: rx digits_of)
    then show ?thesis using Cons s' n \<open>is_rune r\<close> by (simp add: xy(1-3) [symmetric])
  next
    case four
    then obtain c d e s2 where s': "s' = c # d # e # s2" and c: "cont c" "cont d" "cont e"
      and f0: "?b = 240 \<longrightarrow> 144 \<le> byte c" and f4: "?b = 244 \<longrightarrow> byte c < 144"
      and r: "r = (?b - 240) * 262144 + (byte c - 128) * 4096 + (byte d - 128) * 64 + (byte e - 128)"
      and n: "n = 4"
      using assms Cons by (auto simp: Let_def split: list.splits if_splits)
    define x y z w where "x = ?b - 240" and "y = byte c - 128" and "z = byte d - 128"
      and "w = byte e - 128"
    have xy: "?b = 240 + x" "byte c = 128 + y" "byte d = 128 + z" "byte e = 128 + w"
      "x < 5" "y < 64" "z < 64" "w < 64"
      using four c by (auto simp: x_def y_def z_def w_def cont_def)
    have rx: "r = x * 262144 + y * 4096 + z * 64 + w" using r by (simp add: x_def y_def z_def w_def)
    have "x = 0 \<longrightarrow> 16 \<le> y" "x = 4 \<longrightarrow> y < 16" using f0 f4 xy by auto
    then have "65536 \<le> r" "r \<le> 0x10FFFF" using rx xy by linarith+
    then have "is_rune r" by (simp add: is_rune_def)
    then have "encode_rune r =
        [char_of (240 + x), char_of (128 + y), char_of (128 + z), char_of (128 + w)]"
      using xy \<open>65536 \<le> r\<close> by (simp add: encode_rune_def div_pow64) (simp add: rx digits_of)
    then show ?thesis using Cons s' n \<open>is_rune r\<close> by (simp add: xy(1-4) [symmetric])
  qed
qed

section \<open>Well-formed strings\<close>

lemma encode_rune_not_Nil [simp]: "encode_rune r \<noteq> []"
  by (simp add: encode_rune_def Let_def)

lemma valid_utf8_encode_append [simp]:
  assumes "is_rune r"
  shows "valid_utf8 (encode_rune r @ s) \<longleftrightarrow> valid_utf8 s"
proof -
  obtain a t where at: "encode_rune r = a # t" by (cases "encode_rune r") auto
  then have "decode_rune (a # t @ s) = Some (r, Suc (length t))"
    using decode_encode_rune [OF assms, of s] by simp
  then show ?thesis by (simp add: at del: decode_rune.simps)
qed

lemma valid_utf8_induct [consumes 1, case_names Nil rune]:
  assumes "valid_utf8 s" and "P []"
    and "\<And>r s. is_rune r \<Longrightarrow> valid_utf8 s \<Longrightarrow> P s \<Longrightarrow> P (encode_rune r @ s)"
  shows "P s"
  using assms(1)
proof (induction s rule: valid_utf8.induct)
  case 1
  show ?case by (rule assms(2))
next
  case (2 a s)
  from "2.prems" obtain r n where d: "decode_rune (a # s) = Some (r, n)"
    and v: "valid_utf8 (drop (n - 1) s)" by (auto simp del: decode_rune.simps split: option.splits)
  note rune = decode_rune_Some [OF d]
  then have n: "0 < n" by simp
  then have drop: "drop n (a # s) = drop (n - 1) s" by (cases n) auto
  have "P (drop (n - 1) s)" using "2.IH" [OF d refl] v by simp
  then have "P (encode_rune r @ drop (n - 1) s)" using rune v by (intro assms(3)) auto
  then show ?case using rune drop by simp
qed

lemma valid_utf8_append: "valid_utf8 s \<Longrightarrow> valid_utf8 (s @ t) \<longleftrightarrow> valid_utf8 t"
  by (induction rule: valid_utf8_induct) auto

lemma valid_utf8_ascii: "\<forall>c \<in> set s. byte c < 128 \<Longrightarrow> valid_utf8 s"
  by (induction s) auto

declare valid_utf8.simps(2) [simp del] decode_rune.simps(2) [simp del]

end
