(* ===== verification/Go_JSON.thy ===== *)
theory Go_JSON
  imports Go_UTF8
begin

text \<open>
  Package \<open>encoding/json\<close> of Go's standard library, as far as the program uses it.  A document is
  a tree \<open>json\<close>: \<open>json.Marshal\<close> builds the tree of a value and prints it without spaces (with
  the default escaping of \<open><\<close>, \<open>>\<close>, \<open>&\<close> and of U+2028 and U+2029), \<open>json.Unmarshal\<close>
  first checks and parses the whole text, then stores the tree into the value.  The number of a
  tree is its literal.  The text of a syntax error is not modelled: parsing returns \<open>None\<close>.
\<close>

datatype json =
    JNull
  | JBool bool
  | JNumber string
  | JString string
  | JArray "json list"
  | JObject "(string \<times> json) list"

section \<open>Printing\<close>

definition hex_digit :: "nat \<Rightarrow> char" where
  "hex_digit n = (if n < 10 then char_of (48 + n) else char_of (87 + n))"

definition u_escape :: "nat \<Rightarrow> string" where
  "u_escape r = [CHR 0x5C, CHR ''u'', hex_digit (r div 4096), hex_digit (r div 256 mod 16),
     hex_digit (r div 16 mod 16), hex_digit (r mod 16)]"

definition escape_rune :: "nat \<Rightarrow> string" where
  "escape_rune r =
     (if r = 34 then [CHR 0x5C, CHR 0x22]
      else if r = 92 then [CHR 0x5C, CHR 0x5C]
      else if r = 8 then [CHR 0x5C, CHR ''b'']
      else if r = 12 then [CHR 0x5C, CHR ''f'']
      else if r = 10 then [CHR 0x5C, CHR ''n'']
      else if r = 13 then [CHR 0x5C, CHR ''r'']
      else if r = 9 then [CHR 0x5C, CHR ''t'']
      else if r < 32 \<or> r = 60 \<or> r = 62 \<or> r = 38 \<or> r = 0x2028 \<or> r = 0x2029 then u_escape r
      else encode_rune r)"

text \<open>\<open>appendString\<close> without its quotes; a byte that starts no rune becomes the escape of
  U+FFFD.\<close>

function escape :: "string \<Rightarrow> string" where
  "escape [] = []"
| "escape (a # s) =
     (case decode_rune (a # s) of
        None \<Rightarrow> u_escape 0xFFFD @ escape s
      | Some (r, n) \<Rightarrow> escape_rune r @ escape (drop (n - 1) s))"
  by pat_completeness auto
termination
  by (relation "measure length") (auto simp: less_Suc_eq_le)

definition quote :: "string \<Rightarrow> string" where
  "quote s = CHR 0x22 # escape s @ [CHR 0x22]"

fun dec :: "nat \<Rightarrow> string" where
  "dec n = (if n < 10 then [char_of (48 + n)] else dec (n div 10) @ [char_of (48 + n mod 10)])"

declare dec.simps [simp del]

fun sep :: "string list \<Rightarrow> string" where
  "sep [] = []"
| "sep [x] = x"
| "sep (x # xs) = x @ CHR '','' # sep xs"

fun print :: "json \<Rightarrow> string" where
  "print JNull = ''null''"
| "print (JBool b) = (if b then ''true'' else ''false'')"
| "print (JNumber t) = t"
| "print (JString s) = quote s"
| "print (JArray js) = CHR ''['' # sep (map print js) @ '']''"
| "print (JObject kvs) =
     CHR ''{'' # sep (map (\<lambda>(k, j). quote k @ CHR '':'' # print j) kvs) @ ''}''"

section \<open>Parsing\<close>

definition is_space :: "char \<Rightarrow> bool" where
  "is_space c \<longleftrightarrow> byte c = 32 \<or> byte c = 9 \<or> byte c = 13 \<or> byte c = 10"

definition skip_space :: "string \<Rightarrow> string" where
  "skip_space s = dropWhile is_space s"

definition is_digit :: "char \<Rightarrow> bool" where
  "is_digit c \<longleftrightarrow> 48 \<le> byte c \<and> byte c \<le> 57"

definition hex_value :: "char \<Rightarrow> nat option" where
  "hex_value c =
     (if is_digit c then Some (byte c - 48)
      else if 97 \<le> byte c \<and> byte c \<le> 102 then Some (byte c - 87)
      else if 65 \<le> byte c \<and> byte c \<le> 70 then Some (byte c - 55)
      else None)"

fun hex4 :: "string \<Rightarrow> nat option" where
  "hex4 (a # b # c # d # _) =
     (case (hex_value a, hex_value b, hex_value c, hex_value d) of
        (Some w, Some x, Some y, Some z) \<Rightarrow> Some (w * 4096 + x * 256 + y * 16 + z)
      | _ \<Rightarrow> None)"
| "hex4 _ = None"

definition simple_escape :: "char \<Rightarrow> char option" where
  "simple_escape e =
     (if e = CHR 0x22 \<or> e = CHR 0x5C \<or> e = CHR ''/'' then Some e
      else if e = CHR ''b'' then Some (char_of (8 :: nat))
      else if e = CHR ''f'' then Some (char_of (12 :: nat))
      else if e = CHR ''n'' then Some (char_of (10 :: nat))
      else if e = CHR ''r'' then Some (char_of (13 :: nat))
      else if e = CHR ''t'' then Some (char_of (9 :: nat))
      else None)"

text \<open>The second half of a surrogate pair, and the rune the pair stands for.\<close>

definition low_surrogate :: "nat \<Rightarrow> string \<Rightarrow> nat option" where
  "low_surrogate r1 s =
     (case s of
        b # u # t \<Rightarrow>
          if b = CHR 0x5C \<and> u = CHR ''u'' \<and> r1 < 0xDC00 then
            (case hex4 t of
               Some r2 \<Rightarrow>
                 if 0xDC00 \<le> r2 \<and> r2 < 0xE000
                 then Some ((r1 - 0xD800) * 1024 + (r2 - 0xDC00) + 0x10000) else None
             | None \<Rightarrow> None)
          else None
      | _ \<Rightarrow> None)"

definition emit :: "string \<Rightarrow> (string \<times> 'a) option \<Rightarrow> (string \<times> 'a) option" where
  "emit u r = map_option (\<lambda>(s, rest). (u @ s, rest)) r"

text \<open>The rest of a string literal after its opening quote: the string and the text after the
  closing quote.\<close>

function unquote :: "string \<Rightarrow> (string \<times> string) option" where
  "unquote [] = None"
| "unquote (a # s) =
     (if a = CHR 0x22 then Some ([], s)
      else if byte a < 32 then None
      else if a = CHR 0x5C then
        (case s of
           [] \<Rightarrow> None
         | e # t \<Rightarrow>
             if e = CHR ''u'' then
               (case hex4 t of
                  None \<Rightarrow> None
                | Some r \<Rightarrow>
                    if 0xD800 \<le> r \<and> r < 0xE000 then
                      (case low_surrogate r (drop 4 t) of
                         Some r' \<Rightarrow> emit (encode_rune r') (unquote (drop 10 t))
                       | None \<Rightarrow> emit (encode_rune 0xFFFD) (unquote (drop 4 t)))
                    else emit (encode_rune r) (unquote (drop 4 t)))
             else
               (case simple_escape e of
                  None \<Rightarrow> None
                | Some c \<Rightarrow> emit [c] (unquote t)))
      else
        (case decode_rune (a # s) of
           None \<Rightarrow> emit (encode_rune 0xFFFD) (unquote s)
         | Some (r, n) \<Rightarrow> emit (encode_rune r) (unquote (drop (n - 1) s))))"
  by pat_completeness auto
termination
  by (relation "measure length") (auto simp: less_Suc_eq_le)

declare unquote.simps [simp del]

text \<open>A number literal: the literal and the text after it.\<close>

definition lex_int :: "string \<Rightarrow> (string \<times> string) option" where
  "lex_int s =
     (case s of
        [] \<Rightarrow> None
      | c # t \<Rightarrow>
          if c = CHR ''0'' then Some ([c], t)
          else if is_digit c then Some (c # takeWhile is_digit t, dropWhile is_digit t)
          else None)"

definition lex_frac :: "string \<Rightarrow> (string \<times> string) option" where
  "lex_frac s =
     (case s of
        c # t \<Rightarrow>
          if c = CHR ''.'' then
            (if takeWhile is_digit t = [] then None
             else Some (c # takeWhile is_digit t, dropWhile is_digit t))
          else Some ([], s)
      | [] \<Rightarrow> Some ([], s))"

definition lex_exp :: "string \<Rightarrow> (string \<times> string) option" where
  "lex_exp s =
     (case s of
        c # t \<Rightarrow>
          if c = CHR ''e'' \<or> c = CHR ''E'' then
            (let (sg, t') = (case t of
                   d # u \<Rightarrow> if d = CHR ''+'' \<or> d = CHR ''-'' then ([d], u) else ([], t)
                 | [] \<Rightarrow> ([], t))
             in if takeWhile is_digit t' = [] then None
                else Some (c # sg @ takeWhile is_digit t', dropWhile is_digit t'))
          else Some ([], s)
      | [] \<Rightarrow> Some ([], s))"

definition lex_number :: "string \<Rightarrow> (string \<times> string) option" where
  "lex_number s =
     (let (sg, s0) = (case s of
            c # t \<Rightarrow> if c = CHR ''-'' then ([c], t) else ([], s)
          | [] \<Rightarrow> ([], s))
      in case lex_int s0 of
           None \<Rightarrow> None
         | Some (i, s1) \<Rightarrow>
             (case lex_frac s1 of
                None \<Rightarrow> None
              | Some (f, s2) \<Rightarrow>
                  (case lex_exp s2 of
                     None \<Rightarrow> None
                   | Some (e, s3) \<Rightarrow> Some (sg @ i @ f @ e, s3))))"

fun literal :: "string \<Rightarrow> string \<Rightarrow> string option" where
  "literal [] s = Some s"
| "literal (c # cs) (a # s) = (if a = c then literal cs s else None)"
| "literal (c # cs) [] = None"

definition maxNestingDepth :: nat where
  "maxNestingDepth = 10000"

text \<open>
  The recursive descent.  The first argument bounds the number of nested calls; two nested calls
  read at least one character, so twice the length of the text is enough (\<open>parse_value_fuel\<close>).  \<open>d\<close> is the depth of open brackets.
\<close>

fun parse_value :: "nat \<Rightarrow> nat \<Rightarrow> string \<Rightarrow> (json \<times> string) option"
  and parse_elements :: "nat \<Rightarrow> nat \<Rightarrow> string \<Rightarrow> (json list \<times> string) option"
  and parse_members :: "nat \<Rightarrow> nat \<Rightarrow> string \<Rightarrow> ((string \<times> json) list \<times> string) option" where
  "parse_value 0 d s = None"
| "parse_value (Suc f) d s =
     (case skip_space s of
        [] \<Rightarrow> None
      | c # t \<Rightarrow>
          if c = CHR ''{'' then
            (if maxNestingDepth \<le> d then None
             else case skip_space t of
                    [] \<Rightarrow> None
                  | c' # t' \<Rightarrow>
                      if c' = CHR ''}'' then Some (JObject [], t')
                      else (case parse_members f (Suc d) t of
                              None \<Rightarrow> None | Some (kvs, u) \<Rightarrow> Some (JObject kvs, u)))
          else if c = CHR ''['' then
            (if maxNestingDepth \<le> d then None
             else case skip_space t of
                    [] \<Rightarrow> None
                  | c' # t' \<Rightarrow>
                      if c' = CHR '']'' then Some (JArray [], t')
                      else (case parse_elements f (Suc d) t of
                              None \<Rightarrow> None | Some (js, u) \<Rightarrow> Some (JArray js, u)))
          else if c = CHR 0x22 then
            (case unquote t of None \<Rightarrow> None | Some (x, u) \<Rightarrow> Some (JString x, u))
          else if c = CHR ''n'' then map_option (Pair JNull) (literal ''ull'' t)
          else if c = CHR ''t'' then map_option (Pair (JBool True)) (literal ''rue'' t)
          else if c = CHR ''f'' then map_option (Pair (JBool False)) (literal ''alse'' t)
          else (case lex_number (c # t) of None \<Rightarrow> None | Some (x, u) \<Rightarrow> Some (JNumber x, u)))"
| "parse_elements 0 d s = None"
| "parse_elements (Suc f) d s =
     (case parse_value f d s of
        None \<Rightarrow> None
      | Some (j, t) \<Rightarrow>
          (case skip_space t of
             [] \<Rightarrow> None
           | c # u \<Rightarrow>
               if c = CHR '']'' then Some ([j], u)
               else if c = CHR '','' then
                 (case parse_elements f d u of
                    None \<Rightarrow> None | Some (js, v) \<Rightarrow> Some (j # js, v))
               else None))"
| "parse_members 0 d s = None"
| "parse_members (Suc f) d s =
     (case skip_space s of
        [] \<Rightarrow> None
      | q # s1 \<Rightarrow>
          if q \<noteq> CHR 0x22 then None
          else case unquote s1 of
            None \<Rightarrow> None
          | Some (k, s2) \<Rightarrow>
              (case skip_space s2 of
                 [] \<Rightarrow> None
               | c # s3 \<Rightarrow>
                   if c \<noteq> CHR '':'' then None
                   else case parse_value f d s3 of
                     None \<Rightarrow> None
                   | Some (j, t) \<Rightarrow>
                       (case skip_space t of
                          [] \<Rightarrow> None
                        | c # u \<Rightarrow>
                            if c = CHR ''}'' then Some ([(k, j)], u)
                            else if c = CHR '','' then
                              (case parse_members f d u of
                                 None \<Rightarrow> None | Some (kvs, v) \<Rightarrow> Some ((k, j) # kvs, v))
                            else None)))"

definition parse :: "string \<Rightarrow> json option" where
  "parse s =
     (case parse_value (Suc (2 * length s)) 0 s of
        None \<Rightarrow> None
      | Some (j, rest) \<Rightarrow> if skip_space rest = [] then Some j else None)"


section \<open>String literals round-trip\<close>

lemma escape_encode_append:
  assumes "is_rune r"
  shows "escape (encode_rune r @ s) = escape_rune r @ escape s"
proof -
  obtain a t where at: "encode_rune r = a # t" by (cases "encode_rune r") auto
  then have "decode_rune (a # t @ s) = Some (r, Suc (length t))"
    using decode_encode_rune [OF assms, of s] by simp
  then show ?thesis by (simp add: at)
qed

lemma hex_value_hex_digit: "n < 16 \<Longrightarrow> hex_value (hex_digit n) = Some n"
  by (auto simp: hex_value_def hex_digit_def is_digit_def byte_char_of)

lemma hex4_digits:
  assumes "r < 65536"
  shows "hex4 (hex_digit (r div 4096) # hex_digit (r div 256 mod 16) #
    hex_digit (r div 16 mod 16) # hex_digit (r mod 16) # t) = Some r"
proof -
  have "r div 4096 < 16" using assms by auto
  moreover have "r div 16 div 16 div 16 * 4096 + r div 16 div 16 mod 16 * 256 +
    r div 16 mod 16 * 16 + r mod 16 = r"
  proof -
    have "r div 16 * 16 + r mod 16 = r" "r div 16 div 16 * 16 + r div 16 mod 16 = r div 16"
      "r div 16 div 16 div 16 * 16 + r div 16 div 16 mod 16 = r div 16 div 16" by simp_all
    then show ?thesis by linarith
  qed
  moreover have "r div 4096 = r div 16 div 16 div 16" "r div 256 = r div 16 div 16"
    by (simp_all add: div_mult2_eq [symmetric])
  ultimately show ?thesis by (simp add: hex_value_hex_digit)
qed

lemma unquote_u_escape:
  assumes "r < 65536" and "is_rune r"
  shows "unquote (u_escape r @ t) = emit (encode_rune r) (unquote t)"
proof -
  have "r < 0xD800 \<or> 0xE000 \<le> r" using assms(2) by (auto simp: is_rune_def)
  then show ?thesis
    by (elim disjE) (simp_all add: u_escape_def unquote.simps(2) [of "CHR 0x5C"] hex4_digits [OF assms(1)] byte_def
        del: hex4.simps)
qed

lemma encode_rune_first:
  assumes "is_rune r" and "r \<noteq> 34" and "r \<noteq> 92" and "32 \<le> r"
  obtains a t where "encode_rune r = a # t" "a \<noteq> CHR 0x22" "a \<noteq> CHR 0x5C" "32 \<le> byte a"
proof -
  obtain a t where at: "encode_rune r = a # t" by (cases "encode_rune r") auto
  note d = decode_encode_rune [OF assms(1), of "[]", unfolded at]
  have "byte a = r \<or> 128 \<le> byte a" using d by (auto simp: decode_rune.simps(2) Let_def split: if_splits)
  then show thesis using assms(2-4) by (intro that [OF at]) (auto simp: byte_def)
qed

lemma char_of_special:
  "char_of (34 :: nat) = CHR 0x22" "char_of (92 :: nat) = CHR 0x5C"
  by code_simp+

lemma unquote_escape_rune:
  assumes "is_rune r"
  shows "unquote (escape_rune r @ t) = emit (encode_rune r) (unquote t)"
proof (cases "r = 34 \<or> r = 92 \<or> r = 8 \<or> r = 12 \<or> r = 10 \<or> r = 13 \<or> r = 9")
  case True
  then show ?thesis
    by (elim disjE)
      (simp_all add: escape_rune_def unquote.simps(2) [of "CHR 0x5C"] simple_escape_def
        encode_rune_def is_rune_def byte_def char_of_special)
next
  case special: False
  show ?thesis
  proof (cases "r < 32 \<or> r = 60 \<or> r = 62 \<or> r = 38 \<or> r = 0x2028 \<or> r = 0x2029")
    case True
    then have "r < 65536" by auto
    then show ?thesis using special True unquote_u_escape [OF _ assms] by (simp add: escape_rune_def)
  next
    case False
    then obtain a u where au: "encode_rune r = a # u" "a \<noteq> CHR 0x22" "a \<noteq> CHR 0x5C" "32 \<le> byte a"
      using special encode_rune_first [OF assms] by (metis not_le)
    have "decode_rune (a # u @ t) = Some (r, Suc (length u))"
      using decode_encode_rune [OF assms, of t] au by simp
    then show ?thesis using special False au
      by (simp add: escape_rune_def unquote.simps(2) [of a])
  qed
qed

lemma unquote_escape:
  "valid_utf8 s \<Longrightarrow> unquote (escape s @ CHR 0x22 # t) = Some (s, t)"
  by (induction rule: valid_utf8_induct)
    (simp_all add: escape_encode_append unquote_escape_rune emit_def unquote.simps(2) [of "CHR 0x22"])


text \<open>Printable ASCII without quotes, backslashes, angle brackets and ampersands is its own
  escape.\<close>

lemma escape_plain:
  "list_all (\<lambda>c. 32 \<le> byte c \<and> byte c < 127 \<and> byte c \<notin> {34, 38, 60, 62, 92}) s \<Longrightarrow> escape s = s"
proof (induction s)
  case (Cons a s)
  then have a: "32 \<le> byte a" "byte a < 127" "byte a \<notin> {34, 38, 60, 62, 92}" by simp_all
  then have "escape_rune (byte a) = encode_rune (byte a)" by (simp add: escape_rune_def)
  also have "\<dots> = [a]" using a by (simp add: encode_rune_def is_rune_def)
  finally have "escape_rune (byte a) = [a]" .
  moreover have "decode_rune (a # s) = Some (byte a, 1)" using a(2) by (simp add: decode_rune.simps)
  ultimately show ?case using Cons by simp
qed simp

section \<open>Numbers round-trip\<close>

definition undec :: "string \<Rightarrow> nat" where
  "undec s = foldl (\<lambda>n c. n * 10 + (byte c - 48)) 0 s"

lemma dec_digits: "\<forall>c \<in> set (dec n). is_digit c"
  by (induction n rule: dec.induct)
    (subst dec.simps, auto simp: is_digit_def byte_char_of)

lemma dec_not_Nil [simp]: "dec n \<noteq> []"
  by (subst dec.simps) simp

lemma undec_dec: "undec (dec n) = n"
proof (induction n rule: dec.induct)
  case (1 n)
  have m: "n mod 10 < 10" by simp
  show ?case
  proof (cases "n < 10")
    case True
    then show ?thesis by (simp add: dec.simps [of n] undec_def byte_char_of)
  next
    case False
    then show ?thesis using 1 m
      by (simp add: dec.simps [of n] undec_def byte_char_of)
  qed
qed

text \<open>A decimal numeral has no leading zero.\<close>

lemma dec_no_leading_zero: "dec n = CHR ''0'' # t \<Longrightarrow> t = [] \<and> n = 0"
proof (induction n arbitrary: t rule: dec.induct)
  case (1 n)
  show ?case
  proof (cases "n < 10")
    case True
    then have "char_of (48 + n) = CHR ''0''" using "1.prems" by (simp add: dec.simps [of n])
    then have "byte (char_of (48 + n)) = 48" by (simp add: byte_def)
    then have "n = 0" using True by (simp add: byte_char_of)
    then show ?thesis using "1.prems" by (simp add: dec.simps [of 0])
  next
    case False
    then have eq: "dec (n div 10) @ [char_of (48 + n mod 10)] = CHR ''0'' # t"
      using "1.prems" by (simp add: dec.simps [of n])
    then obtain u where "dec (n div 10) = CHR ''0'' # u" by (cases "dec (n div 10)") auto
    then have "n div 10 = 0" using "1.IH" [OF False] by blast
    then show ?thesis using False by simp
  qed
qed

definition number_end :: "string \<Rightarrow> bool" where
  "number_end s \<longleftrightarrow> (case s of [] \<Rightarrow> True | c # _ \<Rightarrow>
     \<not> is_digit c \<and> c \<noteq> CHR ''.'' \<and> c \<noteq> CHR ''e'' \<and> c \<noteq> CHR ''E'')"

lemma takeWhile_digits:
  assumes "\<forall>c \<in> set t. is_digit c" and "number_end rest"
  shows "takeWhile is_digit (t @ rest) = t" and "dropWhile is_digit (t @ rest) = rest"
  using assms by (auto simp: number_end_def takeWhile_append dropWhile_append split: list.splits)

lemma is_digit_chars: "is_digit CHR ''0''" "\<not> is_digit CHR ''-''"
  by (simp_all add: is_digit_def byte_def)

lemma lex_number_dec:
  assumes "number_end rest"
  shows "lex_number (dec n @ rest) = Some (dec n, rest)"
proof -
  obtain c t where ct: "dec n = c # t" by (cases "dec n") auto
  then have dig: "is_digit c" "\<forall>c \<in> set t. is_digit c" using dec_digits [of n] by auto
  then have "c \<noteq> CHR ''-''" using is_digit_chars by auto
  moreover have "lex_int (dec n @ rest) = Some (dec n, rest)"
    using dig takeWhile_digits [OF dig(2) assms] dec_no_leading_zero [of n t] ct
    by (auto simp: lex_int_def)
  moreover have "lex_frac rest = Some ([], rest)" "lex_exp rest = Some ([], rest)"
    using assms by (auto simp: lex_frac_def lex_exp_def number_end_def split: list.splits)
  ultimately show ?thesis by (simp add: lex_number_def ct)
qed

section \<open>Documents round-trip\<close>

fun wf_json :: "json \<Rightarrow> bool" where
  "wf_json (JNumber t) \<longleftrightarrow> t = dec (undec t)"
| "wf_json (JString s) \<longleftrightarrow> valid_utf8 s"
| "wf_json (JArray js) \<longleftrightarrow> list_all wf_json js"
| "wf_json (JObject kvs) \<longleftrightarrow> list_all (\<lambda>(k, j). valid_utf8 k \<and> wf_json j) kvs"
| "wf_json _ \<longleftrightarrow> True"

fun json_depth :: "json \<Rightarrow> nat" where
  "json_depth (JArray js) = Suc (Max (insert 0 (set (map json_depth js))))"
| "json_depth (JObject kvs) = Suc (Max (insert 0 (set (map (\<lambda>(k, j). json_depth j) kvs))))"
| "json_depth _ = 0"

lemma print_first:
  assumes "wf_json j"
  obtains c t where "print j = c # t" "\<not> is_space c" "c \<noteq> CHR '']''"
proof -
  have "\<exists>c t. print j = c # t \<and> \<not> is_space c \<and> c \<noteq> CHR '']''"
  proof (cases j)
    case (JNumber t)
    then have t: "t = dec (undec t)" using assms by simp
    then obtain c u where cu: "t = c # u" using dec_not_Nil [of "undec t"] by (cases t) auto
    then have "c \<in> set (dec (undec t))" using t by (metis list.set_intros(1))
    then have "is_digit c" using dec_digits [of "undec t"] by blast
    with cu show ?thesis using JNumber by (auto simp: is_digit_def is_space_def byte_def)
  qed (auto simp: is_space_def byte_def quote_def)
  then show thesis using that by blast
qed

lemma skip_space_Cons [simp]: "\<not> is_space c \<Longrightarrow> skip_space (c # s) = c # s"
  by (simp add: skip_space_def)

lemma not_space [simp]: "\<not> is_space CHR ''{''" "\<not> is_space CHR ''}''" "\<not> is_space CHR ''[''"
  "\<not> is_space CHR '']''" "\<not> is_space CHR '',''" "\<not> is_space CHR '':''" "\<not> is_space CHR 0x22"
  by (simp_all add: is_space_def byte_def)

lemma number_end_Cons [simp]: "number_end (CHR '']'' # s)" "number_end (CHR '','' # s)"
  "number_end (CHR ''}'' # s)"
  by (simp_all add: number_end_def is_digit_def byte_def)

definition reads :: "json \<Rightarrow> bool" where
  "reads j \<longleftrightarrow> (\<forall>f d rest. length (print j) < f \<longrightarrow> json_depth j + d \<le> maxNestingDepth \<longrightarrow>
     number_end rest \<longrightarrow> parse_value f d (print j @ rest) = Some (j, rest))"

lemma readsD:
  "reads j \<Longrightarrow> length (print j) < f \<Longrightarrow> json_depth j + d \<le> maxNestingDepth \<Longrightarrow> number_end rest \<Longrightarrow>
   parse_value f d (print j @ rest) = Some (j, rest)"
  by (simp add: reads_def)

lemma parse_elements_print:
  assumes "js \<noteq> []" and "\<forall>j \<in> set js. reads j \<and> json_depth j + d \<le> maxNestingDepth"
    and "Suc (length (sep (map print js))) < f"
  shows "parse_elements f d (sep (map print js) @ CHR '']'' # rest) = Some (js, rest)"
  using assms
proof (induction js arbitrary: f)
  case (Cons j js)
  obtain f' where f: "f = Suc f'" using Cons.prems(3) by (cases f) auto
  show ?case
  proof (cases js)
    case Nil
    then show ?thesis using Cons.prems f readsD [of j f' d "CHR '']'' # rest"] by simp
  next
    case (Cons j' js')
    have IH: "parse_elements f' d (sep (map print js) @ CHR '']'' # rest) = Some (js, rest)"
      using Cons.prems f Cons by (intro Cons.IH) auto
    have "parse_value f' d (print j @ CHR '','' # sep (map print js) @ CHR '']'' # rest) =
        Some (j, CHR '','' # sep (map print js) @ CHR '']'' # rest)"
      using Cons.prems f Cons by (intro readsD) auto
    then show ?thesis using IH f Cons by simp
  qed
qed simp


abbreviation print_member :: "string \<times> json \<Rightarrow> string" where
  "print_member \<equiv> \<lambda>(k, j). quote k @ CHR '':'' # print j"

lemma parse_members_print:
  assumes "kvs \<noteq> []"
    and "\<forall>(k, j) \<in> set kvs. valid_utf8 k \<and> wf_json j \<and> reads j \<and> json_depth j + d \<le> maxNestingDepth"
    and "Suc (length (sep (map print_member kvs))) < f"
  shows "parse_members f d (sep (map print_member kvs) @ CHR ''}'' # rest) = Some (kvs, rest)"
  using assms
proof (induction kvs arbitrary: f)
  case (Cons kj kvs)
  obtain k j where kj: "kj = (k, j)" by (cases kj)
  obtain f' where f: "f = Suc f'" using Cons.prems(3) by (cases f) auto
  have k: "valid_utf8 k" and j: "reads j" "json_depth j + d \<le> maxNestingDepth"
    using Cons.prems(2) kj by auto
  note q = unquote_escape [OF k]
  show ?case
  proof (cases kvs)
    case Nil
    have "parse_value f' d (print j @ CHR ''}'' # rest) = Some (j, CHR ''}'' # rest)"
      using Cons.prems(3) f kj Nil j by (intro readsD) (auto simp: quote_def)
    then show ?thesis using f kj Nil q by (simp add: quote_def)
  next
    case (Cons m kvs')
    have IH: "parse_members f' d (sep (map print_member kvs) @ CHR ''}'' # rest) = Some (kvs, rest)"
      using Cons.prems f Cons kj by (intro Cons.IH) auto
    have "parse_value f' d (print j @ CHR '','' # sep (map print_member kvs) @ CHR ''}'' # rest) =
        Some (j, CHR '','' # sep (map print_member kvs) @ CHR ''}'' # rest)"
      using Cons.prems(3) f kj Cons j by (intro readsD) (auto simp: quote_def)
    then show ?thesis using IH f kj Cons q by (simp add: quote_def)
  qed
qed simp

lemma sep_first: "sep ((c # x) # xs) = c # sep (x # xs)"
  by (cases xs) simp_all

lemma json_depth_elem:
  "j \<in> set js \<Longrightarrow> json_depth j + Suc d \<le> json_depth (JArray js) + d"
  "(k, j) \<in> set kvs \<Longrightarrow> json_depth j + Suc d \<le> json_depth (JObject kvs) + d"
proof -
  show "j \<in> set js \<Longrightarrow> json_depth j + Suc d \<le> json_depth (JArray js) + d"
    using Max_ge [of "insert 0 (set (map json_depth js))" "json_depth j"] by simp
  assume "(k, j) \<in> set kvs"
  then have "json_depth j \<in> insert 0 (set (map (\<lambda>(k, j). json_depth j) kvs))" by force
  from Max_ge [OF _ this] show "json_depth j + Suc d \<le> json_depth (JObject kvs) + d" by simp
qed

lemma reads_JArray:
  assumes "\<forall>j \<in> set js. wf_json j \<and> reads j"
  shows "reads (JArray js)"
  unfolding reads_def
proof (intro allI impI)
  fix f d rest
  assume len: "length (print (JArray js)) < f" and dep: "json_depth (JArray js) + d \<le> maxNestingDepth"
  obtain f' where f: "f = Suc f'" using len by (cases f) auto
  have d: "d < maxNestingDepth" using dep by simp
  show "parse_value f d (print (JArray js) @ rest) = Some (JArray js, rest)"
  proof (cases js)
    case Nil
    then show ?thesis using f d by simp
  next
    case (Cons j js')
    then obtain c t where ct: "print j = c # t" "\<not> is_space c" "c \<noteq> CHR '']''"
      using assms print_first [of j] by auto
    have "json_depth x + Suc d \<le> maxNestingDepth" if "x \<in> set js" for x
      using json_depth_elem(1) [OF that, of d] dep by (rule order_trans)
    then have "parse_elements f' (Suc d) (sep (map print js) @ CHR '']'' # rest) = Some (js, rest)"
      using assms len f Cons by (intro parse_elements_print) auto
    then show ?thesis using f d Cons ct by (simp add: sep_first)
  qed
qed

lemma reads_JObject:
  assumes "\<forall>(k, j) \<in> set kvs. valid_utf8 k \<and> wf_json j \<and> reads j"
  shows "reads (JObject kvs)"
  unfolding reads_def
proof (intro allI impI)
  fix f d rest
  assume len: "length (print (JObject kvs)) < f"
    and dep: "json_depth (JObject kvs) + d \<le> maxNestingDepth"
  obtain f' where f: "f = Suc f'" using len by (cases f) auto
  have d: "d < maxNestingDepth" using dep by simp
  show "parse_value f d (print (JObject kvs) @ rest) = Some (JObject kvs, rest)"
  proof (cases kvs)
    case Nil
    then show ?thesis using f d by simp
  next
    case (Cons kj kvs')
    have "json_depth x + Suc d \<le> maxNestingDepth" if "(k, x) \<in> set kvs" for k x
      using json_depth_elem(2) [OF that, of d] dep by (rule order_trans)
    then have "parse_members f' (Suc d) (sep (map print_member kvs) @ CHR ''}'' # rest) =
        Some (kvs, rest)"
      using assms len f Cons by (intro parse_members_print) auto
    then show ?thesis using f d Cons by (cases kj) (simp add: quote_def sep_first)
  qed
qed

lemma is_digit_first:
  "is_digit c \<Longrightarrow> \<not> is_space c \<and> c \<noteq> CHR ''{'' \<and> c \<noteq> CHR ''['' \<and> c \<noteq> CHR 0x22 \<and> c \<noteq> CHR ''n'' \<and>
     c \<noteq> CHR ''t'' \<and> c \<noteq> CHR ''f''"
  by (auto simp: is_digit_def is_space_def byte_def)

lemma reads_JNumber: "reads (JNumber (dec n))"
  unfolding reads_def
proof (intro allI impI)
  fix f d rest
  assume len: "length (print (JNumber (dec n))) < f" and rest: "number_end rest"
  obtain f' where f: "f = Suc f'" using len by (cases f) auto
  obtain c t where ct: "dec n = c # t" by (cases "dec n") auto
  then have "is_digit c" using dec_digits [of n] by auto
  from is_digit_first [OF this] show "parse_value f d (print (JNumber (dec n)) @ rest) = Some (JNumber (dec n), rest)"
    using f ct lex_number_dec [OF rest, of n] by simp
qed

lemma reads_wf: "wf_json j \<Longrightarrow> reads j"
proof (induction j)
  case (JNumber t)
  then show ?case using reads_JNumber [of "undec t"] by simp
next
  case (JString s)
  show ?case unfolding reads_def
  proof (intro allI impI)
    fix f :: nat and d rest
    assume "length (print (JString s)) < f"
    then obtain f' where f: "f = Suc f'" by (cases f) auto
    then show "parse_value f d (print (JString s) @ rest) = Some (JString s, rest)"
      using JString unquote_escape [of s rest] by (simp add: quote_def)
  qed
next
  case (JArray js)
  then show ?case by (intro reads_JArray) (auto simp: list_all_iff)
next
  case (JObject kvs)
  then show ?case by (intro reads_JObject) (fastforce simp: list_all_iff)
next
  case JNull
  show ?case unfolding reads_def
  proof (intro allI impI)
    fix f :: nat and d rest
    assume "length (print JNull) < f"
    then obtain f' where f: "f = Suc f'" by (cases f) auto
    then show "parse_value f d (print JNull @ rest) = Some (JNull, rest)"
      by (simp add: is_space_def byte_def)
  qed
next
  case (JBool b)
  show ?case unfolding reads_def
  proof (intro allI impI)
    fix f :: nat and d rest
    assume "length (print (JBool b)) < f"
    then obtain f' where f: "f = Suc f'" by (cases f) auto
    then show "parse_value f d (print (JBool b) @ rest) = Some (JBool b, rest)"
      by (simp add: is_space_def byte_def)
  qed
qed

lemma parse_print:
  assumes "wf_json j" and "json_depth j \<le> maxNestingDepth"
  shows "parse (print j) = Some j"
  using readsD [OF reads_wf [OF assms(1)], of "Suc (2 * length (print j))" 0 "[]"] assms(2)
  by (simp add: parse_def number_end_def skip_space_def)


section \<open>Twice the length of the text is enough fuel\<close>

lemma length_skip_space: "skip_space s = c # t \<Longrightarrow> length t < length s"
  unfolding skip_space_def using length_dropWhile_le [of is_space s] by simp

lemma emit_eq_Some: "emit u r = Some (x, t) \<longleftrightarrow> (\<exists>y. r = Some (y, t) \<and> x = u @ y)"
  by (auto simp: emit_def)

lemma unquote_step:
  assumes "unquote (a # s) = Some (x, t)"
  shows "t = s \<or> (\<exists>w y. unquote w = Some (y, t) \<and> length w \<le> length s)"
proof -
  have drop: "unquote (drop k u) = Some (y, t) \<Longrightarrow> length u \<le> length s \<Longrightarrow>
      \<exists>w y. unquote w = Some (y, t) \<and> length w \<le> length s" for k u y
    by (rule exI [of _ "drop k u"]) auto
  have keep: "unquote u = Some (y, t) \<Longrightarrow> length u \<le> length s \<Longrightarrow>
      \<exists>w y. unquote w = Some (y, t) \<and> length w \<le> length s" for u y
    by blast
  show ?thesis
    using assms unfolding unquote.simps(2) [of a s] emit_eq_Some
    by (auto simp: emit_eq_Some
        split: if_splits list.splits option.splits prod.splits intro: drop keep)
qed

lemma length_unquote: "unquote s = Some (x, t) \<Longrightarrow> length t < length s"
proof (induction s arbitrary: x rule: length_induct)
  case (1 s)
  show ?case
  proof (cases s)
    case Nil
    then show ?thesis using "1.prems" by (simp add: unquote.simps(1))
  next
    case (Cons a s')
    from unquote_step [OF "1.prems" [unfolded Cons]] show ?thesis
    proof (elim disjE exE conjE)
      fix w y assume "unquote w = Some (y, t)" and w: "length w \<le> length s'"
      moreover have "length w < length s" using w Cons by simp
      ultimately have "length t < length w" using "1.IH" by blast
      then show ?thesis using w Cons by simp
    qed (simp add: Cons)
  qed
qed

lemma length_lex_number: "lex_number s = Some (x, t) \<Longrightarrow> length t < length s"
proof -
  have int: "lex_int s = Some (x, t) \<Longrightarrow> length t < length s" for s x t
    using length_dropWhile_le [of is_digit "tl s"]
    by (auto simp: lex_int_def split: list.splits if_splits)
  have frac: "lex_frac s = Some (x, t) \<Longrightarrow> length t \<le> length s" for s x t
    using length_dropWhile_le [of is_digit "tl s"]
    by (auto simp: lex_frac_def split: list.splits if_splits)
  have exp: "lex_exp s = Some (x, t) \<Longrightarrow> length t \<le> length s" for s x t
    using length_dropWhile_le [of is_digit "tl s"] length_dropWhile_le [of is_digit "tl (tl s)"]
    by (auto simp: lex_exp_def Let_def split: list.splits if_splits prod.splits)
  assume "lex_number s = Some (x, t)"
  then show ?thesis
    by (auto simp: lex_number_def Let_def split: list.splits if_splits option.splits prod.splits
        dest!: int frac exp)
qed

lemma length_literal: "literal w s = Some t \<Longrightarrow> length t \<le> length s"
  by (induction w s rule: literal.induct) (auto split: if_splits)

lemma length_parse:
  "(\<forall>d s j t. parse_value f d s = Some (j, t) \<longrightarrow> length t < length s) \<and>
   (\<forall>d s js t. parse_elements f d s = Some (js, t) \<longrightarrow> length t < length s) \<and>
   (\<forall>d s kvs t. parse_members f d s = Some (kvs, t) \<longrightarrow> length t < length s)"
proof (induction f)
  case 0
  show ?case by simp
next
  case (Suc f)
  then have v: "parse_value f d s = Some (j, t) \<Longrightarrow> length t < length s"
    and e: "parse_elements f d s = Some (js, t) \<Longrightarrow> length t < length s"
    and m: "parse_members f d s = Some (kvs, t) \<Longrightarrow> length t < length s"
    for d s t j js kvs by blast+
  note short = length_skip_space length_unquote length_lex_number length_literal
  have "parse_value (Suc f) d s = Some (j, t) \<Longrightarrow> length t < length s" for d s j t
    by (auto split: list.splits if_splits option.splits prod.splits dest!: short e m)
  moreover have "parse_elements (Suc f) d s = Some (js, t) \<Longrightarrow> length t < length s" for d s js t
    by (auto split: list.splits if_splits option.splits prod.splits dest!: short v e)
  moreover have "parse_members (Suc f) d s = Some (kvs, t) \<Longrightarrow> length t < length s" for d s kvs t
    by (auto split: list.splits if_splits option.splits prod.splits dest!: short v m)
  ultimately show ?case by blast
qed

lemmas length_parse_value = length_parse [THEN conjunct1, rule_format]

lemma parse_fuel:
  "(\<forall>d s. 2 * length s < f \<longrightarrow> parse_value (Suc f) d s = parse_value f d s) \<and>
   (\<forall>d s. Suc (2 * length s) < f \<longrightarrow> parse_elements (Suc f) d s = parse_elements f d s) \<and>
   (\<forall>d s. 2 * length s < f \<longrightarrow> parse_members (Suc f) d s = parse_members f d s)"
proof (induction f)
  case 0
  show ?case by simp
next
  case (Suc f)
  have v: "2 * length s < f \<Longrightarrow> parse_value (Suc f) d s = parse_value f d s"
    and e: "Suc (2 * length s) < f \<Longrightarrow> parse_elements (Suc f) d s = parse_elements f d s"
    and m: "2 * length s < f \<Longrightarrow> parse_members (Suc f) d s = parse_members f d s" for d s
    using Suc by blast+
  have "parse_value (Suc (Suc f)) d s = parse_value (Suc f) d s" if "2 * length s < Suc f" for d s
  proof (cases "skip_space s")
    case (Cons c t)
    then have t: "Suc (2 * length t) < f" "2 * length t < f"
      using length_skip_space [OF Cons] that by simp_all
    show ?thesis
      unfolding parse_value.simps(2) [of "Suc f" d s] parse_value.simps(2) [of f d s] Cons
      by (simp only: list.case e [OF t(1)] m [OF t(2)])
  qed simp
  moreover have "parse_elements (Suc (Suc f)) d s = parse_elements (Suc f) d s"
    if "Suc (2 * length s) < Suc f" for d s
  proof -
    have "parse_elements (Suc f) d u = parse_elements f d u"
      if "parse_value f d s = Some (j, t)" "skip_space t = c # u" for j t c u
      using length_parse_value [OF that(1)] length_skip_space [OF that(2)]
        \<open>Suc (2 * length s) < Suc f\<close> by (intro e) simp
    then show ?thesis
      unfolding parse_elements.simps(2) [of "Suc f" d s] parse_elements.simps(2) [of f d s]
      using that v [of s d]
      by (simp del: parse_elements.simps parse_value.simps split: option.splits list.splits)
  qed
  moreover have "parse_members (Suc (Suc f)) d s = parse_members (Suc f) d s"
    if len: "2 * length s < Suc f" for d s
  proof -
    have "parse_value (Suc f) d s3 = parse_value f d s3"
      if "skip_space s = q # s1" "unquote s1 = Some (k, s2)" "skip_space s2 = c # s3" for q s1 k s2 c s3
      using length_skip_space [OF that(1)] length_unquote [OF that(2)] length_skip_space [OF that(3)]
        len by (intro v) simp
    moreover have "parse_members (Suc f) d u = parse_members f d u"
      if "skip_space s = q # s1" "unquote s1 = Some (k, s2)" "skip_space s2 = c # s3"
        "parse_value f d s3 = Some (j, t)" "skip_space t = c' # u" for q s1 k s2 c s3 j t c' u
      using length_skip_space [OF that(1)] length_unquote [OF that(2)] length_skip_space [OF that(3)]
        length_parse_value [OF that(4)] length_skip_space [OF that(5)] len by (intro m) simp
    ultimately show ?thesis
      unfolding parse_members.simps(2) [of "Suc f" d s] parse_members.simps(2) [of f d s]
      by (simp del: parse_members.simps parse_value.simps split: option.splits list.splits)
  qed
  ultimately show ?case by blast
qed

lemma parse_value_fuel:
  assumes "2 * length s < f" and "f \<le> g"
  shows "parse_value g d s = parse_value f d s"
  using assms(2)
proof (induction rule: dec_induct)
  case (step g)
  then have "parse_value (Suc g) d s = parse_value g d s"
    using parse_fuel [THEN conjunct1, rule_format, of s g d] assms(1) by linarith
  then show ?case using step by simp
qed simp

section \<open>Printed text has no control characters\<close>

lemma hex_digit_ge: "32 \<le> byte (hex_digit n)" if "n < 16"
  using that by (auto simp: hex_digit_def byte_char_of)

lemma u_escape_ge: "r div 4096 < 16 \<Longrightarrow> \<forall>c \<in> set (u_escape r). 32 \<le> byte c"
  by (auto simp: u_escape_def byte_def [of "CHR 0x5C"] byte_def [of "CHR ''u''"] intro: hex_digit_ge)

lemma encode_rune_ge:
  assumes "is_rune r" and "32 \<le> r"
  shows "\<forall>c \<in> set (encode_rune r). 32 \<le> byte c"
proof -
  have "r div 262144 \<le> 4" using assms(1) by (auto simp: is_rune_def)
  moreover have "r < 65536 \<Longrightarrow> r div 4096 < 16" "r < 2048 \<Longrightarrow> r div 64 < 32" by auto
  ultimately show ?thesis using assms by (simp add: encode_rune_def byte_char_of)
qed

lemma escape_rune_ge: "is_rune r \<Longrightarrow> \<forall>c \<in> set (escape_rune r). 32 \<le> byte c"
proof -
  assume r: "is_rune r"
  show ?thesis
  proof (cases "r < 32 \<or> r = 60 \<or> r = 62 \<or> r = 38 \<or> r = 0x2028 \<or> r = 0x2029")
    case True
    then have "r div 4096 < 16" by auto
    then have "\<forall>c \<in> set (u_escape r). 32 \<le> byte c" by (rule u_escape_ge)
    then show ?thesis using True by (auto simp: escape_rune_def byte_def)
  next
    case False
    then show ?thesis using encode_rune_ge [OF r] by (auto simp: escape_rune_def byte_def)
  qed
qed

lemma escape_ge: "\<forall>c \<in> set (escape s). 32 \<le> byte c"
proof (induction s rule: escape.induct)
  case (2 a s)
  have "\<forall>c \<in> set (u_escape 0xFFFD). 32 \<le> byte c" by (intro u_escape_ge) simp
  moreover have "\<forall>c \<in> set (escape_rune r). 32 \<le> byte c" if "decode_rune (a # s) = Some (r, n)" for r n
    using decode_rune_Some [OF that] by (intro escape_rune_ge) blast
  ultimately show ?case using 2
    by (cases "decode_rune (a # s)") auto
qed simp

lemma quote_ge: "\<forall>c \<in> set (quote s). 32 \<le> byte c"
  using escape_ge [of s] by (auto simp: quote_def byte_def)

lemma sep_ge:
  "(\<And>x. x \<in> set xs \<Longrightarrow> \<forall>c \<in> set x. 32 \<le> byte c) \<Longrightarrow> \<forall>c \<in> set (sep xs). 32 \<le> byte c"
  by (induction xs rule: sep.induct) (auto simp: byte_def)

text \<open>Every document whose numbers are decimal numerals, whatever its strings are.\<close>

fun numerals :: "json \<Rightarrow> bool" where
  "numerals (JNumber t) \<longleftrightarrow> (\<forall>c \<in> set t. is_digit c)"
| "numerals (JArray js) \<longleftrightarrow> list_all numerals js"
| "numerals (JObject kvs) \<longleftrightarrow> list_all (\<lambda>(k, j). numerals j) kvs"
| "numerals _ \<longleftrightarrow> True"

lemma print_ge: "numerals j \<Longrightarrow> \<forall>c \<in> set (print j). 32 \<le> byte c"
proof (induction j)
  case (JArray js)
  then have "\<forall>c \<in> set (sep (map print js)). 32 \<le> byte c"
    by (intro sep_ge) (auto simp: list_all_iff)
  then show ?case by (auto simp: byte_def)
next
  case (JObject kvs)
  have "\<forall>c \<in> set (sep (map print_member kvs)). 32 \<le> byte c"
  proof (rule sep_ge)
    fix x assume "x \<in> set (map print_member kvs)"
    then obtain k j where kj: "(k, j) \<in> set kvs" "x = quote k @ CHR '':'' # print j" by auto
    then have "\<forall>c \<in> set (print j). 32 \<le> byte c" using JObject by (fastforce simp: list_all_iff)
    then show "\<forall>c \<in> set x. 32 \<le> byte c" using kj(2) quote_ge [of k] by (auto simp: byte_def)
  qed
  then show ?case by (auto simp: byte_def)
next
  case (JString s)
  then show ?case using quote_ge [of s] by simp
next
  case (JNumber t)
  then show ?case by (auto simp: is_digit_def)
qed (simp_all add: byte_def)

end
