(* ===== verification/Go_Encoding.thy ===== *)
theory Go_Encoding
  imports Go_JSON "HOL-Library.List_Lexorder" "HOL-Library.Char_ord"
begin

text \<open>
  The rest of Go's standard library that the program's encodings use: storing a parsed document
  into a Go value (\<open>json.Unmarshal\<close>), building the document of one (\<open>json.Marshal\<close>), the
  CRC-32 of \<open>hash/crc32\<close>, and \<open>TrimSpace\<close> and \<open>Split\<close> of \<open>bytes\<close> and \<open>strings\<close>.

  Storing returns the value and whether no type error occurred: Go goes on after a type error, so
  the value keeps what could be stored.
\<close>

unbundle bit_operations_syntax

section \<open>Storing a document\<close>

definition upper :: "char \<Rightarrow> char" where
  "upper c = (if 97 \<le> byte c \<and> byte c \<le> 122 then char_of (byte c - 32) else c)"

text \<open>Member names are matched to field names by case folding; besides the ASCII letters, the
  long s (U+017F) and the Kelvin sign (U+212A) fold to ASCII.\<close>

function fold_name :: "string \<Rightarrow> string" where
  "fold_name [] = []"
| "fold_name (a # s) =
     (if a = CHR 0xC5 \<and> take 1 s = [CHR 0xBF] then CHR ''S'' # fold_name (drop 1 s)
      else if a = CHR 0xE2 \<and> take 2 s = [CHR 0x84, CHR 0xAA] then CHR ''K'' # fold_name (drop 2 s)
      else upper a # fold_name s)"
  by pat_completeness auto
termination
  by (relation "measure length") (auto simp: less_Suc_eq_le)

declare fold_name.simps [simp del]

type_synonym 'a setter = "json \<Rightarrow> 'a \<Rightarrow> 'a \<times> bool"

fun store_fields :: "(string \<times> 'a setter) list \<Rightarrow> (string \<times> json) list \<Rightarrow> 'a \<Rightarrow> 'a \<times> bool" where
  "store_fields fs [] x = (x, True)"
| "store_fields fs ((k, j) # kvs) x =
     (case find (\<lambda>(n, _). fold_name n = fold_name k) fs of
        None \<Rightarrow> store_fields fs kvs x
      | Some (_, st) \<Rightarrow>
          (case st j x of (y, ok) \<Rightarrow>
             (case store_fields fs kvs y of (z, ok') \<Rightarrow> (z, ok \<and> ok'))))"

definition store_struct :: "(string \<times> 'a setter) list \<Rightarrow> 'a setter" where
  "store_struct fs j x =
     (case j of JNull \<Rightarrow> (x, True) | JObject kvs \<Rightarrow> store_fields fs kvs x | _ \<Rightarrow> (x, False))"

definition store_string :: "(string \<Rightarrow> 'a \<Rightarrow> 'a) \<Rightarrow> 'a setter" where
  "store_string upd j x =
     (case j of JString s \<Rightarrow> (upd s x, True) | JNull \<Rightarrow> (x, True) | _ \<Rightarrow> (x, False))"

definition store_bool :: "(bool \<Rightarrow> 'a \<Rightarrow> 'a) \<Rightarrow> 'a setter" where
  "store_bool upd j x =
     (case j of JBool b \<Rightarrow> (upd b x, True) | JNull \<Rightarrow> (x, True) | _ \<Rightarrow> (x, False))"

text \<open>\<open>strconv.ParseUint\<close> with base 10 and the width of the field.\<close>

definition parse_uint :: "nat \<Rightarrow> string \<Rightarrow> nat option" where
  "parse_uint w t = (if t \<noteq> [] \<and> list_all is_digit t \<and> undec t < 2 ^ w then Some (undec t) else None)"

definition store_u64 :: "(u64 \<Rightarrow> 'a \<Rightarrow> 'a) \<Rightarrow> 'a setter" where
  "store_u64 upd j x =
     (case j of
        JNumber t \<Rightarrow>
          (case parse_uint 64 t of Some n \<Rightarrow> (upd (of_nat n) x, True) | None \<Rightarrow> (x, False))
      | JNull \<Rightarrow> (x, True)
      | _ \<Rightarrow> (x, False))"

definition store_u32_ptr :: "(32 word option \<Rightarrow> 'a \<Rightarrow> 'a) \<Rightarrow> 'a setter" where
  "store_u32_ptr upd j x =
     (case j of
        JNumber t \<Rightarrow>
          (case parse_uint 32 t of Some n \<Rightarrow> (upd (Some (of_nat n)) x, True)
           | None \<Rightarrow> (upd (Some 0) x, False))
      | JNull \<Rightarrow> (upd None x, True)
      | _ \<Rightarrow> (upd (Some 0) x, False))"

text \<open>A \<open>map[string]string\<close>: null makes it nil, an object adds its members; a member that is no
  string is stored as the zero value.\<close>

fun store_members :: "(string \<times> json) list \<Rightarrow> smap \<Rightarrow> smap \<times> bool" where
  "store_members [] m = (m, True)"
| "store_members ((k, j) # kvs) m =
     (case store_string (\<lambda>s _. s) j '''' of (v, ok) \<Rightarrow>
        (case store_members kvs (fmupd k v m) of (m', ok') \<Rightarrow> (m', ok \<and> ok')))"

definition store_map :: "smap option setter" where
  "store_map j m =
     (case j of
        JNull \<Rightarrow> (None, True)
      | JObject kvs \<Rightarrow>
          (case store_members kvs (case m of None \<Rightarrow> fmempty | Some m \<Rightarrow> m) of
             (m', ok) \<Rightarrow> (Some m', ok))
      | _ \<Rightarrow> (m, False))"

definition unmarshal :: "'a setter \<Rightarrow> string \<Rightarrow> 'a \<Rightarrow> 'a \<times> bool" where
  "unmarshal st data x = (case parse data of None \<Rightarrow> (x, False) | Some j \<Rightarrow> st j x)"

section \<open>Building a document\<close>

definition json_u64 :: "u64 \<Rightarrow> json" where
  "json_u64 w = JNumber (dec (unat w))"

definition json_u32 :: "32 word \<Rightarrow> json" where
  "json_u32 w = JNumber (dec (unat w))"

text \<open>Members with the option \<open>omitempty\<close>.\<close>

definition opt_string :: "string \<Rightarrow> string \<Rightarrow> (string \<times> json) list" where
  "opt_string k s = (if s = '''' then [] else [(k, JString s)])"

definition opt_u64 :: "string \<Rightarrow> u64 \<Rightarrow> (string \<times> json) list" where
  "opt_u64 k w = (if w = 0 then [] else [(k, json_u64 w)])"

text \<open>\<open>json.Marshal\<close> writes the members of a map in the order of their keys.\<close>

definition json_map :: "smap option \<Rightarrow> json" where
  "json_map m =
     (case m of
        None \<Rightarrow> JNull
      | Some m \<Rightarrow> JObject (map (\<lambda>(k, v). (k, JString v)) (sorted_list_of_fmap m)))"

definition marshal :: "json \<Rightarrow> string" where
  "marshal j = print j"

section \<open>CRC-32\<close>

fun crc32_bit :: "nat \<Rightarrow> 32 word \<Rightarrow> 32 word" where
  "crc32_bit 0 c = c"
| "crc32_bit (Suc n) c =
     crc32_bit n (if odd c then drop_bit 1 c XOR 0xEDB88320 else drop_bit 1 c)"

definition crc32_byte :: "char \<Rightarrow> 32 word \<Rightarrow> 32 word" where
  "crc32_byte b c = crc32_bit 8 (c XOR of_nat (byte b))"

definition ChecksumIEEE :: "string \<Rightarrow> 32 word" where
  "ChecksumIEEE s = fold crc32_byte s 0xFFFFFFFF XOR 0xFFFFFFFF"

section \<open>Trimming and splitting\<close>

text \<open>The runes of \<open>unicode.IsSpace\<close>.\<close>

definition space_runes :: "nat list" where
  "space_runes = [9, 10, 11, 12, 13, 32, 0x85, 0xA0, 0x1680, 0x2000, 0x2001, 0x2002, 0x2003,
     0x2004, 0x2005, 0x2006, 0x2007, 0x2008, 0x2009, 0x200A, 0x2028, 0x2029, 0x202F, 0x205F, 0x3000]"

definition has_prefix :: "string \<Rightarrow> string \<Rightarrow> bool" where
  "has_prefix p s \<longleftrightarrow> take (length p) s = p"

function trim_left :: "string \<Rightarrow> string" where
  "trim_left s =
     (case find (\<lambda>r. has_prefix (encode_rune r) s) space_runes of
        None \<Rightarrow> s
      | Some r \<Rightarrow> trim_left (drop (length (encode_rune r)) s))"
  by pat_completeness auto
termination
proof (relation "measure length", goal_cases)
  case (2 s r)
  then have "has_prefix (encode_rune r) s" by (auto simp: find_Some_iff)
  then have "s \<noteq> []" using encode_rune_not_Nil [of r] by (metis has_prefix_def take_Nil)
  then show ?case by (simp add: length_greater_0_conv)
qed simp

definition has_suffix :: "string \<Rightarrow> string \<Rightarrow> bool" where
  "has_suffix p s \<longleftrightarrow> length p \<le> length s \<and> drop (length s - length p) s = p"

function trim_right :: "string \<Rightarrow> string" where
  "trim_right s =
     (case find (\<lambda>r. has_suffix (encode_rune r) s) space_runes of
        None \<Rightarrow> s
      | Some r \<Rightarrow> trim_right (take (length s - length (encode_rune r)) s))"
  by pat_completeness auto
termination
proof (relation "measure length", goal_cases)
  case (2 s r)
  then have "has_suffix (encode_rune r) s" by (auto simp: find_Some_iff)
  then have "length (encode_rune r) \<le> length s" by (auto simp: has_suffix_def)
  moreover have "0 < length (encode_rune r)" by (simp add: length_greater_0_conv [THEN iffD2])
  ultimately show ?case by (simp only: in_measure length_take)
qed simp

declare trim_left.simps [simp del] trim_right.simps [simp del]

definition TrimSpace :: "string \<Rightarrow> string" where
  "TrimSpace s = trim_right (trim_left s)"

text \<open>\<open>strings.Split\<close> by a one-byte separator.\<close>

fun Split :: "char \<Rightarrow> string \<Rightarrow> string list" where
  "Split c [] = [[]]"
| "Split c (a # s) =
     (if a = c then [] # Split c s else case Split c s of x # xs \<Rightarrow> (a # x) # xs | [] \<Rightarrow> [[a]])"

end
