(* ===== verification/Storage_Codec.thy ===== *)
theory Storage_Codec
  imports Storage_Types Go_Encoding
begin

text \<open>
  How package storage writes its data (\<open>internal/storage/types.go\<close>, \<open>wal.go\<close>): the JSON
  documents of the hard state, of a snapshot, of a command and of a line of the write-ahead log
  with its checksum, as the struct tags prescribe, and reading them back.  Every reader inverts
  its writer on strings that are well-formed UTF-8.
\<close>

section \<open>Commands\<close>

definition zero_Command :: Command where
  "zero_Command = \<lparr>cmd_Op = '''', cmd_Key = '''', cmd_Value = '''', cmd_Expected = ''''\<rparr>"

definition Command_json :: "Command \<Rightarrow> json" where
  "Command_json c = JObject ([(''op'', JString (cmd_Op c)), (''key'', JString (cmd_Key c))]
     @ opt_string ''value'' (cmd_Value c) @ opt_string ''expected'' (cmd_Expected c))"

definition Command_fields :: "(string \<times> Command setter) list" where
  "Command_fields =
     [(''op'', store_string (\<lambda>s c. c\<lparr>cmd_Op := s\<rparr>)),
      (''key'', store_string (\<lambda>s c. c\<lparr>cmd_Key := s\<rparr>)),
      (''value'', store_string (\<lambda>s c. c\<lparr>cmd_Value := s\<rparr>)),
      (''expected'', store_string (\<lambda>s c. c\<lparr>cmd_Expected := s\<rparr>))]"

section \<open>The hard state and the snapshot\<close>

definition HardState_json :: "HardState \<Rightarrow> json" where
  "HardState_json h = JObject ([(''current_term'', json_u64 (hs_CurrentTerm h))]
     @ opt_string ''voted_for'' (hs_VotedFor h) @ [(''commit_index'', json_u64 (hs_CommitIndex h))])"

definition HardState_fields :: "(string \<times> HardState setter) list" where
  "HardState_fields =
     [(''current_term'', store_u64 (\<lambda>w h. h\<lparr>hs_CurrentTerm := w\<rparr>)),
      (''voted_for'', store_string (\<lambda>s h. h\<lparr>hs_VotedFor := s\<rparr>)),
      (''commit_index'', store_u64 (\<lambda>w h. h\<lparr>hs_CommitIndex := w\<rparr>))]"

definition Snapshot_json :: "Snapshot \<Rightarrow> json" where
  "Snapshot_json s = JObject [(''last_included_index'', json_u64 (LastIncludedIndex s)),
     (''last_included_term'', json_u64 (LastIncludedTerm s)), (''data'', json_map (Data s))]"

definition Snapshot_fields :: "(string \<times> Snapshot setter) list" where
  "Snapshot_fields =
     [(''last_included_index'', store_u64 (\<lambda>w s. s\<lparr>LastIncludedIndex := w\<rparr>)),
      (''last_included_term'', store_u64 (\<lambda>w s. s\<lparr>LastIncludedTerm := w\<rparr>)),
      (''data'', \<lambda>j s. case store_map j (Data s) of (m, ok) \<Rightarrow> (s\<lparr>Data := m\<rparr>, ok))]"

section \<open>Lines of the write-ahead log\<close>

record walLine =
  wl_Type :: string
  wl_LastIncludedIndex :: u64
  wl_LastIncludedTerm :: u64
  wl_Index :: u64
  wl_Term :: u64
  wl_Command :: Command
  wl_CRC :: "32 word option"

definition zero_walLine :: walLine where
  "zero_walLine = \<lparr>wl_Type = '''', wl_LastIncludedIndex = 0, wl_LastIncludedTerm = 0,
     wl_Index = 0, wl_Term = 0, wl_Command = zero_Command, wl_CRC = None\<rparr>"

definition walLine_json :: "walLine \<Rightarrow> json" where
  "walLine_json l = JObject (opt_string ''type'' (wl_Type l)
     @ opt_u64 ''last_included_index'' (wl_LastIncludedIndex l)
     @ opt_u64 ''last_included_term'' (wl_LastIncludedTerm l)
     @ opt_u64 ''index'' (wl_Index l) @ opt_u64 ''term'' (wl_Term l)
     @ [(''command'', Command_json (wl_Command l))]
     @ (case wl_CRC l of None \<Rightarrow> [] | Some c \<Rightarrow> [(''crc'', json_u32 c)]))"

definition walLine_fields :: "(string \<times> walLine setter) list" where
  "walLine_fields =
     [(''type'', store_string (\<lambda>s l. l\<lparr>wl_Type := s\<rparr>)),
      (''last_included_index'', store_u64 (\<lambda>w l. l\<lparr>wl_LastIncludedIndex := w\<rparr>)),
      (''last_included_term'', store_u64 (\<lambda>w l. l\<lparr>wl_LastIncludedTerm := w\<rparr>)),
      (''index'', store_u64 (\<lambda>w l. l\<lparr>wl_Index := w\<rparr>)),
      (''term'', store_u64 (\<lambda>w l. l\<lparr>wl_Term := w\<rparr>)),
      (''command'', \<lambda>j l. case store_struct Command_fields j (wl_Command l) of (c, ok) \<Rightarrow>
         (l\<lparr>wl_Command := c\<rparr>, ok)),
      (''crc'', store_u32_ptr (\<lambda>c l. l\<lparr>wl_CRC := c\<rparr>))]"

definition walBaseRecordType :: string where
  "walBaseRecordType = ''base''"

definition walChecksum :: "walLine \<Rightarrow> 32 word" where
  "walChecksum line = ChecksumIEEE (marshal (walLine_json (line\<lparr>wl_CRC := None\<rparr>)))"

text \<open>\<open>Encoder.Encode\<close> writes the document and a newline in one write.\<close>

definition encodeWALLine :: "walLine \<Rightarrow> string" where
  "encodeWALLine line =
     (let sum = walChecksum line
      in marshal (walLine_json (line\<lparr>wl_CRC := Some sum\<rparr>)) @ [CHR 0x0A])"

definition encodeWALBase :: "u64 \<Rightarrow> u64 \<Rightarrow> string" where
  "encodeWALBase baseIndex baseTerm = encodeWALLine (zero_walLine
     \<lparr>wl_Type := walBaseRecordType, wl_LastIncludedIndex := baseIndex,
      wl_LastIncludedTerm := baseTerm\<rparr>)"

definition encodeWALEntry :: "LogEntry \<Rightarrow> string" where
  "encodeWALEntry entry = encodeWALLine (zero_walLine
     \<lparr>wl_Index := le_Index entry, wl_Term := le_Term entry, wl_Command := le_Command entry\<rparr>)"

datatype decodedWALLine = Base u64 u64 | Entry LogEntry

definition decodeWALLine :: "string \<Rightarrow> goerror + decodedWALLine" where
  "decodeWALLine line =
     (case unmarshal (store_struct walLine_fields) line zero_walLine of
        (raw, False) \<Rightarrow> Inl JSONError
      | (raw, True) \<Rightarrow>
          if (case wl_CRC raw of None \<Rightarrow> False | Some c \<Rightarrow> walChecksum raw \<noteq> c)
          then Inl (ErrorString ''checksum mismatch'')
          else if wl_Type raw = walBaseRecordType then
            Inr (Base (wl_LastIncludedIndex raw) (wl_LastIncludedTerm raw))
          else if wl_Type raw = '''' then
            Inr (Entry \<lparr>le_Index = wl_Index raw, le_Term = wl_Term raw, le_Command = wl_Command raw\<rparr>)
          else Inl (ErrorString ''unknown WAL record type %q''))"

section \<open>Field names\<close>

lemma fold_names [simp]:
  "fold_name ''op'' = ''OP''" "fold_name ''key'' = ''KEY''" "fold_name ''value'' = ''VALUE''"
  "fold_name ''expected'' = ''EXPECTED''" "fold_name ''current_term'' = ''CURRENT_TERM''"
  "fold_name ''voted_for'' = ''VOTED_FOR''" "fold_name ''commit_index'' = ''COMMIT_INDEX''"
  "fold_name ''last_included_index'' = ''LAST_INCLUDED_INDEX''"
  "fold_name ''last_included_term'' = ''LAST_INCLUDED_TERM''" "fold_name ''data'' = ''DATA''"
  "fold_name ''type'' = ''TYPE''" "fold_name ''index'' = ''INDEX''" "fold_name ''term'' = ''TERM''"
  "fold_name ''command'' = ''COMMAND''" "fold_name ''crc'' = ''CRC''"
  by code_simp+

section \<open>Storing inverts building\<close>

lemma parse_uint_dec: "n < 2 ^ w \<Longrightarrow> parse_uint w (dec n) = Some n"
  using dec_digits [of n] by (simp add: parse_uint_def undec_dec list_all_iff)

lemma store_u64_json [simp]: "store_u64 upd (json_u64 w) x = (upd w x, True)"
  using unat_max_u64 [of w] by (simp add: store_u64_def json_u64_def parse_uint_dec)

lemma store_u32_json [simp]: "store_u32_ptr upd (json_u32 w) x = (upd (Some w) x, True)"
  using unsigned_less [of w, where ?'a = nat] by (simp add: store_u32_ptr_def json_u32_def parse_uint_dec)

lemma store_string_json [simp]: "store_string upd (JString s) x = (upd s x, True)"
  by (simp add: store_string_def)

lemma store_fields_append:
  "store_fields fs (xs @ ys) x =
     (case store_fields fs xs x of (y, ok) \<Rightarrow>
        (case store_fields fs ys y of (z, ok') \<Rightarrow> (z, ok \<and> ok')))"
  by (induction fs xs x rule: store_fields.induct) (auto split: option.splits prod.splits)

text \<open>An omitted member is stored by leaving the zero value in place.\<close>

lemma store_opt_string:
  assumes "find (\<lambda>(n, _). fold_name n = fold_name k) fs = Some (k', store_string upd)"
    and "upd '''' x = x"
  shows "store_fields fs (opt_string k s) x = (upd s x, True)"
  using assms by (simp add: opt_string_def)

lemma store_opt_u64:
  assumes "find (\<lambda>(n, _). fold_name n = fold_name k) fs = Some (k', store_u64 upd)"
    and "upd 0 x = x"
  shows "store_fields fs (opt_u64 k w) x = (upd w x, True)"
  using assms by (simp add: opt_u64_def)

lemma store_Command: "store_struct Command_fields (Command_json c) zero_Command = (c, True)"
  by (cases c)
    (simp add: store_struct_def Command_json_def store_fields_append
      store_opt_string [where k = "''value''" and upd = "\<lambda>s c. c\<lparr>cmd_Value := s\<rparr>" and k' = "''value''"]
      store_opt_string [where k = "''expected''" and upd = "\<lambda>s c. c\<lparr>cmd_Expected := s\<rparr>"
        and k' = "''expected''"] Command_fields_def zero_Command_def)

lemma store_HardState: "store_struct HardState_fields (HardState_json h) zero_HardState = (h, True)"
  by (cases h)
    (simp add: store_struct_def HardState_json_def store_fields_append
      store_opt_string [where k = "''voted_for''" and upd = "\<lambda>s h. h\<lparr>hs_VotedFor := s\<rparr>"
        and k' = "''voted_for''"] HardState_fields_def zero_HardState_def)

lemma store_members_strings:
  "store_members (map (\<lambda>(k, v). (k, JString v)) kvs) m =
     (fold (\<lambda>(k, v) d. fmupd k v d) kvs m, True)"
  by (induction kvs arbitrary: m) auto

lemma store_map_json: "store_map (json_map m) None = (m, True)"
proof (cases m)
  case None
  then show ?thesis by (simp add: store_map_def json_map_def)
next
  case (Some d)
  then show ?thesis
    by (simp add: store_map_def json_map_def store_members_strings fold_fmupd_sorted_list)
qed

lemma store_Snapshot: "store_struct Snapshot_fields (Snapshot_json s) zero_Snapshot = (s, True)"
  by (cases s) (simp add: store_struct_def Snapshot_json_def Snapshot_fields_def zero_Snapshot_def
      store_map_json)

lemma store_walLine: "store_struct walLine_fields (walLine_json l) zero_walLine = (l, True)"
proof -
  have f: "find (\<lambda>(n, _). fold_name n = fold_name ''type'') walLine_fields =
      Some (''type'', store_string (\<lambda>s l. l\<lparr>wl_Type := s\<rparr>))"
    "find (\<lambda>(n, _). fold_name n = fold_name ''last_included_index'') walLine_fields =
      Some (''last_included_index'', store_u64 (\<lambda>w l. l\<lparr>wl_LastIncludedIndex := w\<rparr>))"
    "find (\<lambda>(n, _). fold_name n = fold_name ''last_included_term'') walLine_fields =
      Some (''last_included_term'', store_u64 (\<lambda>w l. l\<lparr>wl_LastIncludedTerm := w\<rparr>))"
    "find (\<lambda>(n, _). fold_name n = fold_name ''index'') walLine_fields =
      Some (''index'', store_u64 (\<lambda>w l. l\<lparr>wl_Index := w\<rparr>))"
    "find (\<lambda>(n, _). fold_name n = fold_name ''term'') walLine_fields =
      Some (''term'', store_u64 (\<lambda>w l. l\<lparr>wl_Term := w\<rparr>))"
    by (simp_all add: walLine_fields_def)
  have rest: "wl_Command l = zero_Command \<Longrightarrow>
      store_fields walLine_fields [(''command'', Command_json c)] l = (l\<lparr>wl_Command := c\<rparr>, True)"
    "wl_Command l = zero_Command \<Longrightarrow>
      store_fields walLine_fields [(''command'', Command_json c), (''crc'', json_u32 w)] l =
      (l\<lparr>wl_Command := c, wl_CRC := Some w\<rparr>, True)" for c w l
    by (simp_all add: walLine_fields_def store_Command)
  show ?thesis
    by (cases l) (simp add: store_struct_def walLine_json_def store_fields_append
        store_opt_string [OF f(1)] store_opt_u64 [OF f(2)] store_opt_u64 [OF f(3)]
        store_opt_u64 [OF f(4)] store_opt_u64 [OF f(5)] zero_walLine_def rest
        del: store_fields.simps(2) split: option.splits)
qed

section \<open>Documents of valid data\<close>

definition valid_Command :: "Command \<Rightarrow> bool" where
  "valid_Command c \<longleftrightarrow> valid_utf8 (cmd_Op c) \<and> valid_utf8 (cmd_Key c) \<and> valid_utf8 (cmd_Value c) \<and>
     valid_utf8 (cmd_Expected c)"

definition valid_Snapshot :: "Snapshot \<Rightarrow> bool" where
  "valid_Snapshot s \<longleftrightarrow> (case Data s of None \<Rightarrow> True | Some m \<Rightarrow>
     list_all (\<lambda>(k, v). valid_utf8 k \<and> valid_utf8 v) (sorted_list_of_fmap m))"

definition valid_entries :: "LogEntry list \<Rightarrow> bool" where
  "valid_entries es \<longleftrightarrow> list_all (\<lambda>e. valid_Command (le_Command e)) es"

lemma valid_names [simp]:
  "valid_utf8 ''op''" "valid_utf8 ''key''" "valid_utf8 ''value''" "valid_utf8 ''expected''"
  "valid_utf8 ''current_term''" "valid_utf8 ''voted_for''" "valid_utf8 ''commit_index''"
  "valid_utf8 ''last_included_index''" "valid_utf8 ''last_included_term''" "valid_utf8 ''data''"
  "valid_utf8 ''type''" "valid_utf8 ''index''" "valid_utf8 ''term''" "valid_utf8 ''command''"
  "valid_utf8 ''crc''" "valid_utf8 ''base''"
  by (rule valid_utf8_ascii, simp add: byte_def)+

lemma wf_numbers [simp]: "wf_json (json_u64 w)" "wf_json (json_u32 v)"
  by (simp_all add: json_u64_def json_u32_def undec_dec)

lemma wf_Command_json: "wf_json (Command_json c) \<longleftrightarrow> valid_Command c"
  by (auto simp: Command_json_def valid_Command_def opt_string_def)

lemma wf_HardState_json: "wf_json (HardState_json h) \<longleftrightarrow> valid_utf8 (hs_VotedFor h)"
  by (auto simp: HardState_json_def opt_string_def)

lemma wf_Snapshot_json: "wf_json (Snapshot_json s) \<longleftrightarrow> valid_Snapshot s"
  by (auto simp: Snapshot_json_def valid_Snapshot_def json_map_def list_all_iff split: option.splits)

lemma wf_walLine_json:
  "wf_json (walLine_json l) \<longleftrightarrow> valid_utf8 (wl_Type l) \<and> valid_Command (wl_Command l)"
  by (auto simp: walLine_json_def opt_string_def opt_u64_def wf_Command_json split: option.splits)

lemma depth_numbers [simp]: "json_depth (json_u64 w) = 0" "json_depth (json_u32 v) = 0"
  by (simp_all add: json_u64_def json_u32_def)

lemma depth_JObject_le:
  assumes "\<And>k j. (k, j) \<in> set kvs \<Longrightarrow> json_depth j \<le> n"
  shows "json_depth (JObject kvs) \<le> Suc n"
  using assms by (auto intro!: Max.boundedI)

lemma depth_documents:
  "json_depth (Command_json c) \<le> 1" "json_depth (HardState_json h) \<le> 1"
  "json_depth (Snapshot_json s) \<le> 2" "json_depth (walLine_json l) \<le> 2"
proof -
  have flat: "(\<And>k j. (k, j) \<in> set kvs \<Longrightarrow> json_depth j \<le> 0) \<Longrightarrow> json_depth (JObject kvs) \<le> 1"
    and deep: "(\<And>k j. (k, j) \<in> set kvs \<Longrightarrow> json_depth j \<le> 1) \<Longrightarrow> json_depth (JObject kvs) \<le> 2"
    for kvs using depth_JObject_le [of kvs 0] depth_JObject_le [of kvs 1] by simp_all
  show c: "json_depth (Command_json c) \<le> 1" for c
    unfolding Command_json_def by (rule flat) (auto simp: opt_string_def split: if_splits)
  show "json_depth (HardState_json h) \<le> 1"
    unfolding HardState_json_def by (rule flat) (auto simp: opt_string_def split: if_splits)
  have "json_depth (JObject (map (\<lambda>(k, v). (k, JString v)) kvs)) \<le> 1" for kvs :: "(string \<times> string) list"
    by (rule flat) auto
  then have m: "json_depth (json_map m) \<le> 1" for m
    by (simp add: json_map_def split: option.splits)
  show "json_depth (Snapshot_json s) \<le> 2"
    unfolding Snapshot_json_def by (rule deep) (auto simp: m [simplified])
  show "json_depth (walLine_json l) \<le> 2"
    unfolding walLine_json_def
    by (rule deep) (auto simp: opt_string_def opt_u64_def c [simplified] split: if_splits option.splits)
qed

lemma unmarshal_marshal:
  "wf_json j \<Longrightarrow> json_depth j \<le> 2 \<Longrightarrow> unmarshal st (marshal j) x = st j x"
  using parse_print [of j] by (simp add: unmarshal_def marshal_def maxNestingDepth_def)

lemma HardState_roundtrip:
  "valid_utf8 (hs_VotedFor h) \<Longrightarrow>
   unmarshal (store_struct HardState_fields) (marshal (HardState_json h)) zero_HardState = (h, True)"
  using depth_documents(2) [of h]
  by (simp add: unmarshal_marshal wf_HardState_json store_HardState)

lemma Snapshot_roundtrip:
  "valid_Snapshot s \<Longrightarrow>
   unmarshal (store_struct Snapshot_fields) (marshal (Snapshot_json s)) zero_Snapshot = (s, True)"
  using depth_documents(3) [of s]
  by (simp add: unmarshal_marshal wf_Snapshot_json store_Snapshot)

lemma walLine_roundtrip:
  "valid_utf8 (wl_Type l) \<Longrightarrow> valid_Command (wl_Command l) \<Longrightarrow>
   unmarshal (store_struct walLine_fields) (marshal (walLine_json l)) zero_walLine = (l, True)"
  using depth_documents(4) [of l]
  by (simp add: unmarshal_marshal wf_walLine_json store_walLine)

section \<open>Lines round-trip\<close>

lemma find_None_all: "(\<And>x. x \<in> set xs \<Longrightarrow> \<not> P x) \<Longrightarrow> find P xs = None"
  by (simp add: find_None_iff)

lemma space_runes_ends:
  "list_all (\<lambda>r. byte (hd (encode_rune r)) \<noteq> 123 \<and> byte (last (encode_rune r)) \<noteq> 125) space_runes"
  by (simp add: space_runes_def encode_rune_def is_rune_def byte_char_of)

lemma TrimSpace_braces: "TrimSpace (CHR ''{'' # s @ ''}'') = CHR ''{'' # s @ ''}''"
proof -
  let ?t = "CHR ''{'' # s @ ''}''"
  have "\<not> has_prefix (encode_rune r) ?t" if "r \<in> set space_runes" for r
  proof
    assume "has_prefix (encode_rune r) ?t"
    then have "hd (encode_rune r) = CHR ''{''"
      by (metis encode_rune_not_Nil has_prefix_def hd_take length_greater_0_conv list.sel(1))
    then show False using space_runes_ends that by (auto simp: list_all_iff byte_def)
  qed
  then have "trim_left ?t = ?t" by (subst trim_left.simps) (simp add: find_None_all)
  moreover have "\<not> has_suffix (encode_rune r) ?t" if "r \<in> set space_runes" for r
  proof
    assume "has_suffix (encode_rune r) ?t"
    then have eq: "drop (length ?t - length (encode_rune r)) ?t = encode_rune r"
      by (simp only: has_suffix_def)
    then have "length ?t - length (encode_rune r) < length ?t"
      by (metis drop_all encode_rune_not_Nil not_le)
    then have "last (encode_rune r) = last ?t" using eq by (metis last_drop)
    then show False using space_runes_ends that by (auto simp: list_all_iff byte_def)
  qed
  then have "trim_right ?t = ?t" by (subst trim_right.simps) (simp add: find_None_all)
  ultimately show ?thesis by (simp add: TrimSpace_def)
qed

lemma TrimSpace_line: "TrimSpace (marshal (walLine_json l)) = marshal (walLine_json l)"
  unfolding marshal_def walLine_json_def print.simps by (rule TrimSpace_braces)

lemma numerals_walLine: "numerals (walLine_json l)"
proof -
  have n: "numerals (json_u64 w)" "numerals (json_u32 v)" for w v
    using dec_digits by (simp_all add: json_u64_def json_u32_def)
  have "numerals (Command_json c)" for c by (simp add: Command_json_def opt_string_def)
  then show ?thesis by (auto simp: walLine_json_def opt_string_def opt_u64_def n split: option.splits)
qed

lemma line_no_newline: "CHR 0x0A \<notin> set (marshal (walLine_json l))"
  using print_ge [OF numerals_walLine] by (force simp: marshal_def byte_def)

lemma decode_line:
  assumes "valid_utf8 (wl_Type l)" and "valid_Command (wl_Command l)"
  shows "decodeWALLine (marshal (walLine_json (l\<lparr>wl_CRC := Some (walChecksum l)\<rparr>))) =
    (if wl_Type l = walBaseRecordType then Inr (Base (wl_LastIncludedIndex l) (wl_LastIncludedTerm l))
     else if wl_Type l = '''' then
       Inr (Entry \<lparr>le_Index = wl_Index l, le_Term = wl_Term l, le_Command = wl_Command l\<rparr>)
     else Inl (ErrorString ''unknown WAL record type %q''))"
  using walLine_roundtrip [of "l\<lparr>wl_CRC := Some (walChecksum l)\<rparr>"] assms
  by (simp add: decodeWALLine_def walChecksum_def)

text \<open>The text of a line without its newline.\<close>

definition base_text :: "u64 \<Rightarrow> u64 \<Rightarrow> string" where
  "base_text i t = butlast (encodeWALBase i t)"

definition entry_text :: "LogEntry \<Rightarrow> string" where
  "entry_text e = butlast (encodeWALEntry e)"

lemmas text_defs = base_text_def entry_text_def encodeWALBase_def encodeWALEntry_def
  encodeWALLine_def Let_def butlast_snoc

lemma encode_text: "encodeWALBase i t = base_text i t @ [CHR 0x0A]"
  "encodeWALEntry e = entry_text e @ [CHR 0x0A]"
  by (simp_all only: text_defs)

lemma text_no_newline [simp]: "CHR 0x0A \<notin> set (base_text i t)" "CHR 0x0A \<notin> set (entry_text e)"
  by (simp_all only: text_defs line_no_newline not_False_eq_True)

lemma text_trim [simp]: "TrimSpace (base_text i t) = base_text i t" "TrimSpace (entry_text e) = entry_text e"
  by (simp_all only: text_defs TrimSpace_line)

lemma text_not_Nil [simp]: "base_text i t \<noteq> []" "entry_text e \<noteq> []"
  by (simp_all add: text_defs marshal_def walLine_json_def)

lemma decode_text:
  "decodeWALLine (base_text i t) = Inr (Base i t)"
  "valid_Command (le_Command e) \<Longrightarrow> decodeWALLine (entry_text e) = Inr (Entry e)"
proof -
  let ?b = "zero_walLine\<lparr>wl_Type := walBaseRecordType, wl_LastIncludedIndex := i, wl_LastIncludedTerm := t\<rparr>"
  let ?e = "zero_walLine\<lparr>wl_Index := le_Index e, wl_Term := le_Term e, wl_Command := le_Command e\<rparr>"
  have "valid_Command (wl_Command ?b)" "valid_utf8 (wl_Type ?b)" "valid_utf8 (wl_Type ?e)"
    by (simp_all add: valid_Command_def zero_Command_def zero_walLine_def walBaseRecordType_def)
  note line = decode_line [OF this(2,1)] decode_line [OF this(3)]
  show "decodeWALLine (base_text i t) = Inr (Base i t)"
    unfolding text_defs line(1) by simp
  assume "valid_Command (le_Command e)"
  then show "decodeWALLine (entry_text e) = Inr (Entry e)"
    unfolding text_defs using line(2) by (simp add: zero_walLine_def walBaseRecordType_def)
qed

end
