(* ===== verification/Raft_Snapshot.thy ===== *)
theory Raft_Snapshot
  imports Raft_Apply Storage_Codec "HOL-Library.Sublist"
begin

text \<open>
  Shipping a snapshot (\<open>internal/raft/node.go\<close>): the follower's \<open>HandleInstallSnapshot\<close> and the
  leader's \<open>sendSnapshot\<close>.

  The handler holds \<open>snapshotPersistMu\<close> throughout, so two calls never overlap, but it releases
  \<open>n.mu\<close> to decode the last chunk: \<open>is_receive\<close> is the part before, \<open>is_finish\<close> the rest.
  The buffer it grows is reached through the node only, so the progress record is a value.

  \<open>sendSnapshot\<close> is a loop that may run as long as its context lasts: a \<open>partial_function\<close>
  whose value \<open>None\<close> means that it never returns.  The peer is an argument \<open>rpc\<close> (\<open>None\<close> for a
  transport error) and \<open>expired\<close> tells whether the context is done; both may depend on a state
  \<open>w\<close> of the outside world.
\<close>

section \<open>The follower: one chunk\<close>

definition is_reply :: "('st, 'sm) node \<Rightarrow> InstallSnapshotResponse" where
  "is_reply n = \<lparr>isr_Term = currentTerm n, isr_Success = False, isr_BytesReceived = 0\<rparr>"

definition same_stream :: "InstallSnapshotRequest \<Rightarrow> snapshotProgress \<Rightarrow> bool" where
  "same_stream req p \<longleftrightarrow> sp_leaderID p = is_LeaderID req \<and>
     sp_lastIncludedIndex p = is_LastIncludedIndex req \<and> sp_lastIncludedTerm p = is_LastIncludedTerm req"

definition fresh_stream :: "InstallSnapshotRequest \<Rightarrow> snapshotProgress" where
  "fresh_stream req = \<lparr>sp_leaderID = is_LeaderID req, sp_lastIncludedIndex = is_LastIncludedIndex req,
     sp_lastIncludedTerm = is_LastIncludedTerm req, sp_buffer = []\<rparr>"

text \<open>Adding the chunk to the buffer.  \<open>Inl\<close> is an answer; \<open>Inr body\<close> goes on with the whole body.\<close>

definition is_append :: "InstallSnapshotRequest \<Rightarrow> snapshotProgress \<Rightarrow> ('st, 'sm) node \<Rightarrow>
    (InstallSnapshotResponse + string) \<times> ('st, 'sm) node" where
  "is_append req progress n =
     (if is_Offset req \<noteq> of_nat (length (sp_buffer progress)) then
        (Inl ((is_reply n)\<lparr>isr_BytesReceived := of_nat (length (sp_buffer progress))\<rparr>),
         n\<lparr>pendingSnapshot := Some progress\<rparr>)
      else
        (let progress1 = progress\<lparr>sp_buffer := sp_buffer progress @ is_Data req\<rparr>;
             n1 = n\<lparr>pendingSnapshot := Some progress1\<rparr>
         in if \<not> is_Done req then
              (Inl ((is_reply n1)\<lparr>isr_Success := True,
                      isr_BytesReceived := of_nat (length (sp_buffer progress1))\<rparr>), n1)
            else (Inr (sp_buffer progress1), n1)))"

definition is_chunk :: "InstallSnapshotRequest \<Rightarrow> ('st, 'sm) node \<Rightarrow>
    (InstallSnapshotResponse + string) \<times> ('st, 'sm) node" where
  "is_chunk req n =
     (if is_LastIncludedIndex req \<le> commitIndex n then
        (Inl ((is_reply n)\<lparr>isr_Success := True\<rparr>), n\<lparr>pendingSnapshot := None\<rparr>)
      else
        (case pendingSnapshot n of
           Some progress \<Rightarrow>
             if same_stream req progress then is_append req progress n
             else if is_Offset req \<noteq> 0 then (Inl (is_reply n), n)
             else is_append req (fresh_stream req) n
         | None \<Rightarrow>
             if is_Offset req \<noteq> 0 then (Inl (is_reply n), n)
             else is_append req (fresh_stream req) n))"

definition is_receive :: "'st Store \<Rightarrow> InstallSnapshotRequest \<Rightarrow> ('st, 'sm) node \<Rightarrow>
    (InstallSnapshotResponse + string) \<times> ('st, 'sm) node" where
  "is_receive S req n =
     (if stopped n \<or> storageFatal n \<noteq> None then (Inl (is_reply n), n)
      else if \<not> isKnownRemotePeerLocked n (is_LeaderID req) then (Inl (is_reply n), n)
      else if is_Term req < currentTerm n then (Inl (is_reply n), n)
      else
        (case (if is_Term req > currentTerm n \<or> role n \<noteq> Follower
               then becomeFollowerLocked S (is_Term req) (is_LeaderID req) n else (None, n)) of
           (Some e, n1) \<Rightarrow> (let n2 = n1\<lparr>pendingSnapshot := None\<rparr> in (Inl (is_reply n2), n2))
         | (None, n1) \<Rightarrow> is_chunk req (resetElectionLocked (n1\<lparr>leaderID := is_LeaderID req\<rparr>))))"

section \<open>The follower: the last chunk\<close>

definition is_decode :: "string \<Rightarrow> smap option \<times> bool" where
  "is_decode body = (if length body > 0 then unmarshal store_map body None else (None, True))"

text \<open>Writing the snapshot, the log after it and the commit index, then taking them over.\<close>

definition is_persist :: "'st Store \<Rightarrow> Snapshot \<Rightarrow> LogEntry list \<Rightarrow> u64 \<Rightarrow> ('st, 'sm) node \<Rightarrow>
    goerror option \<times> ('st, 'sm) node" where
  "is_persist S newSnap newLog newCommit n =
     (case Store_SaveSnapshot S newSnap (store n) of
        (Some e, st) \<Rightarrow> (Some e, n\<lparr>store := st\<rparr>)
      | (None, st) \<Rightarrow>
          (case Store_ReplaceEntries S newLog st of
             (Some e, st) \<Rightarrow> (Some e, n\<lparr>store := st\<rparr>)
           | (None, st) \<Rightarrow> saveHardStateLocked S newCommit (n\<lparr>store := st\<rparr>)))"

definition is_adopt :: "'sm StateMachine \<Rightarrow> Snapshot \<Rightarrow> LogEntry list \<Rightarrow> u64 \<Rightarrow> ('st, 'sm) node \<Rightarrow>
    ('st, 'sm) node" where
  "is_adopt M newSnap newLog newCommit n =
     notifyApplyLocked
       (n\<lparr>snapshot := newSnap, log := newLog, commitIndex := newCommit,
          lastApplied := (if lastApplied n < LastIncludedIndex newSnap
                          then LastIncludedIndex newSnap else lastApplied n),
          sm := SM_Restore M (Data newSnap) (sm n), pendingSnapshot := None\<rparr>)"

definition is_install :: "'st Store \<Rightarrow> 'sm StateMachine \<Rightarrow> InstallSnapshotRequest \<Rightarrow> string \<Rightarrow> smap option \<Rightarrow>
    ('st, 'sm) node \<Rightarrow> InstallSnapshotResponse \<times> ('st, 'sm) node" where
  "is_install S M req body data n =
     (if is_LastIncludedIndex req \<le> commitIndex n then
        ((is_reply n)\<lparr>isr_Success := True\<rparr>, n\<lparr>pendingSnapshot := None\<rparr>)
      else
        (case pendingSnapshot n of
           None \<Rightarrow> (is_reply n, n)
         | Some progress \<Rightarrow>
             if \<not> same_stream req progress \<or>
                (of_nat (length (sp_buffer progress)) :: u64) \<noteq> of_nat (length body)
             then (is_reply n, n)
             else
               (let newSnap = \<lparr>LastIncludedIndex = is_LastIncludedIndex req,
                               LastIncludedTerm = is_LastIncludedTerm req, Data = data\<rparr>;
                    newLog = logAfterSnapshotLocked n newSnap;
                    newCommit = (if commitIndex n < LastIncludedIndex newSnap
                                 then LastIncludedIndex newSnap else commitIndex n)
                in case is_persist S newSnap newLog newCommit n of
                     (Some e, n1) \<Rightarrow>
                       (let n2 = failStorageLocked (Some e) (n1\<lparr>pendingSnapshot := None\<rparr>)
                        in (is_reply n2, n2))
                   | (None, n1) \<Rightarrow>
                       (let n2 = is_adopt M newSnap newLog newCommit n1
                        in ((is_reply n2)\<lparr>isr_Success := True,
                              isr_BytesReceived := of_nat (length body)\<rparr>, n2)))))"

text \<open>The second part, under both mutexes: the checks again, then the installation.\<close>

definition is_finish :: "'st Store \<Rightarrow> 'sm StateMachine \<Rightarrow> InstallSnapshotRequest \<Rightarrow> string \<Rightarrow>
    ('st, 'sm) node \<Rightarrow> InstallSnapshotResponse \<times> ('st, 'sm) node" where
  "is_finish S M req body n =
     (case is_decode body of
        (data, False) \<Rightarrow> (is_reply n, n\<lparr>pendingSnapshot := None\<rparr>)
      | (data, True) \<Rightarrow>
          if stopped n \<or> storageFatal n \<noteq> None then (is_reply n, n\<lparr>pendingSnapshot := None\<rparr>)
          else if \<not> isKnownRemotePeerLocked n (is_LeaderID req) then
            (is_reply n, n\<lparr>pendingSnapshot := None\<rparr>)
          else if is_Term req < currentTerm n then (is_reply n, n\<lparr>pendingSnapshot := None\<rparr>)
          else
            (case (if is_Term req > currentTerm n \<or> role n \<noteq> Follower
                   then becomeFollowerLocked S (is_Term req) (is_LeaderID req) n else (None, n)) of
               (Some e, n1) \<Rightarrow> (let n2 = n1\<lparr>pendingSnapshot := None\<rparr> in (is_reply n2, n2))
             | (None, n1) \<Rightarrow>
                 is_install S M req body data (resetElectionLocked (n1\<lparr>leaderID := is_LeaderID req\<rparr>))))"

definition HandleInstallSnapshot :: "'st Store \<Rightarrow> 'sm StateMachine \<Rightarrow> InstallSnapshotRequest \<Rightarrow>
    ('st, 'sm) node \<Rightarrow> InstallSnapshotResponse \<times> ('st, 'sm) node" where
  "HandleInstallSnapshot S M req n =
     (case is_receive S req n of
        (Inl resp, n1) \<Rightarrow> (resp, n1)
      | (Inr body, n1) \<Rightarrow> is_finish S M req body n1)"

section \<open>The leader\<close>

text \<open>One chunk of the body from an offset.\<close>

definition chunk_end :: "u64 \<Rightarrow> u64 \<Rightarrow> u64 \<Rightarrow> u64" where
  "chunk_end chunk bodyLen offset = (let e = offset + chunk in if e > bodyLen then bodyLen else e)"

definition snapshot_request :: "string \<Rightarrow> u64 \<Rightarrow> u64 \<Rightarrow> u64 \<Rightarrow> string \<Rightarrow> u64 \<Rightarrow> u64 \<Rightarrow> InstallSnapshotRequest" where
  "snapshot_request leader term lastIdx lastTerm body chunk offset =
     (let bodyLen = of_nat (length body);
          e = chunk_end chunk bodyLen offset
      in \<lparr>is_Term = term, is_LeaderID = leader, is_LastIncludedIndex = lastIdx,
          is_LastIncludedTerm = lastTerm, is_Offset = offset,
          is_Data = take (unat e - unat offset) (drop (unat offset) body),
          is_Done = (e = bodyLen)\<rparr>)"

text \<open>What the loop does with an answer: return, or go on at an offset.\<close>

definition send_reply :: "'st Store \<Rightarrow> u64 \<Rightarrow> InstallSnapshotRequest \<Rightarrow> u64 \<Rightarrow> u64 \<Rightarrow> InstallSnapshotResponse \<Rightarrow>
    ('st, 'sm) node \<Rightarrow> (bool + u64) \<times> ('st, 'sm) node" where
  "send_reply S term req bodyLen e resp n =
     (if isr_Term resp > currentTerm n then
        (Inl False, snd (becomeFollowerLocked S (isr_Term resp) '''' n))
      else if role n \<noteq> Leader \<or> currentTerm n \<noteq> term then (Inl False, n)
      else if \<not> isr_Success resp then
        (if isr_BytesReceived resp = is_Offset req \<and> \<not> is_Done req then (Inl False, n)
         else if isr_BytesReceived resp > bodyLen then (Inl False, n)
         else (Inr (isr_BytesReceived resp), n))
      else if is_Done req then (Inl True, n)
      else (Inr e, n))"

partial_function (option) send_loop :: "'st Store \<Rightarrow>
    (InstallSnapshotRequest \<Rightarrow> 'w \<Rightarrow> InstallSnapshotResponse option \<times> 'w) \<Rightarrow> ('w \<Rightarrow> bool) \<Rightarrow>
    u64 \<Rightarrow> u64 \<Rightarrow> u64 \<Rightarrow> string \<Rightarrow> u64 \<Rightarrow> u64 \<Rightarrow> ('st, 'sm) node \<Rightarrow> 'w \<Rightarrow>
    (bool \<times> ('st, 'sm) node \<times> 'w) option" where
  "send_loop S rpc expired term lastIdx lastTerm body chunk offset n w =
     (if expired w then Some (False, n, w)
      else
        (let req = snapshot_request (nid n) term lastIdx lastTerm body chunk offset
         in case rpc req w of
              (None, w1) \<Rightarrow> Some (False, n, w1)
            | (Some resp, w1) \<Rightarrow>
                (case send_reply S term req (of_nat (length body))
                        (chunk_end chunk (of_nat (length body)) offset) resp n of
                   (Inl b, n1) \<Rightarrow> Some (b, n1, w1)
                 | (Inr offset1, n1) \<Rightarrow>
                     send_loop S rpc expired term lastIdx lastTerm body chunk offset1 n1 w1)))"

definition sendSnapshot where
  "sendSnapshot S rpc expired term lastIdx lastTerm data chunkSize n w =
     (let body = marshal (json_map data);
          chunk = (if chunkSize \<le> 0 then defaultSnapshotChunkBytes else chunkSize)
      in send_loop S rpc expired term lastIdx lastTerm body (of_int chunk) 0 n w)"

section \<open>What the handler leaves alone\<close>

lemma positions_update [simp]:
  "positions (n\<lparr>leaderID := l\<rparr>) = positions n"
  "positions (n\<lparr>pendingSnapshot := p\<rparr>) = positions n"
  "positions (n\<lparr>store := st\<rparr>) = positions n"
  for n :: "('st, 'sm) node"
  by (simp_all add: positions_def)

lemma is_append_frame [simp]:
  "positions (snd (is_append req p n)) = positions n" "sm (snd (is_append req p n)) = sm n"
  by (simp_all add: is_append_def Let_def)

lemma is_chunk_frame [simp]:
  "positions (snd (is_chunk req n)) = positions n" "sm (snd (is_chunk req n)) = sm n"
  by (simp_all add: is_chunk_def split: option.split)

text \<open>Both parts of the handler start by following the sender.\<close>

definition follow :: "'st Store \<Rightarrow> InstallSnapshotRequest \<Rightarrow> ('st, 'sm) node \<Rightarrow>
    goerror option \<times> ('st, 'sm) node" where
  "follow S req n = (if is_Term req > currentTerm n \<or> role n \<noteq> Follower
     then becomeFollowerLocked S (is_Term req) (is_LeaderID req) n else (None, n))"

lemma follow_frame [simp]:
  "positions (snd (follow S req n)) = positions n" "sm (snd (follow S req n)) = sm n"
  by (simp_all add: follow_def)

lemma is_receive_frame [simp]:
  "positions (snd (is_receive S req n)) = positions n" "sm (snd (is_receive S req n)) = sm n"
  by (simp_all add: is_receive_def follow_def [symmetric] Let_def case_prod_beta split: option.split)

text \<open>What adopting a snapshot makes of a node.\<close>

definition installed :: "'sm StateMachine \<Rightarrow> Snapshot \<Rightarrow> ('st, 'sm) node \<Rightarrow> ('st, 'sm) node \<Rightarrow> bool" where
  "installed M snap n n' \<longleftrightarrow> commitIndex n < LastIncludedIndex snap \<and> snapshot n' = snap \<and>
     log n' = logAfterSnapshotLocked n snap \<and> commitIndex n' = LastIncludedIndex snap \<and>
     lastApplied n' = max (lastApplied n) (LastIncludedIndex snap) \<and>
     sm n' = SM_Restore M (Data snap) (sm n)"

definition request_snapshot :: "InstallSnapshotRequest \<Rightarrow> smap option \<Rightarrow> Snapshot" where
  "request_snapshot req data = \<lparr>LastIncludedIndex = is_LastIncludedIndex req,
     LastIncludedTerm = is_LastIncludedTerm req, Data = data\<rparr>"

lemma is_persist_frame [simp]:
  "positions (snd (is_persist S s l c n)) = positions n" "sm (snd (is_persist S s l c n)) = sm n"
  by (simp_all add: is_persist_def positions_def case_prod_beta split: option.split)

lemma is_install_cases:
  assumes "is_install S M req body data n = (resp, n')"
  shows "positions n' = positions n \<and> sm n' = sm n \<or> installed M (request_snapshot req data) n n'"
proof -
  let ?s = "request_snapshot req data"
  define r where "r = is_persist S ?s (logAfterSnapshotLocked n ?s) (is_LastIncludedIndex req) n"
  have r: "positions (snd r) = positions n" "sm (snd r) = sm n" by (simp_all add: r_def)
  consider "positions n' = positions n \<and> sm n' = sm n"
    | "commitIndex n < is_LastIncludedIndex req" "fst r \<noteq> None"
        "n' = failStorageLocked (fst r) ((snd r)\<lparr>pendingSnapshot := None\<rparr>)"
    | "commitIndex n < is_LastIncludedIndex req"
        "n' = is_adopt M ?s (logAfterSnapshotLocked n ?s) (is_LastIncludedIndex req) (snd r)"
    using assms unfolding is_install_def r_def request_snapshot_def
    by (cases "commitIndex n < is_LastIncludedIndex req"; cases "pendingSnapshot n")
      (auto simp: Let_def case_prod_beta not_le split: if_splits option.splits)
  then show ?thesis
  proof cases
    case 3
    then have "installed M ?s n n'"
      using r by (auto simp: installed_def is_adopt_def request_snapshot_def positions_eq_iff max_def)
    then show ?thesis ..
  qed (use r in auto)
qed

lemma installed_cong:
  assumes "installed M snap n1 n'" and "positions n1 = positions n" and "sm n1 = sm n"
  shows "installed M snap n n'"
proof -
  have "logAfterSnapshotLocked n1 snap = logAfterSnapshotLocked n snap"
    using positions_cong(4) [OF assms(2)] assms(2)
    by (simp add: logAfterSnapshotLocked_def positions_eq_iff split: option.split)
  then show ?thesis using assms by (simp add: installed_def positions_eq_iff)
qed

lemma is_finish_cases:
  assumes "is_finish S M req body n = (resp, n')"
  shows "positions n' = positions n \<and> sm n' = sm n \<or>
    (\<exists>data. is_decode body = (data, True) \<and> installed M (request_snapshot req data) n n')"
proof -
  obtain data ok where d: "is_decode body = (data, ok)" by fastforce
  let ?n1 = "resetElectionLocked ((snd (follow S req n))\<lparr>leaderID := is_LeaderID req\<rparr>)"
  have n1: "positions ?n1 = positions n" "sm ?n1 = sm n" by simp_all
  consider "positions n' = positions n \<and> sm n' = sm n"
    | "ok" "is_install S M req body data ?n1 = (resp, n')"
  proof (cases "fst (follow S req n)")
    case None
    then show thesis using assms d that unfolding is_finish_def follow_def [symmetric]
      by (cases ok) (auto simp: Let_def case_prod_beta split: if_splits)
  next
    case (Some e)
    then show thesis using assms d that(1) unfolding is_finish_def follow_def [symmetric]
      by (cases ok) (auto simp: Let_def case_prod_beta split: if_splits)
  qed
  then show ?thesis
  proof cases
    case 2
    from is_install_cases [OF this(2)] show ?thesis
    proof
      assume "installed M (request_snapshot req data) ?n1 n'"
      from installed_cong [OF this n1] show ?thesis using d 2(1) by simp
    qed (use n1 in simp)
  qed simp
qed

lemma HandleInstallSnapshot_cases:
  assumes "HandleInstallSnapshot S M req n = (resp, n')"
  shows "positions n' = positions n \<and> sm n' = sm n \<or>
    (\<exists>body data. is_decode body = (data, True) \<and> installed M (request_snapshot req data) n n')"
proof (cases "is_receive S req n")
  case (Pair r n1)
  then have n1: "positions n1 = positions n" "sm n1 = sm n"
    using is_receive_frame [of S req n] by simp_all
  show ?thesis
  proof (cases r)
    case (Inl a)
    then show ?thesis using assms Pair n1 by (simp add: HandleInstallSnapshot_def)
  next
    case (Inr body)
    then have "is_finish S M req body n1 = (resp, n')" using assms Pair by (simp add: HandleInstallSnapshot_def)
    from is_finish_cases [OF this] show ?thesis
    proof
      assume "\<exists>data. is_decode body = (data, True) \<and> installed M (request_snapshot req data) n1 n'"
      then obtain data where d: "is_decode body = (data, True)" "installed M (request_snapshot req data) n1 n'"
        by blast
      from installed_cong [OF d(2) n1] d(1) show ?thesis by blast
    qed (use n1 in simp)
  qed
qed

section \<open>Installing keeps the invariants\<close>

lemma logAfterSnapshotLocked_eq:
  assumes "wf_log n" and "lii n \<le> LastIncludedIndex s"
  shows "logAfterSnapshotLocked n s =
    (if termAtLocked n (LastIncludedIndex s) = Some (LastIncludedTerm s)
     then drop (unat (LastIncludedIndex s) - unat (lii n)) (log n) else [])"
  using assms by (auto simp: logAfterSnapshotLocked_def wf_log_def contiguous_filter_gt split: option.split)

lemma installed_wf:
  assumes "wf_node n" and "installed M snap n n'"
  shows "wf_node n' \<and>
    (\<forall>i > LastIncludedIndex snap. entryAtLocked n' i =
       (if termAtLocked n (LastIncludedIndex snap) = Some (LastIncludedTerm snap)
        then entryAtLocked n i else None))"
proof -
  let ?l = "LastIncludedIndex snap"
  have wf: "wf_log n" and le: "lii n \<le> lastApplied n" "lastApplied n \<le> commitIndex n"
    using assms(1) by (auto simp: wf_node_def)
  have n': "commitIndex n < ?l" "snapshot n' = snap" "log n' = logAfterSnapshotLocked n snap"
    "commitIndex n' = ?l" "lastApplied n' = ?l"
    using assms(2) le by (auto simp: installed_def max_def)
  have l: "lii n < ?l" using le n'(1) by simp
  show ?thesis
  proof (cases "termAtLocked n ?l = Some (LastIncludedTerm snap)")
    case False
    then have "log n' = []" using n'(3) logAfterSnapshotLocked_eq [OF wf, of snap] l by simp
    then show ?thesis using False n'
      by (simp add: wf_node_def wf_log_def lastIndexLocked_def lastIndex_def entryAtLocked_def Let_def)
  next
    case True
    let ?k = "unat ?l - unat (lii n)"
    have "?l \<le> lastIndexLocked n" by (rule termAtLocked_le_last [OF wf True])
    then have k: "?k \<le> length (log n)" "unat ?l = unat (lii n) + ?k"
      using l unat_lastIndexLocked [OF wf] by (simp_all add: u64_simps)
    have log': "log n' = drop ?k (log n)"
      using True n'(3) logAfterSnapshotLocked_eq [OF wf, of snap] l by simp
    have wf': "wf_log n'" using contiguous_drop [OF _ k] wf by (simp add: wf_log_def n'(2) log')
    have last: "lastIndexLocked n' = lastIndexLocked n"
      using unat_lastIndexLocked [OF wf] unat_lastIndexLocked [OF wf'] k
      by (simp add: eq_u64_unat n'(2) log')
    have "entryAtLocked n' i = entryAtLocked n i" if "?l < i" for i
    proof -
      have "unat (lii n) < unat ?l" "unat ?l < unat i" using l that by (simp_all add: u64_simps)
      then have "drop ?k (log n) ! (unat i - unat ?l - 1) = log n ! (unat i - unat (lii n) - 1)"
        using k(1) by (simp add: nth_drop)
      moreover have "lii n < i" using l that by simp
      ultimately show ?thesis using that
        by (simp add: entryAtLocked_eq [OF wf] entryAtLocked_eq [OF wf'] last n'(2) log')
    qed
    then show ?thesis using True wf' last n' \<open>?l \<le> lastIndexLocked n\<close> by (simp add: wf_node_def)
  qed
qed

context state_machine
begin

lemma installed_sm_ok:
  assumes "wf_node n" and "installed M snap n n'"
  shows "sm_ok M n'"
proof -
  have "lastApplied n' = LastIncludedIndex snap" "snapshot n' = snap"
    "sm n' = SM_Restore M (Data snap) (sm n)"
    using assms by (auto simp: installed_def max_def wf_node_def)
  then show ?thesis using restore_forgets [of "Data snap" "sm n" "sm n'"]
    by (simp add: sm_ok_def applied_entries_def)
qed

end

section \<open>The follower while a snapshot arrives\<close>

text \<open>A store that accepts every write, and a follower that takes part in the transfer.\<close>

definition accepting :: "'st Store \<Rightarrow> bool" where
  "accepting S \<longleftrightarrow> (\<forall>h st. fst (Store_SaveHardState S h st) = None) \<and>
     (\<forall>es st. fst (Store_AppendEntries S es st) = None) \<and>
     (\<forall>es st. fst (Store_ReplaceEntries S es st) = None) \<and>
     (\<forall>s st. fst (Store_SaveSnapshot S s st) = None)"

definition listening :: "InstallSnapshotRequest \<Rightarrow> ('st, 'sm) node \<Rightarrow> bool" where
  "listening req f \<longleftrightarrow> \<not> stopped f \<and> storageFatal f = None \<and> isKnownRemotePeerLocked f (is_LeaderID req) \<and>
     currentTerm f \<le> is_Term req \<and> commitIndex f < is_LastIncludedIndex req"

definition buffered :: "InstallSnapshotRequest \<Rightarrow> ('st, 'sm) node \<Rightarrow> string" where
  "buffered req f = (case pendingSnapshot f of
     Some p \<Rightarrow> if same_stream req p then sp_buffer p else [] | None \<Rightarrow> [])"

lemma accepting_persist:
  "accepting S \<Longrightarrow> fst (saveHardStateLocked S c n) = None"
  "accepting S \<Longrightarrow> fst (persistHardStateLocked S n) = None"
  "accepting S \<Longrightarrow> fst (becomeFollowerLocked S t l n) = None"
  "accepting S \<Longrightarrow> fst (is_persist S s es c n) = None"
proof -
  have save: "fst (saveHardStateLocked S c n) = None" if "accepting S" for c and n :: "('a, 'b) node"
    using that by (simp add: accepting_def saveHardStateLocked_def case_prod_beta)
  then show "accepting S \<Longrightarrow> fst (saveHardStateLocked S c n) = None"
    "accepting S \<Longrightarrow> fst (persistHardStateLocked S n) = None"
    "accepting S \<Longrightarrow> fst (becomeFollowerLocked S t l n) = None"
    by (simp_all add: persistHardStateLocked_def becomeFollowerLocked_def
        becomeFollowerWithTimerLocked_def Let_def case_prod_beta)
  show "accepting S \<Longrightarrow> fst (is_persist S s es c n) = None"
    using save by (auto simp: is_persist_def case_prod_beta accepting_def)
qed

lemma known_frame [simp]:
  "isKnownRemotePeerLocked (resetElectionLocked n) = isKnownRemotePeerLocked n"
  "isKnownRemotePeerLocked (n\<lparr>leaderID := l\<rparr>) = isKnownRemotePeerLocked n"
  "isKnownRemotePeerLocked (n\<lparr>pendingSnapshot := p\<rparr>) = isKnownRemotePeerLocked n"
  "isKnownRemotePeerLocked (snd (becomeFollowerLocked S t l n)) = isKnownRemotePeerLocked n"
  for n :: "('st, 'sm) node"
  by (simp_all add: isKnownRemotePeerLocked_def fun_eq_iff)

text \<open>The node after the checks of either part: it follows the sender in its term.\<close>

definition followed :: "'st Store \<Rightarrow> InstallSnapshotRequest \<Rightarrow> ('st, 'sm) node \<Rightarrow> ('st, 'sm) node" where
  "followed S req f = resetElectionLocked ((snd (follow S req f))\<lparr>leaderID := is_LeaderID req\<rparr>)"

lemma follow_listening:
  assumes "accepting S" and "listening req f"
  shows "fst (follow S req f) = None" and "listening req (followed S req f)"
    and "currentTerm (followed S req f) = is_Term req" and "positions (followed S req f) = positions f"
    and "sm (followed S req f) = sm f" and "pendingSnapshot (followed S req f) = pendingSnapshot f"
proof -
  have "storageFatal (snd (becomeFollowerLocked S t l f)) = storageFatal f" for t l
    using becomeFollowerWithTimerLocked_ok [of S t l True f] accepting_persist(3) [OF assms(1), of t l f]
    by (simp add: becomeFollowerLocked_def)
  with assms accepting_persist(3) [OF assms(1)]
  show "fst (follow S req f) = None" "listening req (followed S req f)"
    "currentTerm (followed S req f) = is_Term req"
    by (auto simp: followed_def follow_def listening_def)
  show "positions (followed S req f) = positions f" "sm (followed S req f) = sm f"
    "pendingSnapshot (followed S req f) = pendingSnapshot f"
    by (simp_all add: followed_def follow_def)
qed

text \<open>The answer to a chunk: the offset it has when the chunk does not fit there, else the chunk is
  taken, and with the last chunk the snapshot is installed.\<close>

lemma is_receive_listening:
  assumes "accepting S" and "listening req f" and "is_receive S req f = (r, f')"
  shows "listening req f' \<and> currentTerm f' = is_Term req \<and> positions f' = positions f \<and> sm f' = sm f \<and>
    (if is_Offset req \<noteq> of_nat (length (buffered req f)) then
       r = Inl \<lparr>isr_Term = is_Term req, isr_Success = False, isr_BytesReceived = of_nat (length (buffered req f))\<rparr> \<and>
       buffered req f' = buffered req f
     else buffered req f' = buffered req f @ is_Data req \<and> pendingSnapshot f' \<noteq> None \<and>
       r = (if is_Done req then Inr (buffered req f')
            else Inl \<lparr>isr_Term = is_Term req, isr_Success = True, isr_BytesReceived = of_nat (length (buffered req f'))\<rparr>))"
proof -
  let ?g = "followed S req f"
  note g = follow_listening [OF assms(1,2)]
  have fl: "follow S req f = (None, snd (follow S req f))" using g(1) by (cases "follow S req f") simp
  have r: "is_chunk req ?g = (r, f')"
    using assms(2,3) unfolding is_receive_def follow_def [symmetric]
    by (subst (asm) fl) (simp add: listening_def followed_def not_less [symmetric])
  have b: "buffered req f = buffered req ?g" using g(6) by (simp add: buffered_def)
  have f': "positions f' = positions f" "sm f' = sm f" using is_chunk_frame [of req ?g] r g by simp_all
  have c: "commitIndex ?g < is_LastIncludedIndex req" using g(2) by (simp add: listening_def)
  have fresh: "same_stream req (fresh_stream req)" "sp_buffer (fresh_stream req) = []"
    by (simp_all add: same_stream_def fresh_stream_def)
  have app: "listening req f1 \<and> currentTerm f1 = is_Term req"
    if "is_append req p ?g = (r1, f1)" for p r1 f1
    using that g(2,3) by (auto simp: is_append_def Let_def listening_def split: if_splits)
  have ss: "same_stream req (p\<lparr>sp_buffer := x\<rparr>) = same_stream req p" for p x
    by (simp add: same_stream_def)
  have keep: "listening req f' \<and> currentTerm f' = is_Term req"
    using r app g(2,3) c by (auto simp: is_chunk_def not_le split: option.splits if_splits)
  show ?thesis
  proof (cases "pendingSnapshot ?g")
    case None
    then show ?thesis using r c f' keep b g(3) fresh
      by (auto simp: is_chunk_def is_append_def Let_def buffered_def is_reply_def ss split: if_splits)
  next
    case (Some p)
    then show ?thesis using r c f' keep b g(3) fresh
      by (auto simp: is_chunk_def is_append_def Let_def buffered_def is_reply_def ss split: if_splits)
  qed
qed

lemma is_install_eq:
  assumes "commitIndex n < is_LastIncludedIndex req" and "pendingSnapshot n = Some p"
    and "same_stream req p" and "length (sp_buffer p) = length body"
    and "s = request_snapshot req data"
  shows "is_install S M req body data n =
    (case is_persist S s (logAfterSnapshotLocked n s) (is_LastIncludedIndex req) n of
       (Some e, n1) \<Rightarrow>
         (let n2 = failStorageLocked (Some e) (n1\<lparr>pendingSnapshot := None\<rparr>) in (is_reply n2, n2))
     | (None, n1) \<Rightarrow>
         (let n2 = is_adopt M s (logAfterSnapshotLocked n s) (is_LastIncludedIndex req) n1
          in ((is_reply n2)\<lparr>isr_Success := True, isr_BytesReceived := of_nat (length body)\<rparr>, n2)))"
proof -
  have "\<not> is_LastIncludedIndex req \<le> commitIndex n" using assms(1) by simp
  then show ?thesis
    using assms(1-4) unfolding assms(5) is_install_def request_snapshot_def
    by (simp add: Let_def split: prod.split option.split)
qed

lemma is_finish_listening:
  assumes "accepting S" and "listening req f" and "is_decode (buffered req f) = (data, True)"
    and "pendingSnapshot f \<noteq> None" and "buffered req f \<noteq> []"
    and "is_finish S M req (buffered req f) f = (resp, f')"
  shows "isr_Term resp = is_Term req \<and> isr_Success resp \<and> installed M (request_snapshot req data) f f'"
proof -
  let ?g = "followed S req f" and ?s = "request_snapshot req data"
  note g = follow_listening [OF assms(1,2)]
  have fl: "follow S req f = (None, snd (follow S req f))" using g(1) by (cases "follow S req f") simp
  have r: "is_install S M req (buffered req f) data ?g = (resp, f')"
    using assms(2,3,6) unfolding is_finish_def follow_def [symmetric]
    by (subst (asm) fl) (simp add: listening_def followed_def not_less [symmetric])
  have c: "commitIndex ?g < is_LastIncludedIndex req" using g(2) by (simp add: listening_def)
  obtain p where p: "pendingSnapshot ?g = Some p" "same_stream req p" "sp_buffer p = buffered req f"
    using assms(4,5) g(6) by (auto simp: buffered_def split: if_splits)
  define q where "q = is_persist S ?s (logAfterSnapshotLocked ?g ?s) (is_LastIncludedIndex req) ?g"
  have q: "q = (None, snd q)" using accepting_persist(4) [OF assms(1)] by (simp add: q_def prod_eq_iff)
  have qc: "currentTerm (snd q) = currentTerm ?g"
    by (simp add: q_def is_persist_def case_prod_beta split: option.split)
  let ?a = "is_adopt M ?s (logAfterSnapshotLocked ?g ?s) (is_LastIncludedIndex req) (snd q)"
  have "((is_reply ?a)\<lparr>isr_Success := True,
      isr_BytesReceived := of_nat (length (buffered req f))\<rparr>, ?a) = (resp, f')"
    using r unfolding is_install_eq [OF c p(1,2) arg_cong [OF p(3), of length] refl] q_def [symmetric]
    by (subst (asm) q) (simp only: Let_def option.case prod.case)
  then have resp: "isr_Success resp" "isr_Term resp = currentTerm ?a" and f': "f' = ?a"
    by (auto simp: is_reply_def)
  have "currentTerm ?a = is_Term req" using qc g(3) by (simp add: is_adopt_def)
  moreover have "installed M ?s f f'"
  proof (rule installed_cong [OF _ g(4,5)])
    have "positions (snd q) = positions ?g" "sm (snd q) = sm ?g" by (simp_all add: q_def)
    then show "installed M ?s ?g f'"
      using c by (auto simp: f' installed_def is_adopt_def request_snapshot_def positions_eq_iff max_def)
  qed
  ultimately show ?thesis using resp by simp
qed

text \<open>The peer of a transfer: the follower's handler behind a transport that loses nothing.\<close>

definition handled :: "'st Store \<Rightarrow> 'sm StateMachine \<Rightarrow> InstallSnapshotRequest \<Rightarrow> ('st, 'sm) node \<Rightarrow>
    InstallSnapshotResponse option \<times> ('st, 'sm) node" where
  "handled S M req f = (case HandleInstallSnapshot S M req f of (resp, f') \<Rightarrow> (Some resp, f'))"

lemma chunk_bounds:
  assumes "unat offset \<le> length body" and "length body < 2 ^ 63" and "0 < chunk" and "unat chunk < 2 ^ 63"
  shows "unat (chunk_end chunk (of_nat (length body)) offset) = min (unat offset + unat chunk) (length body)"
proof -
  have sum: "unat (offset + chunk) = unat offset + unat chunk"
    using assms by (intro unat_add_u64) simp
  have "unat (of_nat (length body) :: u64) = length body"
    using assms(2) by (simp add: unat_of_nat_u64)
  then show ?thesis by (simp add: chunk_end_def Let_def sum u64_simps)
qed

lemma snapshot_request_fields [simp]:
  "is_Term (snapshot_request l t i lt body c k) = t" "is_LeaderID (snapshot_request l t i lt body c k) = l"
  "is_LastIncludedIndex (snapshot_request l t i lt body c k) = i"
  "is_LastIncludedTerm (snapshot_request l t i lt body c k) = lt"
  "is_Offset (snapshot_request l t i lt body c k) = k"
  "request_snapshot (snapshot_request l t i lt body c k) d =
     \<lparr>LastIncludedIndex = i, LastIncludedTerm = lt, Data = d\<rparr>"
  by (simp_all add: snapshot_request_def request_snapshot_def Let_def)

lemma snapshot_request_stream:
  "listening (snapshot_request l t i lt body c k) = listening (snapshot_request l t i lt body c 0)"
  "buffered (snapshot_request l t i lt body c k) = buffered (snapshot_request l t i lt body c 0)"
  by (simp_all add: listening_def buffered_def same_stream_def fun_eq_iff cong: option.case_cong if_cong)

text \<open>The chunk at an offset: it stays within the body, and is the last one iff it reaches its
  end.\<close>

lemma snapshot_request_chunk:
  assumes "unat k \<le> length body" and "length body < 2 ^ 63" and "0 < c" and "unat c < 2 ^ 63"
  shows "is_Data (snapshot_request l t i lt body c k) = take (unat c) (drop (unat k) body)"
    and "is_Done (snapshot_request l t i lt body c k) \<longleftrightarrow> length body \<le> unat k + unat c"
    and "\<not> is_Done (snapshot_request l t i lt body c k) \<Longrightarrow>
      unat (chunk_end c (of_nat (length body)) k) = unat k + unat c"
proof -
  note e = chunk_bounds [OF assms]
  have len: "unat (of_nat (length body) :: u64) = length body" using assms(2) by (simp add: unat_of_nat_u64)
  show "is_Data (snapshot_request l t i lt body c k) = take (unat c) (drop (unat k) body)"
    using assms(1) by (simp add: snapshot_request_def Let_def e take_drop min_def add.commute)
  show dn: "is_Done (snapshot_request l t i lt body c k) \<longleftrightarrow> length body \<le> unat k + unat c"
    by (simp add: snapshot_request_def Let_def eq_u64_unat [of "chunk_end _ _ _"] e len min_def) auto
  show "\<not> is_Done (snapshot_request l t i lt body c k) \<Longrightarrow>
      unat (chunk_end c (of_nat (length body)) k) = unat k + unat c"
    using dn e by simp
qed

lemma handled_fits:
  fixes l t i lt body c k
  defines "req \<equiv> snapshot_request l t i lt body c k"
  assumes "accepting S" and "listening req f" and "buffered req f = take (unat k) body"
    and k: "unat k \<le> length body" "length body < 2 ^ 63" "0 < c" "unat c < 2 ^ 63"
    and "is_decode body = (data, True)" and "body \<noteq> []" and run: "HandleInstallSnapshot S M req f = (resp, f')"
  shows "isr_Term resp = t \<and> isr_Success resp \<and>
    (if is_Done req then installed M \<lparr>LastIncludedIndex = i, LastIncludedTerm = lt, Data = data\<rparr> f f'
     else listening req f' \<and> buffered req f' = take (unat k + unat c) body \<and>
       positions f' = positions f \<and> sm f' = sm f)"
proof -
  obtain r f1 where r: "is_receive S req f = (r, f1)" by fastforce
  note chunk = snapshot_request_chunk [OF k, of l t i lt, folded req_def]
  have off: "is_Offset req = of_nat (length (buffered req f))"
    using k(1) assms(4) by (simp add: req_def min_absorb2)
  note f1 = is_receive_listening [OF assms(2,3) r]
  have "take (unat k) body @ take (unat c) (drop (unat k) body) = take (unat k + unat c) body"
    by (simp add: take_add)
  with f1 off assms(4) chunk(1) have b: "buffered req f1 = take (unat k + unat c) body"
      "pendingSnapshot f1 \<noteq> None" "listening req f1" "positions f1 = positions f" "sm f1 = sm f"
    and r1: "r = (if is_Done req then Inr (buffered req f1)
      else Inl \<lparr>isr_Term = t, isr_Success = True, isr_BytesReceived = of_nat (length (buffered req f1))\<rparr>)"
    by (simp_all add: req_def)
  show ?thesis
  proof (cases "is_Done req")
    case False
    then show ?thesis using run r r1 b by (auto simp: HandleInstallSnapshot_def)
  next
    case True
    then have body: "buffered req f1 = body" using b(1) chunk(2) by simp
    have "is_finish S M req (buffered req f1) f1 = (resp, f')"
      using True run r r1 by (simp add: HandleInstallSnapshot_def)
    from is_finish_listening [OF assms(2) b(3) _ b(2) _ this, unfolded body] assms(9,10)
    have "isr_Term resp = t" "isr_Success resp"
      "installed M \<lparr>LastIncludedIndex = i, LastIncludedTerm = lt, Data = data\<rparr> f1 f'"
      by (simp_all add: req_def)
    with True installed_cong [OF this(3) b(4,5)] show ?thesis by simp
  qed
qed

lemma send_loop_step:
  assumes "\<not> expired w" and "rpc (snapshot_request (nid n) t i lt body c k) w = (Some resp, w1)"
    and "isr_Term resp = t" and "role n = Leader" and "currentTerm n = t" and "isr_Success resp"
  shows "send_loop S rpc expired t i lt body c k n w =
    (if is_Done (snapshot_request (nid n) t i lt body c k) then Some (True, n, w1)
     else send_loop S rpc expired t i lt body c (chunk_end c (of_nat (length body)) k) n w1)"
  using assms by (simp add: send_loop.simps [of S rpc expired t i lt body c k n w] send_reply_def Let_def)

lemma send_loop_installs:
  assumes "accepting S" and "listening (snapshot_request (nid n) t i lt body c 0) f"
    and "buffered (snapshot_request (nid n) t i lt body c 0) f = take (unat k) body"
    and "unat k \<le> length body" and body: "length body < 2 ^ 63" "0 < c" "unat c < 2 ^ 63"
    and decode: "is_decode body = (data, True)" "body \<noteq> []"
    and leader: "role n = Leader" "currentTerm n = t"
  shows "\<exists>f'. send_loop S' (handled S M) (\<lambda>_. False) t i lt body c k n f = Some (True, n, f') \<and>
    installed M \<lparr>LastIncludedIndex = i, LastIncludedTerm = lt, Data = data\<rparr> f f'"
  using assms(2-4)
proof (induction "length body - unat k" arbitrary: k f rule: less_induct)
  case less
  let ?req = "snapshot_request (nid n) t i lt body c k"
  obtain resp f1 where run: "HandleInstallSnapshot S M ?req f = (resp, f1)" by fastforce
  note stream = snapshot_request_stream [of "nid n" t i lt body c k]
  have "listening ?req f" "buffered ?req f = take (unat k) body" using less.prems(1,2) by (simp_all add: stream)
  from handled_fits [OF assms(1) this less.prems(3) body decode run]
  have resp: "isr_Term resp = t" "isr_Success resp"
    and f1: "if is_Done ?req then installed M \<lparr>LastIncludedIndex = i, LastIncludedTerm = lt, Data = data\<rparr> f f1
     else listening ?req f1 \<and> buffered ?req f1 = take (unat k + unat c) body \<and>
       positions f1 = positions f \<and> sm f1 = sm f"
    by simp_all
  have "handled S M ?req f = (Some resp, f1)" by (simp add: handled_def run)
  note step = send_loop_step [of "\<lambda>_. False" f "handled S M", OF _ this resp(1) leader resp(2), of S', simplified]
  show ?case
  proof (cases "is_Done ?req")
    case True
    then show ?thesis using step f1 by simp
  next
    case False
    let ?k = "chunk_end c (of_nat (length body)) k"
    note chunk = snapshot_request_chunk [OF less.prems(3) body, of "nid n" t i lt]
    have e: "unat ?k = unat k + unat c" "unat k + unat c < length body" using chunk(2,3) False by simp_all
    have "0 < unat c" using body(2) by (simp add: unat_gt_0)
    with e have "length body - unat ?k < length body - unat k" by simp
    from less.hyps [OF this, of f1] f1 False e
    obtain f' where "send_loop S' (handled S M) (\<lambda>_. False) t i lt body c ?k n f1 = Some (True, n, f')"
      "installed M \<lparr>LastIncludedIndex = i, LastIncludedTerm = lt, Data = data\<rparr> f1 f'"
      by (auto simp: stream)
    then show ?thesis using step False f1 installed_cong by (metis (full_types))
  qed
qed

lemma json_map_decodes:
  assumes "valid_Snapshot \<lparr>LastIncludedIndex = i, LastIncludedTerm = lt, Data = data\<rparr>"
  shows "is_decode (marshal (json_map data)) = (data, True)" and "marshal (json_map data) \<noteq> []"
proof -
  have "wf_json (json_map data)"
    using assms by (auto simp: valid_Snapshot_def json_map_def list_all_iff split: option.splits)
  moreover have "json_depth (json_map data) \<le> 2"
    by (cases data) (auto simp: json_map_def intro!: Max.boundedI)
  ultimately have "unmarshal store_map (marshal (json_map data)) None = (data, True)"
    by (simp add: unmarshal_marshal store_map_json)
  moreover show "marshal (json_map data) \<noteq> []"
    by (cases data) (simp_all add: json_map_def marshal_def)
  ultimately show "is_decode (marshal (json_map data)) = (data, True)" by (simp add: is_decode_def)
qed

lemma send_loop_resumes:
  fixes n t i lt body c
  defines "req \<equiv> snapshot_request (nid n) t i lt body c 0"
  assumes "accepting S" and "listening req f" and "prefix (buffered req f) body"
    and body: "length body < 2 ^ 63" "0 < c" "unat c < 2 ^ 63"
    and decode: "is_decode body = (data, True)" "body \<noteq> []"
    and leader: "role n = Leader" "currentTerm n = t"
  shows "\<exists>f'. send_loop S' (handled S M) (\<lambda>_. False) t i lt body c 0 n f = Some (True, n, f') \<and>
    installed M \<lparr>LastIncludedIndex = i, LastIncludedTerm = lt, Data = data\<rparr> f f'"
proof -
  let ?k = "of_nat (length (buffered req f)) :: u64"
  have le: "length (buffered req f) \<le> length body" using assms(4) by (rule prefix_length_le)
  then have k: "unat ?k = length (buffered req f)" using body(1) by (simp add: unat_of_nat_u64)
  have buf: "buffered req f = take (unat ?k) body" using assms(4) k by (auto simp: prefix_def)
  show ?thesis
  proof (cases "?k = 0")
    case True
    show ?thesis
      using send_loop_installs [OF assms(2) _ _ _ body decode leader, where k = 0 and f = f] assms(3) buf True
      by (simp add: req_def)
  next
    case False
    obtain r f1 where r: "is_receive S req f = (r, f1)" by fastforce
    let ?resp = "\<lparr>isr_Term = t, isr_Success = False, isr_BytesReceived = ?k\<rparr>"
    have f1: "r = Inl ?resp" "listening req f1" "buffered req f1 = take (unat ?k) body"
        "positions f1 = positions f" "sm f1 = sm f"
      using is_receive_listening [OF assms(2,3) r] False buf by (simp_all add: req_def)
    have "handled S M req f = (Some ?resp, f1)"
      using r f1(1) by (simp add: handled_def HandleInstallSnapshot_def)
    moreover have "\<not> of_nat (length body) < ?k" using k le body(1) by (simp add: u64_simps unat_of_nat_u64)
    ultimately have "send_loop S' (handled S M) (\<lambda>_. False) t i lt body c 0 n f =
        send_loop S' (handled S M) (\<lambda>_. False) t i lt body c ?k n f1"
      using leader False
      by (simp add: send_loop.simps [of S' "handled S M" "\<lambda>_. False" t i lt body c 0 n f] req_def [symmetric]
          send_reply_def Let_def) (simp add: req_def)
    moreover from send_loop_installs [OF assms(2) f1(2,3) [unfolded req_def] _ body decode leader] k le
    obtain f' where "send_loop S' (handled S M) (\<lambda>_. False) t i lt body c ?k n f1 = Some (True, n, f')"
      "installed M \<lparr>LastIncludedIndex = i, LastIncludedTerm = lt, Data = data\<rparr> f1 f'"
      by (auto simp: req_def)
    ultimately show ?thesis using installed_cong [OF _ f1(4,5)] by auto
  qed
qed

section \<open>Waiters of a committed entry\<close>

lemma map_of_filter_le: "i \<le> c \<Longrightarrow> map_of (filter (\<lambda>(index, ws). index \<le> c) xs) i = map_of xs i"
  for c :: "'a :: linorder"
  by (induction xs) auto

lemma failUncommittedWaitersLocked_below:
  "i \<le> commitIndex n \<Longrightarrow> map_of (waiters (failUncommittedWaitersLocked n)) i = map_of (waiters n) i"
  by (simp add: failUncommittedWaitersLocked_def Let_def map_of_filter_le)

lemma failStorageLocked_below:
  "i \<le> commitIndex n \<Longrightarrow> map_of (waiters (failStorageLocked e n)) i = map_of (waiters n) i"
  by (cases e) (simp_all add: failStorageLocked_def failUncommittedWaitersLocked_below)

lemma becomeFollowerLocked_below:
  "i \<le> commitIndex n \<Longrightarrow> map_of (waiters (snd (becomeFollowerLocked S t l n))) i = map_of (waiters n) i"
  by (simp add: becomeFollowerLocked_def becomeFollowerWithTimerLocked_def Let_def case_prod_beta
      failUncommittedWaitersLocked_below failStorageLocked_below split: option.split)

lemmas waiters_below = failStorageLocked_below becomeFollowerLocked_below

lemma follow_below: "i \<le> commitIndex n \<Longrightarrow> map_of (waiters (snd (follow S req n))) i = map_of (waiters n) i"
  by (simp add: follow_def waiters_below)

lemma follow_commitIndex [simp]: "commitIndex (snd (follow S req n)) = commitIndex n"
  by (simp add: follow_def)

lemma is_receive_below:
  assumes "i \<le> commitIndex n"
  shows "map_of (waiters (snd (is_receive S req n))) i = map_of (waiters n) i"
proof -
  have "waiters (snd (is_chunk req m)) = waiters m" for m :: "('a, 'b) node"
    by (simp add: is_chunk_def is_append_def Let_def split: option.split)
  then show ?thesis unfolding is_receive_def follow_def [symmetric]
    by (simp add: Let_def case_prod_beta follow_below assms split: option.split)
qed

lemma is_install_below:
  assumes "i \<le> commitIndex n"
  shows "map_of (waiters (snd (is_install S M req body data n))) i = map_of (waiters n) i"
proof -
  have p: "waiters (snd (is_persist S s es c n)) = waiters n" "commitIndex (snd (is_persist S s es c n)) = commitIndex n"
    for s es c by (simp_all add: is_persist_def case_prod_beta split: option.split)
  have f: "map_of (waiters (failStorageLocked e ((snd (is_persist S s es c n))\<lparr>pendingSnapshot := None\<rparr>))) i =
      map_of (waiters n) i" for e s es c
    using assms p by (subst failStorageLocked_below) simp_all
  show ?thesis
    by (simp add: is_install_def Let_def case_prod_beta f p is_adopt_def split: option.split)
qed

lemma HandleInstallSnapshot_below:
  assumes "i \<le> commitIndex n"
  shows "map_of (waiters (snd (HandleInstallSnapshot S M req n))) i = map_of (waiters n) i"
proof -
  have fin: "map_of (waiters (snd (is_finish S M req body m))) i = map_of (waiters m) i"
    if "i \<le> commitIndex m" for body and m :: "('a, 'b) node"
    using that unfolding is_finish_def follow_def [symmetric]
    by (simp add: Let_def case_prod_beta follow_below is_install_below split: option.split bool.split)
  have "commitIndex (snd (is_receive S req n)) = commitIndex n"
    using is_receive_frame(1) [of S req n] unfolding positions_eq_iff by simp
  then show ?thesis using assms is_receive_below [OF assms, of S req] fin
    by (auto simp: HandleInstallSnapshot_def case_prod_beta split: sum.split)
qed

context state_machine
begin

lemma applyReady_below:
  assumes "wf_node n" and "sm_ok M n" and "i \<le> lastApplied n"
  shows "map_of (waiters (applyReady S M n)) i = map_of (waiters n) i"
  using assms
proof (induction "length (pending n)" arbitrary: n rule: less_induct)
  case less
  obtain b n' where step: "apply_step S M n = (b, n')" by fastforce
  note ok = apply_step_ok [OF less.prems(1,2) step]
  show ?case
  proof (cases "lastApplied n < commitIndex n")
    case False
    then show ?thesis using ok step by (simp add: applyReady.simps [of S M n])
  next
    case True
    with ok obtain e where e: "b" "pending n = e # pending n'" "waiters n' = AList.delete (le_Index e) (waiters n)"
        "unat (le_Index e) = Suc (unat (lastApplied n))" "lastApplied n' = le_Index e"
      by auto
    have lt: "i < le_Index e" "i \<le> lastApplied n'" using less.prems(3) e(4,5) by (simp_all add: u64_simps)
    have "map_of (waiters (applyReady S M n')) i = map_of (waiters n') i"
      using less.hyps [of n'] ok e(2) lt(2) by simp
    then show ?thesis using step e lt(1) by (simp add: applyReady.simps [of S M n] delete_conv')
  qed
qed

end

text \<open>An answer that brings the loop back to the same offset with nothing changed.\<close>

lemma send_loop_spins:
  assumes "\<not> expired w" and "rpc (snapshot_request (nid n) t i lt body c k) w = (Some resp, w)"
    and "send_reply S t (snapshot_request (nid n) t i lt body c k) (of_nat (length body))
      (chunk_end c (of_nat (length body)) k) resp n = (Inr k, n)"
  shows "send_loop S rpc expired t i lt body c k n w = None"
proof (rule ccontr)
  let ?spinning = "\<lambda>S1 p1 e1 t1 i1 lt1 b1 c1 k1 n1 w1. S1 = S \<and> p1 = rpc \<and> e1 = expired \<and>
    t1 = t \<and> i1 = i \<and> lt1 = lt \<and> b1 = body \<and> c1 = c \<and> k1 = k \<and> n1 = n \<and> w1 = w"
  have never: "\<not> ?spinning S1 p1 e1 t1 i1 lt1 b1 c1 k1 n1 w1"
    if "send_loop S1 p1 e1 t1 i1 lt1 b1 c1 k1 n1 w1 = Some r" for S1 p1 e1 t1 i1 lt1 b1 c1 k1 n1 w1 r
  proof (rule send_loop.raw_induct [where P = "\<lambda>S1 p1 e1 t1 i1 lt1 b1 c1 k1 n1 w1 r.
        \<not> ?spinning S1 p1 e1 t1 i1 lt1 b1 c1 k1 n1 w1", OF _ that], goal_cases)
    case (1 loop S1 p1 e1 t1 i1 lt1 b1 c1 k1 n1 w1 r)
    show ?case
    proof
      assume eq: "?spinning S1 p1 e1 t1 i1 lt1 b1 c1 k1 n1 w1"
      have "loop S rpc expired t i lt body c k n w = Some r"
        using "1"(2) eq assms by (simp add: Let_def)
      from "1"(1) [OF this] show False by simp
    qed
  qed
  assume "send_loop S rpc expired t i lt body c k n w \<noteq> None"
  then obtain r where "send_loop S rpc expired t i lt body c k n w = Some r" by blast
  from never [OF this] show False by simp
qed

section \<open>Properties\<close>

text \<open>C20. Receiving a snapshot chunk, with the key-value state machine and any store.  Whatever the
  message and whichever write fails, the positions stay consistent and the machine stays the replay
  of the log on the snapshot; the commit index and the applied index never go back.  When they do
  move, it is to the snapshot of the request, and of the log there remains exactly the part after
  the snapshot if the entry at its index has its term, and nothing otherwise.\<close>

theorem HandleInstallSnapshot_safe:
  assumes "wf_node n" and "sm_ok KV n" and "HandleInstallSnapshot S KV req n = (resp, n')"
  shows "wf_node n' \<and> sm_ok KV n' \<and> commitIndex n \<le> commitIndex n' \<and> lastApplied n \<le> lastApplied n' \<and>
    (positions n' = positions n \<and> sm n' = sm n \<or>
     lii n' = is_LastIncludedIndex req \<and> LastIncludedTerm (snapshot n') = is_LastIncludedTerm req \<and>
     commitIndex n < lii n' \<and> commitIndex n' = lii n' \<and> lastApplied n' = lii n' \<and>
     (\<forall>i > lii n'. entryAtLocked n' i =
       (if termAtLocked n (lii n') = Some (is_LastIncludedTerm req) then entryAtLocked n i else None)))"
  using HandleInstallSnapshot_cases [OF assms(3)]
proof (elim disjE exE conjE)
  assume p: "positions n' = positions n" "sm n' = sm n"
  then have "sm_ok KV n'" using assms(2) by (simp add: sm_ok_def applied_entries_def positions_eq_iff)
  then show ?thesis using p assms(1) positions_cong(1) [OF p(1)] by (simp add: positions_eq_iff)
next
  fix body data assume i: "installed KV (request_snapshot req data) n n'"
  have "lii n' = is_LastIncludedIndex req" "LastIncludedTerm (snapshot n') = is_LastIncludedTerm req"
    "commitIndex n < lii n'" "commitIndex n' = lii n'" "lastApplied n' = lii n'" "lastApplied n \<le> lii n'"
    using i assms(1) by (auto simp: installed_def request_snapshot_def max_def wf_node_def)
  then show ?thesis using installed_wf [OF assms(1) i] kv.installed_sm_ok [OF assms(1) i]
    by (simp add: request_snapshot_def)
qed

text \<open>C21. A snapshot transfer arrives.  A leader that streams its snapshot in chunks of any size to
  a follower that is behind, runs and can write, is told of success, and the follower then has the
  leader's snapshot: its data in the state machine, its index as commit and applied index.  This
  holds from an idle follower and from one that had received any part of the same snapshot before,
  in which case the leader resumes where the follower was.\<close>

theorem sendSnapshot_installs:
  assumes "role n = Leader" and "accepting S"
    and "\<not> stopped f" and "storageFatal f = None" and "isKnownRemotePeerLocked f (nid n)"
    and "currentTerm f \<le> currentTerm n" and "commitIndex f < i"
    and "\<And>p. pendingSnapshot f = Some p \<Longrightarrow> sp_leaderID p = nid n \<Longrightarrow> sp_lastIncludedIndex p = i \<Longrightarrow>
      sp_lastIncludedTerm p = lt \<Longrightarrow> prefix (sp_buffer p) (marshal (json_map data))"
    and "valid_Snapshot \<lparr>LastIncludedIndex = i, LastIncludedTerm = lt, Data = data\<rparr>"
    and "length (marshal (json_map data)) < 2 ^ 63" and "chunkSize < 2 ^ 63"
  shows "\<exists>f'. sendSnapshot S' (handled S M) (\<lambda>_. False) (currentTerm n) i lt data chunkSize n f = Some (True, n, f') \<and>
    snapshot f' = \<lparr>LastIncludedIndex = i, LastIncludedTerm = lt, Data = data\<rparr> \<and>
    sm f' = SM_Restore M data (sm f) \<and> commitIndex f' = i \<and> lastApplied f' = max (lastApplied f) i"
proof -
  define c :: u64 where "c = of_int (if chunkSize \<le> 0 then defaultSnapshotChunkBytes else chunkSize)"
  have "unat c = nat (if chunkSize \<le> 0 then defaultSnapshotChunkBytes else chunkSize)"
    using assms(11) unfolding c_def defaultSnapshotChunkBytes_def
    by (subst unat_of_int_u64) auto
  then have c: "0 < c" "unat c < 2 ^ 63"
    using assms(11) by (auto simp: u64_simps defaultSnapshotChunkBytes_def)
  let ?body = "marshal (json_map data)"
  let ?req = "snapshot_request (nid n) (currentTerm n) i lt ?body c 0"
  have "listening ?req f" using assms(3-7) by (simp add: listening_def)
  moreover have "prefix (buffered ?req f) ?body"
    using assms(8) by (auto simp: buffered_def same_stream_def split: option.split)
  ultimately obtain f' where
    "send_loop S' (handled S M) (\<lambda>_. False) (currentTerm n) i lt ?body c 0 n f = Some (True, n, f')"
    "installed M \<lparr>LastIncludedIndex = i, LastIncludedTerm = lt, Data = data\<rparr> f f'"
    using send_loop_resumes [OF assms(2) _ _ assms(10) c json_map_decodes [OF assms(9)] assms(1) refl]
    by blast
  then show ?thesis by (auto simp: sendSnapshot_def Let_def c_def installed_def)
qed

text \<open>C22. A transfer ends.  Whatever the peer answers, \<open>sendSnapshot\<close> returns once its context is
  done, that is, when every call moves on some clock at whose end the context has expired.\<close>

theorem sendSnapshot_returns:
  assumes "\<And>req w. 0 < ticks w \<Longrightarrow> ticks (snd (rpc req w)) < (ticks w :: nat)"
    and "\<And>w. ticks w = 0 \<Longrightarrow> expired w"
  shows "\<exists>r. sendSnapshot S rpc expired t i lt data chunkSize n w = Some r"
proof -
  have "\<exists>r. send_loop S rpc expired t i lt body c k n w = Some r" for body c k n w
  proof (induction "ticks w" arbitrary: k n w rule: less_induct)
    case less
    let ?req = "snapshot_request (nid n) t i lt body c k"
    note loop = send_loop.simps [of S rpc expired t i lt body c k n w]
    obtain a w1 where rpc: "rpc ?req w = (a, w1)" by fastforce
    show ?case
    proof (cases "expired w \<or> a = None")
      case True
      then show ?thesis using loop rpc by (auto simp: Let_def)
    next
      case False
      then obtain resp where a: "a = Some resp" by auto
      obtain s n1 where reply: "send_reply S t ?req (of_nat (length body))
          (chunk_end c (of_nat (length body)) k) resp n = (s, n1)" by fastforce
      have "0 < ticks w" using assms(2) False by (metis neq0_conv)
      then have "ticks w1 < ticks w" using assms(1) [of w ?req] rpc by simp
      from less [OF this] show ?thesis using loop rpc a reply False by (cases s) (simp_all add: Let_def)
    qed
  qed
  then show ?thesis unfolding sendSnapshot_def Let_def by blast
qed

text \<open>C38. A snapshot that fits one chunk and a peer that refuses it.  The comment in
  \<open>sendSnapshot\<close> promises to give up when the same offset comes back twice, but the guard spares
  the last chunk: to a follower that has stopped or whose storage has failed, the leader sends the
  one chunk again and again, without a pause, until its context expires; with a context that does
  not, it never returns.\<close>

theorem sendSnapshot_spins:
  assumes "stopped f \<or> storageFatal f \<noteq> None" and "currentTerm f \<le> currentTerm n" and "role n = Leader"
    and "0 < chunkSize" and "chunkSize < 2 ^ 63" and "int (length (marshal (json_map data))) \<le> chunkSize"
  shows "sendSnapshot S (handled S' M) (\<lambda>_. False) (currentTerm n) i lt data chunkSize n f = None"
proof -
  let ?body = "marshal (json_map data)" and ?c = "of_int chunkSize :: u64"
  have c: "unat ?c = nat chunkSize" using assms(4,5) by (intro unat_of_int_u64) auto
  have req: "is_Done (snapshot_request (nid n) (currentTerm n) i lt ?body ?c 0)"
    using assms(4-6) c by (subst snapshot_request_chunk(2)) (auto simp: u64_simps)
  have rpc: "handled S' M r f = (Some (is_reply f), f)" for r
    using assms(1) by (auto simp: handled_def HandleInstallSnapshot_def is_receive_def)
  have reply: "send_reply S (currentTerm n) (snapshot_request (nid n) (currentTerm n) i lt ?body ?c 0)
      (of_nat (length ?body)) e (is_reply f) n = (Inr 0, n)" for e
    using req assms(2,3) by (simp add: send_reply_def is_reply_def not_less)
  have "send_loop S (handled S' M) (\<lambda>_. False) (currentTerm n) i lt ?body ?c 0 n f = None"
    by (rule send_loop_spins [where rpc = "handled S' M", OF _ rpc reply]) simp
  then show ?thesis using assms(4) by (simp add: sendSnapshot_def Let_def)
qed


section \<open>Witnesses\<close>

text \<open>Node b leads term 2 and sends the map \<open>k = v\<close> as the snapshot of index 5 to node a, which has
  committed up to 4 and applied up to 3, in chunks of four bytes.\<close>

definition ex_data :: "smap option" where
  "ex_data = Some (fmupd ''k'' ''v'' fmempty)"

definition ex_sender :: "(unit, KVStateMachine) node" where
  "ex_sender = ex_node\<lparr>nid := ''b'', role := Leader\<rparr>"

definition ex_receiver :: "(unit, KVStateMachine) node" where
  "ex_receiver = ex_node\<lparr>commitIndex := 4, waiters := [(4, [7])]\<rparr>"

lemma ex_data_valid:
  "valid_Snapshot \<lparr>LastIncludedIndex = 5, LastIncludedTerm = 2, Data = ex_data\<rparr>"
  "length (marshal (json_map ex_data)) = 9"
proof -
  have s: "sorted_list_of_fmap (fmupd ''k'' ''v'' fmempty) = [(''k'', ''v'')]" by code_simp
  have v: "valid_utf8 ''k''" "valid_utf8 ''v''" by (rule valid_utf8_ascii, simp add: byte_def)+
  then show "valid_Snapshot \<lparr>LastIncludedIndex = 5, LastIncludedTerm = 2, Data = ex_data\<rparr>"
    by (simp add: valid_Snapshot_def ex_data_def s)
  have "escape ''k'' = ''k''" "escape ''v'' = ''v''" by (rule escape_plain, simp add: byte_def)+
  then show "length (marshal (json_map ex_data)) = 9"
    by (simp add: marshal_def json_map_def ex_data_def s quote_def)
qed

lemmas ex_transfer_defs = ex_sender_def ex_receiver_def ex_node_def

lemma ex_store_accepting: "accepting ex_store"
  by (simp add: accepting_def ex_store_def)

lemma ex_receiver_ok: "wf_node ex_receiver" "sm_ok KV ex_receiver"
  by (simp_all add: ex_receiver_def ex_node_defs wf_node_def wf_log_def lastIndexLocked_def lastIndex_def
      sm_ok_def applied_entries_def replay_def KV_def Restore_def NewKVStateMachine_def Apply_def
      noop_command_def Op_defs)

theorem sendSnapshot_installs_witness:
  "\<exists>f'. sendSnapshot ex_store (handled ex_store KV) (\<lambda>_. False) 2 5 2 ex_data 4 ex_sender ex_receiver =
     Some (True, ex_sender, f') \<and> commitIndex f' = 5 \<and> fmlookup (kv_data (sm f')) ''k'' = Some ''v''"
proof -
  have n: "currentTerm ex_sender = 2" by (simp add: ex_transfer_defs)
  have f: "role ex_sender = Leader" "\<not> stopped ex_receiver" "storageFatal ex_receiver = None"
    "isKnownRemotePeerLocked ex_receiver (nid ex_sender)" "currentTerm ex_receiver \<le> currentTerm ex_sender"
    "commitIndex ex_receiver < 5"
    by (simp_all add: ex_transfer_defs isKnownRemotePeerLocked_def)
  have p: "pendingSnapshot ex_receiver = None" by (simp add: ex_transfer_defs)
  from sendSnapshot_installs [of ex_sender ex_store ex_receiver 5 2 ex_data 4 ex_store KV,
      OF f(1) ex_store_accepting f(2-6) _ ex_data_valid(1)] n p ex_data_valid(2)
  show ?thesis by (auto simp: KV_def Restore_def ex_data_def)
qed

text \<open>The transfer in one chunk.\<close>

definition ex_chunk :: InstallSnapshotRequest where
  "ex_chunk = snapshot_request ''b'' 2 5 2 (marshal (json_map ex_data)) 16 0"

lemma ex_chunk_installs:
  obtains resp n' where "HandleInstallSnapshot ex_store KV ex_chunk ex_receiver = (resp, n')"
    "installed KV \<lparr>LastIncludedIndex = 5, LastIncludedTerm = 2, Data = ex_data\<rparr> ex_receiver n'"
proof -
  obtain resp n' where run: "HandleInstallSnapshot ex_store KV ex_chunk ex_receiver = (resp, n')" by fastforce
  have "listening ex_chunk ex_receiver"
    by (simp add: listening_def ex_chunk_def ex_transfer_defs isKnownRemotePeerLocked_def)
  moreover have "buffered ex_chunk ex_receiver = take (unat (0 :: u64)) (marshal (json_map ex_data))"
    by (simp add: buffered_def ex_transfer_defs)
  moreover have "is_Done ex_chunk"
    unfolding ex_chunk_def using ex_data_valid(2) by (subst snapshot_request_chunk(2)) simp_all
  ultimately have "installed KV \<lparr>LastIncludedIndex = 5, LastIncludedTerm = 2, Data = ex_data\<rparr> ex_receiver n'"
    using handled_fits [OF ex_store_accepting _ _ _ _ _ _ json_map_decodes [OF ex_data_valid(1)]
        run [unfolded ex_chunk_def]] ex_data_valid(2)
    by (simp add: ex_chunk_def)
  with run show thesis by (rule that)
qed

theorem HandleInstallSnapshot_safe_witness:
  "\<exists>resp n'. HandleInstallSnapshot ex_store KV ex_chunk ex_receiver = (resp, n') \<and> wf_node n' \<and> sm_ok KV n' \<and>
     lii n' = 5 \<and> 4 \<le> commitIndex n'"
proof (rule ex_chunk_installs)
  fix resp n' assume run: "HandleInstallSnapshot ex_store KV ex_chunk ex_receiver = (resp, n')"
    and inst: "installed KV \<lparr>LastIncludedIndex = 5, LastIncludedTerm = 2, Data = ex_data\<rparr> ex_receiver n'"
  have "commitIndex ex_receiver = 4" by (simp add: ex_receiver_def)
  with HandleInstallSnapshot_safe [OF ex_receiver_ok run] run inst show ?thesis
    by (auto simp: installed_def)
qed


theorem sendSnapshot_returns_witness:
  "\<exists>r. sendSnapshot ex_store (\<lambda>req k. (Some \<lparr>isr_Term = 2, isr_Success = False, isr_BytesReceived = 0\<rparr>, k - 1))
     (\<lambda>k. k = 0) 2 5 2 ex_data 16 ex_sender (3 :: nat) = Some r"
  by (rule sendSnapshot_returns [where ticks = "\<lambda>k. k"]) simp_all

theorem sendSnapshot_spins_witness:
  "sendSnapshot ex_store (handled ex_store KV) (\<lambda>_. False) 2 5 2 ex_data 16 ex_sender
     (ex_receiver\<lparr>stopped := True\<rparr>) = None"
proof -
  have n: "currentTerm ex_sender = 2" "role ex_sender = Leader" by (simp_all add: ex_transfer_defs)
  from sendSnapshot_spins [of "ex_receiver\<lparr>stopped := True\<rparr>" ex_sender 16 ex_data ex_store ex_store KV 5 2]
    n ex_data_valid(2) show ?thesis by (simp add: ex_transfer_defs)
qed

end
