(* ===== verification/Raft_Waiters.thy ===== *)
theory Raft_Waiters
  imports Raft_Client Raft_Snapshot "HOL-Library.Multiset"
begin

text \<open>
  Waiter channels (\<open>internal/raft/node.go\<close>): a channel is sent to and closed at most once, which in
  Go is the difference between an answer and a panic.

  \<open>chan_ok\<close> is the invariant.  \<open>calm\<close> describes what every method except \<open>proposeAppend\<close>,
  \<open>removeWaiter\<close> and the apply loop does to the channels: it moves some waiters, with an error,
  from the map to the channels that have been sent to, and a leader that steps down moves all that
  wait for an uncommitted entry.
\<close>

section \<open>Channels\<close>

definition waiting :: "('st, 'sm) node \<Rightarrow> chan list" where
  "waiting n = concat (map snd (waiters n))"

definition chans :: "('st, 'sm) node \<Rightarrow> chan list" where
  "chans n = waiting n @ map fst (sent n)"

definition chan_ok :: "('st, 'sm) node \<Rightarrow> bool" where
  "chan_ok n \<longleftrightarrow> distinct (map fst (waiters n)) \<and> distinct (chans n) \<and> (\<forall>w \<in> set (chans n). w < nextChan n)"

definition error_sends :: "(chan \<times> applyOutcome) list \<Rightarrow> bool" where
  "error_sends out \<longleftrightarrow> list_all (\<lambda>(w, o'). ao_err o' \<noteq> None) out"

definition calm :: "('st, 'sm) node \<Rightarrow> ('st, 'sm) node \<Rightarrow> bool" where
  "calm n n' \<longleftrightarrow> nextChan n' = nextChan n \<and> mset (chans n') = mset (chans n) \<and>
     (\<exists>P. waiters n' = filter P (waiters n)) \<and> (\<exists>out. sent n' = sent n @ out \<and> error_sends out) \<and>
     (role n = Leader \<longrightarrow> role n' \<noteq> Leader \<longrightarrow> (\<forall>x \<in> set (waiters n'). fst x \<le> commitIndex n))"

lemma calm_chan_ok:
  assumes "calm n n'" and "chan_ok n"
  shows "chan_ok n'"
proof -
  have m: "mset (chans n') = mset (chans n)" and "nextChan n' = nextChan n"
    and w: "\<exists>P. waiters n' = filter P (waiters n)"
    using assms(1) by (simp_all add: calm_def)
  have "distinct (map fst (filter P (waiters n)))" for P
    using assms(2) by (auto simp: chan_ok_def intro: distinct_map_filter)
  moreover have "distinct (chans n') = distinct (chans n)" "set (chans n') = set (chans n)"
    using mset_eq_imp_distinct_iff [OF m] mset_eq_setD [OF m] by simp_all
  ultimately show ?thesis using assms(2) w \<open>nextChan n' = nextChan n\<close> by (auto simp: chan_ok_def)
qed

lemma error_sends_simps [simp]: "error_sends []" "error_sends (a @ b) \<longleftrightarrow> error_sends a \<and> error_sends b"
  by (simp_all add: error_sends_def)

lemma calm_same:
  assumes "waiters n' = waiters n" and "sent n' = sent n" and "nextChan n' = nextChan n"
    and "role n = Leader \<Longrightarrow> role n' = Leader"
  shows "calm n n'"
  using assms by (auto simp: calm_def chans_def waiting_def intro: exI [of _ "\<lambda>_. True"])

lemma calm_refl [simp]: "calm n n"
  by (rule calm_same) simp_all

lemma calm_trans:
  assumes "calm n n1" and "calm n1 n2" and "role n = Leader \<Longrightarrow> role n1 = Leader \<Longrightarrow> commitIndex n1 = commitIndex n"
  shows "calm n n2"
proof -
  obtain P Q out1 out2 where
    w: "waiters n1 = filter P (waiters n)" "waiters n2 = filter Q (waiters n1)" and
    s: "sent n1 = sent n @ out1" "sent n2 = sent n1 @ out2" "error_sends out1" "error_sends out2"
    using assms(1,2) unfolding calm_def by blast
  have "\<exists>P. waiters n2 = filter P (waiters n)" using w by auto
  moreover have "\<exists>out. sent n2 = sent n @ out \<and> error_sends out" using s by simp
  moreover have "\<forall>x \<in> set (waiters n2). fst x \<le> commitIndex n" if "role n = Leader" "role n2 \<noteq> Leader"
    using that assms w by (cases "role n1 = Leader") (auto simp: calm_def)
  ultimately show ?thesis using assms(1,2) by (simp add: calm_def)
qed

text \<open>Dropping waiters with an error.\<close>

lemma mset_concat_filter:
  "mset (concat (map snd (filter P xs))) + mset (concat (map snd (filter (\<lambda>x. \<not> P x) xs))) = mset (concat (map snd xs))"
  by (induction xs) (auto simp: ac_simps)

lemma calm_failUncommittedWaitersLocked: "calm n (failUncommittedWaitersLocked n)"
proof -
  let ?P = "\<lambda>(index, ws). index \<le> commitIndex n"
  have "mset (concat (map snd (filter ?P (waiters n)))) +
      mset (concat (map snd (filter (\<lambda>(index, ws). \<not> index \<le> commitIndex n) (waiters n)))) = mset (waiting n)"
    using mset_concat_filter [of ?P "waiters n"] by (simp add: waiting_def case_prod_unfold)
  then have "mset (chans (failUncommittedWaitersLocked n)) = mset (chans n)"
    by (simp add: failUncommittedWaitersLocked_def Let_def chans_def waiting_def deliver_def comp_def ac_simps)
  moreover have "\<exists>P. waiters (failUncommittedWaitersLocked n) = filter P (waiters n)"
    by (auto simp: failUncommittedWaitersLocked_def Let_def)
  moreover have "\<exists>out. sent (failUncommittedWaitersLocked n) = sent n @ out \<and> error_sends out"
    by (auto simp: failUncommittedWaitersLocked_def Let_def deliver_def error_sends_def error_outcome_def list_all_iff)
  moreover have "\<forall>x \<in> set (waiters (failUncommittedWaitersLocked n)). fst x \<le> commitIndex n"
    by (auto simp: failUncommittedWaitersLocked_def Let_def)
  ultimately show ?thesis by (simp add: calm_def)
qed

lemma failUncommitted_le:
  "x \<in> set (waiters (failUncommittedWaitersLocked n)) \<Longrightarrow> fst x \<le> commitIndex n"
  by (auto simp: failUncommittedWaitersLocked_def Let_def)

lemma calm_after_fail:
  assumes "calm n n1" and "commitIndex n1 = commitIndex n"
    and "waiters n' = waiters (failUncommittedWaitersLocked n1)"
    and "sent n' = sent (failUncommittedWaitersLocked n1)" and "nextChan n' = nextChan n1"
  shows "calm n n'"
proof -
  let ?f = "failUncommittedWaitersLocked n1"
  have f: "calm n1 ?f" by (rule calm_failUncommittedWaitersLocked)
  have "calm n ?f" using assms(2) by (intro calm_trans [OF assms(1) f]) simp
  moreover have "\<forall>x \<in> set (waiters n'). fst x \<le> commitIndex n"
    using failUncommitted_le [of _ n1] assms(2,3) by simp
  ultimately show ?thesis using assms(3-5) by (simp add: calm_def chans_def waiting_def)
qed

lemma calm_failStorageLocked: "calm n (failStorageLocked e n)"
proof (cases e)
  case (Some x)
  let ?n1 = "resetElectionLocked (n\<lparr>lastErr := Some x, storageFatal := Some x, role := Follower, leaderID := '''',
      leaderNoopIndex := 0\<rparr>)"
  have w: "waiters (failStorageLocked e n) = filter (\<lambda>(index, ws). index \<le> commitIndex n) (waiters n)"
    using Some by (simp add: failStorageLocked_def failUncommittedWaitersLocked_def Let_def)
  have "calm ?n1 (failUncommittedWaitersLocked ?n1)" by (rule calm_failUncommittedWaitersLocked)
  then show ?thesis using w Some
    by (auto simp: calm_def failStorageLocked_def chans_def waiting_def)
qed simp

lemma calm_becomeFollowerWithTimerLocked: "calm n (snd (becomeFollowerWithTimerLocked S t l b n))"
proof -
  let ?n3 = "follower_fields t l b n"
  obtain e n4 where p: "persistHardStateLocked S ?n3 = (e, n4)" by fastforce
  have n4: "waiters n4 = waiters n" "sent n4 = sent n" "nextChan n4 = nextChan n" "commitIndex n4 = commitIndex n"
    using persistHardStateLocked_frame [of S ?n3] p by simp_all
  have f: "waiters (failUncommittedWaitersLocked n4) = filter (\<lambda>(index, ws). index \<le> commitIndex n) (waiters n)"
    using n4 by (simp add: failUncommittedWaitersLocked_def Let_def)
  have c: "calm n (failUncommittedWaitersLocked n4)"
    using calm_failUncommittedWaitersLocked [of n4] f n4 by (auto simp: calm_def chans_def waiting_def)
  show ?thesis
  proof (cases e)
    case None
    then show ?thesis using p c n4
      by (auto simp: becomeFollowerWithTimerLocked_def Let_def intro!: calm_same)
  next
    case (Some x)
    have fs: "calm n4 (failStorageLocked e n4)" by (rule calm_failStorageLocked)
    have w: "waiters (failStorageLocked e n4) = filter (\<lambda>(index, ws). index \<le> commitIndex n) (waiters n)"
      using Some n4 by (simp add: failStorageLocked_def failUncommittedWaitersLocked_def Let_def)
    have "calm n (failStorageLocked e n4)"
      using fs w n4 by (auto simp: calm_def chans_def waiting_def)
    then show ?thesis using p Some by (simp add: becomeFollowerWithTimerLocked_def Let_def)
  qed
qed

lemmas calm_becomeFollower =
  calm_becomeFollowerWithTimerLocked [of n S t l True for n S t l, folded becomeFollowerLocked_def]
  calm_becomeFollowerWithTimerLocked [of n S t "''''" False for n S t, folded becomeFollowerForVoteLocked_def]

section \<open>The handlers are calm\<close>

lemma calm_cast_vote: "calm n (snd (cast_vote S req n))"
  by (rule calm_same) (simp_all add: cast_vote_def case_prod_beta Let_def split: option.split)

lemma calm_HandleRequestVote: "calm n (snd (HandleRequestVote S req n))"
proof (cases rule: HandleRequestVote_cases [of S req n])
  case newer
  have "calm n (snd (cast_vote S req (snd (becomeFollowerForVoteLocked S (rv_Term req) n))))"
    by (rule calm_trans [OF calm_becomeFollower(2) calm_cast_vote]) simp
  then show ?thesis by (simp add: newer(4))
qed (simp_all add: calm_becomeFollower calm_cast_vote)


lemma calm_ae_commit: "calm n (snd (ae_commit S c n))"
  by (rule calm_same) (simp_all add: ae_commit_def case_prod_beta Let_def split: option.split)

lemma calm_ae_log:
  assumes "role n \<noteq> Leader"
  shows "calm n (snd (ae_log S req n))"
proof -
  obtain r n1 where m: "mergeEntriesLocked (ae_PrevLogIndex req) (ae_Entries req) n = (r, n1)" by fastforce
  obtain l where n1: "n1 = n\<lparr>log := l\<rparr>" using mergeEntriesLocked_more [of "ae_PrevLogIndex req" "ae_Entries req" n] m by auto
  obtain e st where p: "persist_merge S r n1 = (e, st)" by fastforce
  have "calm n (failStorageLocked e (n1\<lparr>store := st, log := log n\<rparr>))"
    by (rule calm_trans [OF _ calm_failStorageLocked]) (simp_all add: n1 calm_same)
  moreover have "calm n (snd (ae_commit S c (n1\<lparr>store := st\<rparr>)))" for c
    by (rule calm_trans [OF _ calm_ae_commit]) (simp_all add: n1 calm_same)
  moreover have "calm n n1" by (simp add: n1 calm_same)
  ultimately show ?thesis using m p by (cases e) (simp_all add: ae_log_def Let_def)
qed

text \<open>Following the sender of an append or of a chunk.\<close>

lemma calm_followed:
  "calm n (resetElectionLocked ((snd (if b then becomeFollowerLocked S t l n else (None, n)))\<lparr>leaderID := l\<rparr>))"
proof -
  have "calm n (snd (if b then becomeFollowerLocked S t l n else (None, n)))"
    by (simp add: calm_becomeFollower)
  then show ?thesis by (rule calm_trans) (simp_all add: calm_same)
qed

lemma becomeFollowerLocked_role: "becomeFollowerLocked S t l n = (e, n') \<Longrightarrow> role n' = Follower"
  by (metis becomeFollower_state(1) snd_conv)

lemma calm_HandleAppendEntries: "calm n (snd (HandleAppendEntries S req n))"
proof -
  define b where "b = (ae_Term req > currentTerm n \<or> role n \<noteq> Follower)"
  obtain e n1 where f: "(if b then becomeFollowerLocked S (ae_Term req) (ae_LeaderID req) n else (None, n)) = (e, n1)"
    by fastforce
  let ?n2 = "resetElectionLocked (n1\<lparr>leaderID := ae_LeaderID req\<rparr>)"
  have c1: "calm n n1" using calm_becomeFollower(1) [of n S "ae_Term req" "ae_LeaderID req"] f
    by (auto split: if_splits)
  have c2: "calm n ?n2"
    using calm_followed [where b = b and S = S and t = "ae_Term req" and l = "ae_LeaderID req" and n = n] f by simp
  have role: "role ?n2 \<noteq> Leader"
    using f becomeFollowerLocked_role by (fastforce simp: b_def split: if_splits)
  have "calm n (snd (ae_log S req ?n2))"
    by (rule calm_trans [OF c2 calm_ae_log [OF role]]) (use role in simp)
  then show ?thesis using f c1 unfolding HandleAppendEntries_def b_def [symmetric]
    by (cases e) simp_all
qed

lemma calm_is_append: "calm n (snd (is_append req p n))"
  by (rule calm_same) (simp_all add: is_append_def Let_def)

lemma calm_is_chunk: "calm n (snd (is_chunk req n))"
  by (simp add: is_chunk_def calm_is_append calm_same split: option.split)

lemma follow_role: "fst (follow S req n) = None \<Longrightarrow> role (snd (follow S req n)) = Follower"
  by (auto simp: follow_def)

lemma calm_follow: "calm n (snd (follow S req n))"
  by (simp add: follow_def calm_becomeFollower)

lemma calm_pending: "calm n n1 \<Longrightarrow> calm n (n1\<lparr>pendingSnapshot := p\<rparr>)"
  by (simp add: calm_def chans_def waiting_def)

lemma calm_followed_chunk: "calm n (followed S req n)"
  using calm_follow [of n S req] by (simp add: followed_def calm_def chans_def waiting_def)

lemma calm_is_receive: "calm n (snd (is_receive S req n))"
proof -
  obtain e n1 where f: "follow S req n = (e, n1)" by fastforce
  have c: "calm n n1" using calm_follow [of n S req] f by simp
  have "role (followed S req n) = Follower" if "e = None" using follow_role [of S req n] f that by (simp add: followed_def)
  then have "calm n (snd (is_chunk req (followed S req n)))" if "e = None"
    by (intro calm_trans [OF calm_followed_chunk calm_is_chunk]) (use that in simp)
  then show ?thesis using f c unfolding is_receive_def follow_def [symmetric]
    by (cases e) (simp_all add: Let_def calm_pending followed_def)
qed

lemma calm_is_install:
  assumes "role n \<noteq> Leader"
  shows "calm n (snd (is_install S M req body data n))"
proof -
  have p: "waiters (snd (is_persist S s es c n)) = waiters n" "sent (snd (is_persist S s es c n)) = sent n"
    "nextChan (snd (is_persist S s es c n)) = nextChan n" for s es c
    by (simp_all add: is_persist_def case_prod_beta split: option.split)
  have f: "calm n (failStorageLocked e ((snd (is_persist S s es c n))\<lparr>pendingSnapshot := None\<rparr>))" for e s es c
    using assms by (intro calm_trans [OF _ calm_failStorageLocked] calm_same) (simp_all add: p)
  have a: "calm n (is_adopt M s es c (snd (is_persist S s es c n)))" for s es c
    using assms by (intro calm_same) (simp_all add: is_adopt_def p)
  show ?thesis
    by (simp add: is_install_def Let_def case_prod_beta f a calm_same split: option.split)
qed

lemma calm_is_finish: "calm n (snd (is_finish S M req body n))"
proof -
  obtain e n1 where f: "follow S req n = (e, n1)" by fastforce
  have c: "calm n n1" using calm_follow [of n S req] f by simp
  have role: "role (followed S req n) = Follower" if "e = None"
    using follow_role [of S req n] f that by (simp add: followed_def)
  then have "calm n (snd (is_install S M req body data (followed S req n)))" if "e = None" for data
    by (intro calm_trans [OF calm_followed_chunk calm_is_install]) (use that in simp_all)
  then show ?thesis using f c unfolding is_finish_def follow_def [symmetric]
    by (cases e) (simp_all add: Let_def calm_pending followed_def split: prod.split bool.split)
qed

lemma calm_startElection_begin: "calm n (snd (startElection_begin S n))"
  by (rule calm_same) (auto simp: startElection_begin_def Let_def case_prod_beta split: option.split)

lemma calm_commit_to: "calm n (commit_to S c n)"
proof -
  obtain e n1 where p: "persistHardStateLocked S (n\<lparr>commitIndex := c\<rparr>) = (e, n1)" by fastforce
  have n1: "waiters n1 = waiters n" "sent n1 = sent n" "nextChan n1 = nextChan n" "role n1 = role n"
    using persistHardStateLocked_frame [of S "n\<lparr>commitIndex := c\<rparr>"] p by simp_all
  have "calm n (failStorageLocked e (n1\<lparr>commitIndex := commitIndex n\<rparr>))"
    by (rule calm_trans [OF _ calm_failStorageLocked]) (simp_all add: n1 calm_same)
  then show ?thesis using p n1 by (cases e) (simp_all add: commit_to_def calm_same)
qed

lemma calm_advance_loop: "calm n (advance_loop S i n)"
  by (induction S i n rule: advance_loop.induct)
    (subst advance_loop.simps, simp add: calm_commit_to)

lemma calm_advanceCommitLocked: "calm n (advanceCommitLocked S n)"
  by (simp add: advanceCommitLocked_def calm_advance_loop)

lemma calm_becomeLeader: "calm n (snd (becomeLeader S t n))"
proof -
  let ?n1 = "leader_fields n" and ?e = "noop_entry t (leader_fields n)"
  obtain e st where p: "Store_AppendEntries S [?e] (store ?n1) = (e, st)" by fastforce
  have l: "waiters ?n1 = waiters n" "sent ?n1 = sent n" "nextChan ?n1 = nextChan n" "commitIndex ?n1 = commitIndex n"
    by (simp_all add: leader_fields_def Let_def)
  have "calm n (failStorageLocked e (?n1\<lparr>store := st\<rparr>))" if "role n = Candidate"
    using that by (intro calm_trans [OF _ calm_failStorageLocked] calm_same) (simp_all add: l)
  moreover have "calm n (advanceCommitLocked S (append_noop ?e (?n1\<lparr>store := st\<rparr>)))" if "role n = Candidate"
    using that by (intro calm_trans [OF _ calm_advanceCommitLocked] calm_same) (simp_all add: l append_noop_def)
  ultimately show ?thesis using p by (cases e) (simp_all add: becomeLeader_def Let_def)
qed

lemma acknowledge_frame:
  "waiters (acknowledge p m n) = waiters n" "sent (acknowledge p m n) = sent n" "nextChan (acknowledge p m n) = nextChan n"
  "role (acknowledge p m n) = role n" "commitIndex (acknowledge p m n) = commitIndex n"
  "snapshot (acknowledge p m n) = snapshot n" "log (acknowledge p m n) = log n"
  "lastApplied (acknowledge p m n) = lastApplied n" "sm (acknowledge p m n) = sm n"
  by (simp_all add: acknowledge_def Let_def)

lemma calm_replicate_append_reply: "calm n (snd (replicate_append_reply S p req resp n))"
proof -
  have "calm n (advanceCommitLocked S (acknowledge p m n))" for m
    by (rule calm_trans [OF calm_same calm_advanceCommitLocked]) (simp_all add: acknowledge_frame)
  then show ?thesis by (simp add: replicate_append_reply_def calm_becomeFollower calm_same)
qed

lemma calm_replication:
  "calm n (snd (replicate_prepare p n))" "calm n (replicate_snapshot_sent p t i n)"
  "calm n (snd (send_reply S t sreq len e resp n))" "calm n (finishPeerReplication p n)"
  "calm n (snd (acquirePeerReplication b p n))" "calm n (snd (replicateAllOnce_begin n))"
  "calm n (kickReplication n)" "calm n (stepDown S t l n)" "calm n (snd (electionLoop_start n))"
  by (simp_all add: replicate_prepare_def replicate_snapshot_sent_def send_reply_def finishPeerReplication_def
      acquirePeerReplication_def replicateAllOnce_begin_def claim_slots_def kickReplication_def stepDown_def
      electionLoop_start_def Let_def calm_becomeFollower calm_same acknowledge_frame split: option.split)

lemma calm_Stop: "calm n (Stop n)"
proof (cases "stopped n")
  case False
  have "map fst (map (\<lambda>w. (w, x)) ws) = ws" for x :: applyOutcome and ws :: "chan list"
    by (induction ws) simp_all
  then have "mset (chans (Stop n)) = mset (chans n)"
    using False by (simp add: Stop_def chans_def waiting_def deliver_def del: map_map)
  moreover have "\<exists>out. sent (Stop n) = sent n @ out \<and> error_sends out"
    using False by (auto simp: Stop_def deliver_def error_sends_def error_outcome_def list_all_iff)
  moreover have "\<exists>P. waiters (Stop n) = filter P (waiters n)"
    using False by (intro exI [of _ "\<lambda>_. False"]) (simp add: Stop_def)
  ultimately show ?thesis using False by (simp add: calm_def) (simp add: Stop_def)
qed (simp add: Stop_def)

lemmas calm_handlers = calm_HandleRequestVote calm_HandleAppendEntries calm_is_receive calm_is_finish
  calm_startElection_begin calm_becomeLeader calm_replicate_append_reply calm_replication calm_Stop

section \<open>Registering, answering and removing a waiter\<close>

lemma distinct_submset:
  assumes "mset xs \<subseteq># mset ys" and "distinct ys"
  shows "distinct xs"
proof -
  obtain zs where "mset ys = mset (xs @ zs)"
    using assms(1) by (metis ex_mset mset_append subset_mset.le_iff_add)
  then have "distinct (xs @ zs)" using assms(2) mset_eq_imp_distinct_iff by metis
  then show ?thesis by simp
qed

lemma mset_delete:
  assumes "distinct (map fst xs)"
  shows "mset (concat (map snd (AList.delete k xs))) + mset (case map_of xs k of None \<Rightarrow> [] | Some v \<Rightarrow> v) =
    mset (concat (map snd xs))"
  using assms
proof (induction xs)
  case (Cons x xs)
  have "map_of xs k = None" if "fst x = k"
    using Cons.prems that by (auto simp: map_of_eq_None_iff)
  then show ?case using Cons by (auto simp: AList.delete_eq ac_simps split: option.splits)
qed (simp add: AList.delete_eq)

lemma mset_update:
  assumes "distinct (map fst xs)"
  shows "mset (concat (map snd (AList.update k v xs))) + mset (case map_of xs k of None \<Rightarrow> [] | Some v \<Rightarrow> v) =
    mset (concat (map snd xs)) + mset v"
  using assms
proof (induction xs)
  case (Cons x xs)
  have "map_of xs k = None" if "fst x = k"
    using Cons.prems that by (auto simp: map_of_eq_None_iff)
  then show ?case using Cons by (cases x) (auto simp: ac_simps split: option.splits)
qed simp

lemma finishWaitersLocked_chan_ok:
  assumes "chan_ok n"
  shows "chan_ok (finishWaitersLocked i r n)"
proof -
  have "distinct (map fst (waiters n))" using assms by (simp add: chan_ok_def)
  from mset_delete [OF this, of i] have "mset (chans (finishWaitersLocked i r n)) = mset (chans n)"
    by (simp add: chans_def waiting_def finishWaitersLocked_sent waiters_at_def comp_def ac_simps)
  then have "distinct (chans (finishWaitersLocked i r n)) = distinct (chans n)"
    "set (chans (finishWaitersLocked i r n)) = set (chans n)"
    using mset_eq_imp_distinct_iff mset_eq_setD by blast+
  moreover have "nextChan (finishWaitersLocked i r n) = nextChan n"
    by (simp add: finishWaitersLocked_def Let_def)
  ultimately show ?thesis using assms
    by (simp add: chan_ok_def finishWaitersLocked_sent distinct_delete)
qed

lemma submset_cancel:
  assumes "A + mset W = B + mset (remove1 w W)"
  shows "A \<subseteq># B"
proof -
  obtain Z where "mset W = mset (remove1 w W) + Z"
    using diff_subset_eq_self [of "mset W" "{#w#}"] by (auto simp: subset_mset.le_iff_add)
  then have "A + Z + mset (remove1 w W) = B + mset (remove1 w W)" using assms by (simp add: ac_simps)
  then have "A + Z = B" by (simp only: add_right_cancel)
  then show ?thesis by auto
qed

lemma removeWaiter_chan_ok:
  assumes "chan_ok n"
  shows "chan_ok (removeWaiter i w n)"
proof -
  let ?ws = "case map_of (waiters n) i of None \<Rightarrow> [] | Some ws \<Rightarrow> ws"
  have d: "distinct (map fst (waiters n))" using assms by (simp add: chan_ok_def)
  have sent: "sent (removeWaiter i w n) = sent n" by (simp add: removeWaiter_def Let_def)

  have "mset (waiting (removeWaiter i w n)) \<subseteq># mset (waiting n)"
  proof (cases "remove1 w ?ws = []")
    case True
    then show ?thesis using mset_delete [OF d, of i]
      by (simp add: removeWaiter_def Let_def waiting_def) (metis mset_subset_eq_add_left)
  next
    case False
    have "mset (concat (map snd (AList.update i (remove1 w ?ws) (waiters n)))) + mset ?ws =
        mset (concat (map snd (waiters n))) + mset (remove1 w ?ws)"
      by (rule mset_update [OF d])
    then have "mset (concat (map snd (AList.update i (remove1 w ?ws) (waiters n)))) \<subseteq># mset (concat (map snd (waiters n)))"
      by (rule submset_cancel)
    then show ?thesis using False by (simp add: removeWaiter_def Let_def waiting_def)
  qed
  then have sub: "mset (chans (removeWaiter i w n)) \<subseteq># mset (chans n)"
    using sent by (simp add: chans_def)
  have "distinct (map fst (waiters (removeWaiter i w n)))"
    using d by (simp add: removeWaiter_def Let_def distinct_delete distinct_update)
  moreover have "nextChan (removeWaiter i w n) = nextChan n" by (simp add: removeWaiter_def Let_def)
  moreover have "set (chans (removeWaiter i w n)) \<subseteq> set (chans n)" using sub by (metis set_mset_mono set_mset_mset)
  ultimately show ?thesis using assms distinct_submset [OF sub] by (auto simp: chan_ok_def)
qed

text \<open>What an accepted proposal does before it tries to commit.\<close>

definition proposed :: "Command \<Rightarrow> 'st \<Rightarrow> ('st, 'sm) node \<Rightarrow> ('st, 'sm) node" where
  "proposed command st n =
     (let entry = \<lparr>le_Index = lastIndexLocked n + 1, le_Term = currentTerm n, le_Command = command\<rparr>
      in n\<lparr>store := st, log := log n @ [entry],
           matchIndex := (matchIndex n)(nid n \<mapsto> le_Index entry),
           nextIndex := (nextIndex n)(nid n \<mapsto> le_Index entry + 1),
           nextChan := nextChan n + 1,
           waiters := AList.update (le_Index entry) (waiters_at (waiters n) (le_Index entry) @ [nextChan n])
             (waiters n)\<rparr>)"

lemma proposeAppend_cases:
  assumes "proposeAppend S command n = (r, n')"
  obtains (refused) e where "r = Inl e" "n' = n"
    | (failed) e st where "r = Inl e" "n' = failStorageLocked (Some e) (n\<lparr>store := st\<rparr>)" "role n = Leader"
    | (accepted) st where "role n = Leader" "\<not> stopped n" "storageFatal n = None"
        "r = Inr (nextChan n, lastIndexLocked n + 1)" "n' = advanceCommitLocked S (proposed command st n)"
proof -
  obtain e st where p: "Store_AppendEntries S
      [\<lparr>le_Index = lastIndexLocked n + 1, le_Term = currentTerm n, le_Command = command\<rparr>] (store n) = (e, st)"
    by fastforce
  show thesis
  proof (cases "stopped n \<or> storageFatal n \<noteq> None \<or> role n \<noteq> Leader")
    case True
    then have "\<exists>e. r = Inl e \<and> n' = n"
      using assms by (auto simp: proposeAppend_def split: option.splits if_splits)
    then show thesis using refused by blast
  next
    case False
    show thesis
    proof (cases e)
      case None
      then show thesis using assms p False
        by (intro accepted) (auto simp: proposeAppend_def proposed_def waiters_at_def Let_def)
    next
      case (Some x)
      then show thesis using assms p False by (intro failed) (auto simp: proposeAppend_def Let_def)
    qed
  qed
qed

lemma proposed_chan_ok:
  assumes "chan_ok n"
  shows "chan_ok (proposed command st n)"
proof -
  let ?i = "lastIndexLocked n + 1"
  let ?ws = "waiters_at (waiters n) ?i"
  have d: "distinct (map fst (waiters n))" using assms by (simp add: chan_ok_def)
  have "mset (concat (map snd (AList.update ?i (?ws @ [nextChan n]) (waiters n)))) + mset ?ws =
      mset (concat (map snd (waiters n))) + mset (?ws @ [nextChan n])"
    using mset_update [OF d] by (simp add: waiters_at_def)
  then have m: "mset (chans (proposed command st n)) = mset (nextChan n # chans n)"
    by (simp add: chans_def waiting_def proposed_def Let_def)
  have fresh: "nextChan n \<notin> set (chans n)" using assms by (auto simp: chan_ok_def)
  have "distinct (chans (proposed command st n)) = distinct (nextChan n # chans n)"
    "set (chans (proposed command st n)) = set (nextChan n # chans n)"
    using m mset_eq_imp_distinct_iff mset_eq_setD by blast+
  then show ?thesis using assms fresh d
    by (auto simp: chan_ok_def proposed_def Let_def distinct_update less_Suc_eq)
qed

lemma proposeAppend_chan_ok:
  assumes "chan_ok n" and "proposeAppend S command n = (r, n')"
  shows "chan_ok n'"
  using assms(2)
proof (cases rule: proposeAppend_cases)
  case refused
  then show ?thesis using assms(1) by simp
next
  case (failed e st)
  have "calm n n'" unfolding failed(2)
    by (rule calm_trans [OF calm_same calm_failStorageLocked]) simp_all
  then show ?thesis using assms(1) by (rule calm_chan_ok)
next
  case (accepted st)
  then show ?thesis using calm_chan_ok [OF calm_advanceCommitLocked proposed_chan_ok [OF assms(1)]] by simp
qed

end
