(* ===== verification/Raft_Boot.thy ===== *)
theory Raft_Boot
  imports Raft_Apply
begin

text \<open>
  Starting a node (\<open>internal/raft/node.go\<close>): \<open>NewNode\<close> with \<open>normalizeConfig\<close> and
  \<open>validateConfig\<close>.

  A Go map argument is an association list with distinct keys, \<open>None\<close> for the nil map.  The random
  numbers and the clock readings of the new node are arguments; the checks for nil interfaces have
  no counterpart, as the store, the state machine and the transport are given.
\<close>

section \<open>The configuration\<close>

definition millisecond :: duration where
  "millisecond = 1000000"

definition cfg_peers :: "Config \<Rightarrow> (string \<times> string) list" where
  "cfg_peers cfg = (case cfg_Peers cfg of None \<Rightarrow> [] | Some ps \<Rightarrow> ps)"

definition normalizeConfig :: "Config \<Rightarrow> Config" where
  "normalizeConfig cfg =
     (let peers = (case cfg_Peers cfg of None \<Rightarrow> [(cfg_ID cfg, cfg_Address cfg)] | Some ps \<Rightarrow> ps);
          tmin = (if cfg_ElectionTimeoutMin cfg \<le> 0 then 300 * millisecond else cfg_ElectionTimeoutMin cfg)
      in cfg\<lparr>cfg_Peers := Some peers,
             cfg_Address := (if cfg_Address cfg = '''' then get_str (map_of peers) (cfg_ID cfg) else cfg_Address cfg),
             cfg_ElectionTimeoutMin := tmin,
             cfg_ElectionTimeoutMax :=
               (if cfg_ElectionTimeoutMax cfg \<le> tmin then 600 * millisecond else cfg_ElectionTimeoutMax cfg),
             cfg_HeartbeatInterval :=
               (if cfg_HeartbeatInterval cfg \<le> 0 then 75 * millisecond else cfg_HeartbeatInterval cfg),
             cfg_ReadTimeout := (if cfg_ReadTimeout cfg \<le> 0 then 5000 * millisecond else cfg_ReadTimeout cfg),
             cfg_SnapshotThreshold := (if cfg_SnapshotThreshold cfg \<le> 0 then 64 else cfg_SnapshotThreshold cfg),
             cfg_SnapshotChunkBytes :=
               (if cfg_SnapshotChunkBytes cfg \<le> 0 then defaultSnapshotChunkBytes
                else cfg_SnapshotChunkBytes cfg)\<rparr>)"

definition validateConfig :: "Config \<Rightarrow> goerror option" where
  "validateConfig cfg =
     (if cfg_peers cfg = [] then Some (ErrorString ''raft peers must not be empty'')
      else if map_of (cfg_peers cfg) (cfg_ID cfg) = None then
        Some (ErrorString ''raft peers must include local node %q'')
      else if get_str (map_of (cfg_peers cfg)) (cfg_ID cfg) = '''' then
        Some (ErrorString ''raft peers must include a non-empty address for local node %q'')
      else None)"

text \<open>\<open>hashID\<close> is FNV-1a, part of the seed of the random numbers.\<close>

definition hashID :: "string \<Rightarrow> u64" where
  "hashID i = foldl (\<lambda>h c. (xor h (of_char c)) * 1099511628211) 14695981039346656037 i"

section \<open>Restoring the state\<close>

definition cloneSnapshot :: "Snapshot \<Rightarrow> Snapshot" where
  "cloneSnapshot s = \<lparr>LastIncludedIndex = LastIncludedIndex s, LastIncludedTerm = LastIncludedTerm s,
     Data = cloneMap (Data s)\<rparr>"

definition boot_commit :: "HardState \<Rightarrow> LogEntry list \<Rightarrow> Snapshot \<Rightarrow> u64" where
  "boot_commit hs entries s =
     (let c = (if hs_CommitIndex hs < LastIncludedIndex s then LastIncludedIndex s else hs_CommitIndex hs);
          last = lastIndex s entries
      in if c > last then last else c)"

text \<open>Applying the committed entries, up to the first one beyond the commit index.\<close>

fun boot_apply :: "'sm StateMachine \<Rightarrow> u64 \<Rightarrow> LogEntry list \<Rightarrow> 'sm \<Rightarrow> u64 \<Rightarrow> 'sm \<times> u64" where
  "boot_apply M commit [] m applied = (m, applied)"
| "boot_apply M commit (entry # entries) m applied =
     (if le_Index entry > commit then (m, applied)
      else boot_apply M commit entries (snd (SM_Apply M (le_Command entry) m)) (le_Index entry))"

definition boot_clients :: "Config \<Rightarrow> string \<rightharpoonup> string" where
  "boot_clients cfg =
     (let addrs = map_of (cfg_ClientAddresses cfg)
      in if get_str addrs (cfg_ID cfg) = '''' then addrs(cfg_ID cfg \<mapsto> cfg_Address cfg) else addrs)"

definition boot_node :: "Config \<Rightarrow> HardState \<Rightarrow> LogEntry list \<Rightarrow> Snapshot \<Rightarrow> u64 \<Rightarrow> u64 \<Rightarrow>
    nat stream \<Rightarrow> time stream \<Rightarrow> 'st \<Rightarrow> 'sm \<Rightarrow> ('st, 'sm) node" where
  "boot_node cfg hs entries s commit applied rnd now st m =
     \<lparr>snapshot = cloneSnapshot s, log = entries, commitIndex = commit, lastApplied = applied,
      nid = cfg_ID cfg, address = cfg_Address cfg,
      peerAddrs = filter (\<lambda>(i, addr). i \<noteq> cfg_ID cfg) (cfg_peers cfg),
      clientAddrs = boot_clients cfg, heartbeatEvery = cfg_HeartbeatInterval cfg,
      readTimeout = cfg_ReadTimeout cfg, timeoutMin = cfg_ElectionTimeoutMin cfg,
      timeoutMax = cfg_ElectionTimeoutMax cfg, snapshotEvery = cfg_SnapshotThreshold cfg,
      snapshotChunkBytes = cfg_SnapshotChunkBytes cfg, store = st, sm = m, role = Follower,
      currentTerm = hs_CurrentTerm hs, votedFor = hs_VotedFor hs, leaderID = '''', leaderNoopIndex = 0,
      nextIndex = Map.empty, matchIndex = Map.empty, replicating = Map.empty, electionDue = 0,
      rng = rnd, clock = now, waiters = [], nextChan = 0, sent = [], pendingSnapshot = None,
      lastErr = None, storageFatal = None, stopped = False, applyCh = False, replicateCh = False\<rparr>"

text \<open>From the loaded state on.  The result, and the store, which a failed start may have written to
  as well.\<close>

definition boot :: "'st Store \<Rightarrow> 'sm StateMachine \<Rightarrow> nat stream \<Rightarrow> time stream \<Rightarrow> Config \<Rightarrow> 'sm \<Rightarrow>
    HardState \<Rightarrow> LogEntry list \<Rightarrow> Snapshot \<Rightarrow> 'st \<Rightarrow> (goerror + ('st, 'sm) node) \<times> 'st" where
  "boot S M rnd now cfg m0 hs entries s st =
     (let m1 = (if Data s \<noteq> None then SM_Restore M (Data s) m0 else m0);
          commit = boot_commit hs entries s;
          (m, applied) = boot_apply M commit entries m1 (LastIncludedIndex s);
          n = resetElectionLocked (boot_node cfg hs entries s commit applied rnd now st m)
      in if hs_CommitIndex hs \<noteq> commit then
           (case persistHardStateLocked S n of
              (Some err, n1) \<Rightarrow> (Inl err, store n1)
            | (None, n1) \<Rightarrow> (Inr n1, store n1))
         else (Inr n, store n))"

definition NewNode :: "'st Store \<Rightarrow> 'sm StateMachine \<Rightarrow> nat stream \<Rightarrow> time stream \<Rightarrow> Config \<Rightarrow> 'sm \<Rightarrow> 'st \<Rightarrow>
    (goerror + ('st, 'sm) node) \<times> 'st" where
  "NewNode S M rnd now cfg0 m0 st0 =
     (if cfg_ID cfg0 = '''' then (Inl (ErrorString ''raft node id is required''), st0)
      else
        (let cfg = normalizeConfig cfg0
         in case validateConfig cfg of
              Some err \<Rightarrow> (Inl err, st0)
            | None \<Rightarrow>
                (case Store_Load S st0 of
                   (Inl err, st) \<Rightarrow> (Inl err, st)
                 | (Inr (hs, entries, s), st) \<Rightarrow> boot S M rnd now cfg m0 hs entries s st)))"

section \<open>The started node\<close>

lemma boot_commit_between:
  assumes "contiguous (LastIncludedIndex s) entries"
  shows "LastIncludedIndex s \<le> boot_commit hs entries s \<and> boot_commit hs entries s \<le> lastIndex s entries"
proof -
  have "LastIncludedIndex s \<le> lastIndex s entries"
    using unat_lastIndex [OF assms] by (simp add: u64_simps)
  then show ?thesis by (auto simp: boot_commit_def Let_def)
qed

lemma boot_apply_contiguous:
  assumes "contiguous b entries" and "b \<le> commit" and "unat commit \<le> unat b + length entries"
  shows "boot_apply M commit entries m b = (replay M (take (unat commit - unat b) entries) m, commit)"
  using assms
proof (induction entries arbitrary: b m)
  case Nil
  then have "unat b = unat commit" by (simp add: u64_simps)
  then show ?case by (simp add: eq_u64_unat)
next
  case (Cons e es)
  have e: "unat (le_Index e) = Suc (unat b)" "contiguous (le_Index e) es" using Cons.prems(1) by simp_all
  show ?case
  proof (cases "unat b = unat commit")
    case True
    then have "b = commit" by (simp add: eq_u64_unat)
    then show ?thesis using e True by (simp add: u64_simps)
  next
    case False
    then have le: "le_Index e \<le> commit" "unat commit \<le> unat (le_Index e) + length es"
      "unat commit - unat b = Suc (unat commit - unat (le_Index e))"
      using Cons.prems(2,3) e(1) by (auto simp: u64_simps)
    then show ?thesis using Cons.IH [OF e(2) le(1,2)] by (simp add: replay_def leD)
  qed
qed

lemma cloneSnapshot_id [simp]: "cloneSnapshot s = s"
  by (cases s) (auto simp: cloneSnapshot_def cloneMap_def split: option.split)

text \<open>A started node, by what it was loaded from.\<close>

lemma NewNode_loaded:
  assumes "NewNode S M rnd now cfg m0 st0 = (Inr n, st')"
    and "Store_Load S st0 = (Inr (hs, entries, s), st)"
    and "boot_apply M (boot_commit hs entries s) entries
        (if Data s \<noteq> None then SM_Restore M (Data s) m0 else m0) (LastIncludedIndex s) = (m, applied)"
    and "n0 = resetElectionLocked (boot_node (normalizeConfig cfg) hs entries s (boot_commit hs entries s) applied rnd now st m)"
  shows "n = n0 \<or> n = snd (persistHardStateLocked S n0) \<and> fst (persistHardStateLocked S n0) = None"
proof -
  have "boot S M rnd now (normalizeConfig cfg) m0 hs entries s st = (Inr n, st')"
    using assms(1,2) by (simp add: NewNode_def Let_def split: if_splits option.splits)
  then show ?thesis using assms(3,4)
    by (cases "persistHardStateLocked S n0")
      (auto simp: boot_def Let_def split: if_splits option.splits)
qed

lemma NewNode_succeeds:
  assumes "cfg_ID cfg \<noteq> ''''" and "validateConfig (normalizeConfig cfg) = None"
    and "Store_Load S st0 = (Inr (hs, entries, s), st)"
    and "\<And>n :: ('st, 'sm) node. fst (persistHardStateLocked S n) = None"
  shows "\<exists>n. NewNode S M rnd now cfg (m0 :: 'sm) (st0 :: 'st) = (Inr n, store n)"
proof -
  have p: "persistHardStateLocked S n = (None, snd (persistHardStateLocked S n))" for n :: "('st, 'sm) node"
    using assms(4) [of n] by (simp add: prod_eq_iff)
  obtain m applied where b: "boot_apply M (boot_commit hs entries s) entries
        (if Data s \<noteq> None then SM_Restore M (Data s) m0 else m0) (LastIncludedIndex s) = (m, applied)" by fastforce
  have "\<exists>n. boot S M rnd now (normalizeConfig cfg) m0 hs entries s st = (Inr n, store n)"
    unfolding boot_def Let_def b by (subst prod.case, subst p) simp
  then show ?thesis using assms(1-3) by (simp add: NewNode_def Let_def)
qed

context state_machine
begin

lemma NewNode_ok:
  assumes "NewNode S M rnd now cfg m0 st0 = (Inr n, st')"
    and "Store_Load S st0 = (Inr (hs, entries, s), st)"
    and "contiguous (LastIncludedIndex s) entries" and "SM_Restore M None m0 = m0"
  shows "wf_node n \<and> sm_ok M n \<and> lastApplied n = commitIndex n \<and> snapshot n = s \<and> log n = entries \<and>
    unat (commitIndex n) = max (unat (LastIncludedIndex s)) (min (unat (hs_CommitIndex hs)) (unat (lastIndex s entries))) \<and>
    currentTerm n = hs_CurrentTerm hs \<and> votedFor n = hs_VotedFor hs \<and> role n = Follower \<and>
    waiters n = [] \<and> sent n = [] \<and> storageFatal n = None \<and> \<not> stopped n \<and> pendingSnapshot n = None"
proof -
  let ?c = "boot_commit hs entries s" and ?m1 = "if Data s \<noteq> None then SM_Restore M (Data s) m0 else m0"
  have c: "LastIncludedIndex s \<le> ?c" "?c \<le> lastIndex s entries"
    using boot_commit_between [OF assms(3)] by simp_all
  have last: "unat (lastIndex s entries) = unat (LastIncludedIndex s) + length entries"
    by (rule unat_lastIndex [OF assms(3)])
  have run: "boot_apply M ?c entries ?m1 (LastIncludedIndex s) =
      (replay M (take (unat ?c - unat (LastIncludedIndex s)) entries) ?m1, ?c)"
    using c last by (intro boot_apply_contiguous [OF assms(3)]) (simp_all add: u64_simps)
  let ?n0 = "resetElectionLocked (boot_node (normalizeConfig cfg) hs entries s ?c ?c rnd now st
      (replay M (take (unat ?c - unat (LastIncludedIndex s)) entries) ?m1))"
  have "n = ?n0 \<or> n = snd (persistHardStateLocked S ?n0)"
    using NewNode_loaded [OF assms(1,2) run refl] by blast
  then have n: "snapshot n = s" "log n = entries" "commitIndex n = ?c" "lastApplied n = ?c"
    "sm n = replay M (take (unat ?c - unat (LastIncludedIndex s)) entries) ?m1"
    "currentTerm n = hs_CurrentTerm hs" "votedFor n = hs_VotedFor hs" "role n = Follower"
    "waiters n = []" "sent n = []" "storageFatal n = None" "\<not> stopped n" "pendingSnapshot n = None"
    by (auto simp: boot_node_def)
  have "wf_node n" using n c assms(3) by (simp add: wf_node_def wf_log_def lastIndexLocked_def)
  moreover have "SM_Restore M (Data s) (sm n) = ?m1"
    using assms(4) restore_forgets [of "Data s" "sm n" m0] by (cases "Data s") simp_all
  then have "sm_ok M n" by (simp add: sm_ok_def applied_entries_def n)
  moreover have "unat ?c = max (unat (LastIncludedIndex s)) (min (unat (hs_CommitIndex hs)) (unat (lastIndex s entries)))"
    using last by (simp add: boot_commit_def Let_def u64_simps)
  ultimately show ?thesis using n by simp
qed

end

section \<open>Properties\<close>

text \<open>C27. Starting a node with the key-value state machine.  From a store that holds consecutive
  entries after its snapshot, a successful start gives a node in term and with the vote of the
  stored hard state, a follower with no waiters; its commit index is the stored one, moved into the
  range the log covers; and its state machine is the snapshot with exactly the committed entries
  replayed.\<close>

theorem NewNode_restores:
  assumes "NewNode S KV rnd now cfg NewKVStateMachine st0 = (Inr n, st')"
    and "Store_Load S st0 = (Inr (hs, entries, s), st)" and "contiguous (LastIncludedIndex s) entries"
  shows "wf_node n \<and> sm_ok KV n \<and> lastApplied n = commitIndex n \<and> snapshot n = s \<and> log n = entries \<and>
    unat (commitIndex n) = max (unat (LastIncludedIndex s)) (min (unat (hs_CommitIndex hs)) (unat (lastIndex s entries))) \<and>
    currentTerm n = hs_CurrentTerm hs \<and> votedFor n = hs_VotedFor hs \<and> role n = Follower \<and>
    waiters n = [] \<and> sent n = [] \<and> storageFatal n = None \<and> \<not> stopped n \<and> pendingSnapshot n = None"
  by (rule kv.NewNode_ok [OF assms]) (simp add: KV_def Restore_def NewKVStateMachine_def)


section \<open>Witnesses\<close>

definition ex_config :: Config where
  "ex_config = \<lparr>cfg_ID = ''a'', cfg_Address = ''a:1'', cfg_Peers = Some [(''a'', ''a:1''), (''b'', ''b:1'')],
     cfg_ClientAddresses = [], cfg_ElectionTimeoutMin = 0, cfg_ElectionTimeoutMax = 0, cfg_HeartbeatInterval = 0,
     cfg_ReadTimeout = 0, cfg_SnapshotThreshold = 0, cfg_SnapshotChunkBytes = 0\<rparr>"

text \<open>A store that holds one committed put and one entry after it, and whose commit index is past
  its end.\<close>

definition ex_stored :: "LogEntry list" where
  "ex_stored = [(ex_entry 1 1)\<lparr>le_Command := \<lparr>cmd_Op = OpPut, cmd_Key = ''k'', cmd_Value = ''1'', cmd_Expected = []\<rparr>\<rparr>,
     ex_entry 2 2]"

definition ex_boot_store :: "unit Store" where
  "ex_boot_store = ex_store\<lparr>Store_Load := (\<lambda>st. (Inr (\<lparr>hs_CurrentTerm = 2, hs_VotedFor = ''b'', hs_CommitIndex = 9\<rparr>,
     ex_stored, \<lparr>LastIncludedIndex = 0, LastIncludedTerm = 0, Data = None\<rparr>), st))\<rparr>"

theorem NewNode_restores_witness:
  "\<exists>n. NewNode ex_boot_store KV (sconst 0) (sconst 0) ex_config NewKVStateMachine () = (Inr n, ()) \<and>
     commitIndex n = 2 \<and> currentTerm n = 2 \<and> votedFor n = ''b'' \<and> wf_node n \<and> sm_ok KV n"
proof -
  have p: "fst (persistHardStateLocked ex_boot_store m) = None" for m :: "(unit, KVStateMachine) node"
    by (simp add: persistHardStateLocked_def saveHardStateLocked_def ex_boot_store_def ex_store_def)
  have c: "cfg_ID ex_config \<noteq> ''''" "validateConfig (normalizeConfig ex_config) = None"
    by (simp_all add: ex_config_def normalizeConfig_def validateConfig_def Let_def cfg_peers_def get_str_def)
  have load: "Store_Load ex_boot_store () = (Inr (\<lparr>hs_CurrentTerm = 2, hs_VotedFor = ''b'', hs_CommitIndex = 9\<rparr>,
     ex_stored, \<lparr>LastIncludedIndex = 0, LastIncludedTerm = 0, Data = None\<rparr>), ())"
    by (simp add: ex_boot_store_def)
  from NewNode_succeeds [OF c load p, of KV "sconst 0" "sconst 0" NewKVStateMachine]
  obtain n where n: "NewNode ex_boot_store KV (sconst 0) (sconst 0) ex_config NewKVStateMachine () = (Inr n, ())"
    by auto
  have "contiguous 0 ex_stored" "lastIndex s ex_stored = 2" for s
    by (simp_all add: ex_stored_def ex_entry_def lastIndex_def)
  with NewNode_restores [OF n load] n show ?thesis by (simp add: eq_u64_unat)
qed

end
