(* ===== verification/Raft_Process.thy ===== *)
theory Raft_Process
  imports Raft_Waiters Raft_Boot
begin

text \<open>
  A running node (\<open>internal/raft/node.go\<close>): all goroutines of one process, interleaved.

  Every part of a method that holds \<open>mu\<close> is one step; \<open>task\<close> lists those that need no other lock,
  and they may run at any time with any arguments.  The apply goroutine and the installation of a
  snapshot release \<open>mu\<close> in between and exclude each other by \<open>applyMu\<close> and \<open>snapshotPersistMu\<close>; for
  these the state records where they are, and which of the two locks is held follows from it.

  The theorems say that the invariants of the parts hold in every interleaving, that the check the
  apply goroutine repeats after it has run a command never fails, and that a client is answered with
  the result of its own command, at its own place in the committed log.
\<close>

section \<open>Locked sections\<close>

datatype task =
    On_RequestVote RequestVoteRequest
  | On_AppendEntries AppendEntriesRequest
  | Start_election
  | Become_leader u64
  | Step_down u64 string
  | Election_tick
  | Prepare_append string
  | Append_reply string AppendEntriesRequest AppendEntriesResponse
  | Snapshot_sent string u64 u64
  | Chunk_reply u64 InstallSnapshotRequest u64 u64 InstallSnapshotResponse
  | Release_slot string
  | Acquire_slot bool string
  | Replicate_all
  | Kick_replication
  | Shut_down

fun run_task :: "'st Store \<Rightarrow> task \<Rightarrow> ('st, 'sm) node \<Rightarrow> ('st, 'sm) node" where
  "run_task S (On_RequestVote req) n = snd (HandleRequestVote S req n)"
| "run_task S (On_AppendEntries req) n = snd (HandleAppendEntries S req n)"
| "run_task S Start_election n = snd (startElection_begin S n)"
| "run_task S (Become_leader term) n = snd (becomeLeader S term n)"
| "run_task S (Step_down term leader) n = stepDown S term leader n"
| "run_task S Election_tick n = snd (electionLoop_start n)"
| "run_task S (Prepare_append peer) n = snd (replicate_prepare peer n)"
| "run_task S (Append_reply peer req resp) n = snd (replicate_append_reply S peer req resp n)"
| "run_task S (Snapshot_sent peer term idx) n = replicate_snapshot_sent peer term idx n"
| "run_task S (Chunk_reply term req len e resp) n = snd (send_reply S term req len e resp n)"
| "run_task S (Release_slot peer) n = finishPeerReplication peer n"
| "run_task S (Acquire_slot ctxDone peer) n = snd (acquirePeerReplication ctxDone peer n)"
| "run_task S Replicate_all n = snd (replicateAllOnce_begin n)"
| "run_task S Kick_replication n = kickReplication n"
| "run_task S Shut_down n = Stop n"

text \<open>What the environment guarantees: the entries of an append follow each other, as every leader
  sends them, and a log has fewer than 2^64 entries.\<close>

definition has_room :: "('st, 'sm) node \<Rightarrow> bool" where
  "has_room n \<longleftrightarrow> unat (lastIndexLocked n) + 1 < 2 ^ 64"

fun fits :: "task \<Rightarrow> ('st, 'sm) node \<Rightarrow> bool" where
  "fits (On_AppendEntries req) n \<longleftrightarrow> contiguous (ae_PrevLogIndex req) (ae_Entries req)"
| "fits (Become_leader term) n \<longleftrightarrow> has_room n"
| "fits _ n \<longleftrightarrow> True"

section \<open>What a locked section keeps\<close>

text \<open>Snapshot, applied index and state machine stay, committed entries stay, and the log of a node
  that stays leader only grows.\<close>

definition tame :: "('st, 'sm) node \<Rightarrow> ('st, 'sm) node \<Rightarrow> bool" where
  "tame n n' \<longleftrightarrow> keeps_committed n n' \<and> snapshot n' = snapshot n \<and> lastApplied n' = lastApplied n \<and>
     sm n' = sm n \<and> (role n = Leader \<longrightarrow> role n' = Leader \<longrightarrow> prefix (log n) (log n'))"

lemma tame_positions:
  assumes "wf_node n" and "positions n' = positions n" and "sm n' = sm n"
  shows "tame n n'"
  using keeps_committed_positions [OF keeps_committed_refl [OF assms(1)] assms(2)] assms(2,3)
  by (simp add: tame_def positions_eq_iff)

lemma HandleRequestVote_state [simp]:
  "positions (snd (HandleRequestVote S req n)) = positions n" "sm (snd (HandleRequestVote S req n)) = sm n"
  by (simp_all add: HandleRequestVote_def cast_vote_def positions_def case_prod_beta Let_def split: option.split)

lemma startElection_begin_frame [simp]:
  "positions (snd (startElection_begin S n)) = positions n" "sm (snd (startElection_begin S n)) = sm n"
  by (simp_all add: startElection_begin_def positions_def case_prod_beta Let_def split: option.split)

lemma commit_to_sm [simp]: "sm (commit_to S c n) = sm n"
  by (simp add: commit_to_def case_prod_beta split: option.split)

lemma advanceCommitLocked_sm [simp]: "sm (advanceCommitLocked S n) = sm n"
  using advanceCommitLocked_cases [of S n] by auto

lemma tame_trans:
  assumes "tame a b" and "tame b c" and "role a = Leader \<Longrightarrow> role c = Leader \<Longrightarrow> role b = Leader"
  shows "tame a c"
  using assms keeps_committed_trans [of a b c] prefix_order.trans [of "log a" "log b" "log c"]
  by (auto simp: tame_def)

lemma tame_advanceCommitLocked: "wf_node n \<Longrightarrow> tame n (advanceCommitLocked S n)"
  using advanceCommitLocked_keeps [of n S] advanceCommitLocked_more [of S n] by (simp add: tame_def)

lemma tame_append:
  assumes "wf_node n" and "has_room n" and "log n1 = log n @ [e]" and "le_Index e = lastIndexLocked n + 1"
    and "snapshot n1 = snapshot n" "commitIndex n1 = commitIndex n" "lastApplied n1 = lastApplied n" "sm n1 = sm n"
  shows "tame n (advanceCommitLocked S n1)"
proof -
  have k: "keeps_committed n n1" using append_keeps [OF assms(1) _ assms(3-7)] assms(2) by (simp add: has_room_def)
  then have "keeps_committed n1 (advanceCommitLocked S n1)"
    by (intro advanceCommitLocked_keeps) (simp add: keeps_committed_def)
  with k have "keeps_committed n (advanceCommitLocked S n1)" by (rule keeps_committed_trans)
  then show ?thesis using assms by (simp add: tame_def advanceCommitLocked_more)
qed

lemma tame_becomeLeader:
  assumes "wf_node n" and "has_room n"
  shows "tame n (snd (becomeLeader S term n))"
proof (cases rule: becomeLeader_cases [of S "term" n])
  case no
  then show ?thesis using tame_positions [OF assms(1)] by simp
next
  case (failed e st)
  then show ?thesis using assms(1) by (intro tame_positions) (simp_all add: positions_def leader_fields_def Let_def)
next
  case (won st)
  have "tame n (advanceCommitLocked S (append_noop (noop_entry term n) ((leader_fields n)\<lparr>store := st\<rparr>)))"
    by (rule tame_append [OF assms, of _ "noop_entry term n"])
      (simp_all add: append_noop_def leader_fields_def noop_entry_def Let_def)
  then show ?thesis by (simp add: won(5))
qed

lemma ae_log_more:
  "snapshot (snd (ae_log S req n)) = snapshot n" "lastApplied (snd (ae_log S req n)) = lastApplied n"
  "sm (snd (ae_log S req n)) = sm n" "role n \<noteq> Leader \<Longrightarrow> role (snd (ae_log S req n)) \<noteq> Leader"
  using mergeEntriesLocked_more [of "ae_PrevLogIndex req" "ae_Entries req" n]
  by (auto simp: ae_log_def ae_commit_def case_prod_beta Let_def split: option.splits)

lemma HandleAppendEntries_sm [simp]: "sm (snd (HandleAppendEntries S req n)) = sm n"
  by (simp add: HandleAppendEntries_def case_prod_beta ae_log_more split: option.split)

lemma tame_HandleAppendEntries:
  assumes "wf_node n" and "contiguous (ae_PrevLogIndex req) (ae_Entries req)"
  shows "tame n (snd (HandleAppendEntries S req n))"
  using HandleAppendEntries_outcome [of S req n]
proof (elim disjE exE conjE)
  assume "positions (snd (HandleAppendEntries S req n)) = positions n"
  then show ?thesis by (intro tame_positions [OF assms(1)]) simp_all
next
  fix n1
  assume n1: "positions n1 = positions n" "role n1 = Follower" and eq: "HandleAppendEntries S req n = ae_log S req n1"
  have "keeps_committed n (snd (HandleAppendEntries S req n))"
    by (rule HandleAppendEntries_keeps [OF assms(1) contiguous_request_ok [OF assms(2)]])
  moreover have "sm (snd (ae_log S req n1)) = sm n" using HandleAppendEntries_sm [of S req n] eq by simp
  ultimately show ?thesis using n1 eq by (simp add: tame_def ae_log_more positions_eq_iff)
qed

lemma tame_replicate_append_reply:
  assumes "wf_node n"
  shows "tame n (snd (replicate_append_reply S p req resp n))"
proof -
  have a: "tame n (acknowledge p m n)" for m
    using assms by (intro tame_positions) (simp_all add: positions_def acknowledge_frame)
  then have "tame (acknowledge p m n) (advanceCommitLocked S (acknowledge p m n))" for m
    by (intro tame_advanceCommitLocked) (simp add: tame_def keeps_committed_def)
  from tame_trans [OF a this] have "tame n (advanceCommitLocked S (acknowledge p m n))" for m
    by (simp add: acknowledge_frame)
  moreover have "tame n (snd (becomeFollowerLocked S t l n))" for t l
    by (intro tame_positions [OF assms]) simp_all
  moreover have "tame n (n\<lparr>nextIndex := x\<rparr>)" for x
    by (intro tame_positions [OF assms]) (simp_all add: positions_def)
  moreover have "tame n n" by (intro tame_positions [OF assms]) simp_all
  ultimately show ?thesis by (simp add: replicate_append_reply_def)
qed

lemma tame_replication:
  assumes "wf_node n"
  shows "tame n (snd (replicate_prepare p n))" "tame n (replicate_snapshot_sent p t i n)"
    "tame n (snd (send_reply S t sreq len e resp n))" "tame n (finishPeerReplication p n)"
    "tame n (snd (acquirePeerReplication b p n))" "tame n (snd (replicateAllOnce_begin n))"
    "tame n (kickReplication n)" "tame n (stepDown S t l n)" "tame n (snd (electionLoop_start n))" "tame n (Stop n)"
  using tame_positions [OF assms]
  by (simp_all add: replicate_prepare_def replicate_snapshot_sent_def send_reply_def finishPeerReplication_def
      acquirePeerReplication_def replicateAllOnce_begin_def claim_slots_def kickReplication_def stepDown_def
      electionLoop_start_def Stop_def deliver_def Let_def acknowledge_frame positions_def split: option.split)

lemma run_task_ok:
  assumes "wf_node n" and "fits t n"
  shows "tame n (run_task S t n)" and "calm n (run_task S t n)"
proof -
  show "tame n (run_task S t n)" using assms
    by (cases t) (simp_all add: tame_positions tame_HandleAppendEntries tame_becomeLeader
        tame_replicate_append_reply tame_replication)
  show "calm n (run_task S t n)" by (cases t) (simp_all add: calm_handlers)
qed

section \<open>The process\<close>

text \<open>Where the apply goroutine is: outside; about to run a command; with the result of a command;
  about to persist a snapshot, before or after it has the lock; and with the snapshot written.
  \<open>asked\<close> is a ghost field: the index and the command each waiter channel was made for.\<close>

datatype apply_pc = Idle | Running LogEntry | Ran LogEntry ApplyResult | Wants Snapshot | Saving Snapshot | Saved Snapshot

record ('st, 'sm) process =
  pnode :: "('st, 'sm) node"
  applying :: apply_pc
  installing :: "(InstallSnapshotRequest \<times> string) option"
  asked :: "chan \<rightharpoonup> u64 \<times> Command"

definition started :: "('st, 'sm) node \<Rightarrow> ('st, 'sm) process" where
  "started n = \<lparr>pnode = n, applying = Idle, installing = None, asked = Map.empty\<rparr>"

text \<open>Whether \<open>applyMu\<close> and \<open>snapshotPersistMu\<close> are free.\<close>

fun apply_lock_free :: "apply_pc \<Rightarrow> bool" where
  "apply_lock_free (Running e) \<longleftrightarrow> False"
| "apply_lock_free (Ran e r) \<longleftrightarrow> False"
| "apply_lock_free _ \<longleftrightarrow> True"

fun persisting :: "apply_pc \<Rightarrow> bool" where
  "persisting (Saving s) \<longleftrightarrow> True"
| "persisting (Saved s) \<longleftrightarrow> True"
| "persisting _ \<longleftrightarrow> False"

definition persist_lock_free :: "('st, 'sm) process \<Rightarrow> bool" where
  "persist_lock_free p \<longleftrightarrow> installing p = None \<and> \<not> persisting (applying p)"

text \<open>What follows the three locked parts of an iteration of the apply loop.\<close>

fun after_begin :: "apply_action \<Rightarrow> apply_pc" where
  "after_begin (Apply_entry e) = Running e"
| "after_begin _ = Idle"

fun after_finish :: "Snapshot option option \<Rightarrow> apply_pc" where
  "after_finish (Some (Some snap)) = Wants snap"
| "after_finish _ = Idle"

inductive process_step :: "'st Store \<Rightarrow> 'sm StateMachine \<Rightarrow> task option \<Rightarrow> ('st, 'sm) process \<Rightarrow> ('st, 'sm) process \<Rightarrow> bool"
  for S :: "'st Store" and M :: "'sm StateMachine" where
  locked: "fits t (pnode p) \<Longrightarrow> process_step S M (Some t) p (p\<lparr>pnode := run_task S t (pnode p)\<rparr>)"
| refused: "proposeAppend S command (pnode p) = (Inl e, n') \<Longrightarrow> process_step S M None p (p\<lparr>pnode := n'\<rparr>)"
| accepted: "has_room (pnode p) \<Longrightarrow> proposeAppend S command (pnode p) = (Inr (waiter, index), n') \<Longrightarrow>
    process_step S M None p (p\<lparr>pnode := n', asked := (asked p)(waiter \<mapsto> (index, command))\<rparr>)"
| expired: "process_step S M None p (p\<lparr>pnode := removeWaiter index waiter (pnode p)\<rparr>)"
| chunk: "persist_lock_free p \<Longrightarrow> is_receive S req (pnode p) = (Inl resp, n') \<Longrightarrow>
    process_step S M None p (p\<lparr>pnode := n'\<rparr>)"
| last_chunk: "persist_lock_free p \<Longrightarrow> is_receive S req (pnode p) = (Inr body, n') \<Longrightarrow>
    process_step S M None p (p\<lparr>pnode := n', installing := Some (req, body)\<rparr>)"
| install: "installing p = Some (req, body) \<Longrightarrow> snd (is_decode body) \<longrightarrow> apply_lock_free (applying p) \<Longrightarrow>
    process_step S M None p (p\<lparr>pnode := snd (is_finish S M req body (pnode p)), installing := None\<rparr>)"
| begin_apply: "applying p = Idle \<Longrightarrow> apply_begin (pnode p) = (action, n') \<Longrightarrow>
    process_step S M None p (p\<lparr>pnode := n', applying := after_begin action\<rparr>)"
| run_apply: "applying p = Running e \<Longrightarrow> apply_run M e (pnode p) = (result, n') \<Longrightarrow>
    process_step S M None p (p\<lparr>pnode := n', applying := Ran e result\<rparr>)"
| finish_apply: "applying p = Ran e result \<Longrightarrow> apply_finish M e result (pnode p) = (next, n') \<Longrightarrow>
    process_step S M None p (p\<lparr>pnode := n', applying := after_finish next\<rparr>)"
| persist: "applying p = Wants snap \<Longrightarrow> persist_lock_free p \<Longrightarrow>
    process_step S M None p (p\<lparr>applying := (if snapshot_current snap (pnode p) then Saving snap else Idle)\<rparr>)"
| save: "applying p = Saving snap \<Longrightarrow> persistSnapshot_save S snap (pnode p) = (ok, n') \<Longrightarrow>
    process_step S M None p (p\<lparr>pnode := n', applying := (if ok then Saved snap else Idle)\<rparr>)"
| compact: "applying p = Saved snap \<Longrightarrow>
    process_step S M None p (p\<lparr>pnode := persistSnapshot_install S snap (pnode p), applying := Idle\<rparr>)"

definition process_moves :: "'st Store \<Rightarrow> 'sm StateMachine \<Rightarrow> ('st, 'sm) process \<Rightarrow> ('st, 'sm) process \<Rightarrow> bool" where
  "process_moves S M p p' \<longleftrightarrow> (\<exists>a. process_step S M a p p')"

section \<open>The invariant\<close>

text \<open>The state that the snapshot and the first \<open>k\<close> entries after it lead to.\<close>

definition state_at :: "'sm StateMachine \<Rightarrow> u64 \<Rightarrow> ('st, 'sm) node \<Rightarrow> 'sm" where
  "state_at M i n = replay M (take (unat i - unat (lii n)) (log n)) (SM_Restore M (Data (snapshot n)) (sm n))"

text \<open>A snapshot that is still to be persisted: it is covered by what has been applied, and unless the
  node has one as new, it is the state of the log at its index.\<close>

definition snap_ok :: "'sm StateMachine \<Rightarrow> Snapshot \<Rightarrow> ('st, 'sm) node \<Rightarrow> bool" where
  "snap_ok M snap n \<longleftrightarrow> LastIncludedIndex snap \<le> lastApplied n \<and>
     (lii n < LastIncludedIndex snap \<longrightarrow>
        termAtLocked n (LastIncludedIndex snap) = Some (LastIncludedTerm snap) \<and>
        SM_Restore M (Data snap) (sm n) = state_at M (LastIncludedIndex snap) n)"

definition next_entry :: "LogEntry \<Rightarrow> ('st, 'sm) node \<Rightarrow> bool" where
  "next_entry e n \<longleftrightarrow> lastApplied n < commitIndex n \<and> le_Index e = lastApplied n + 1 \<and>
     entryAtLocked n (lastApplied n + 1) = Some e"

fun apply_ok :: "'sm StateMachine \<Rightarrow> apply_pc \<Rightarrow> ('st, 'sm) node \<Rightarrow> bool" where
  "apply_ok M Idle n \<longleftrightarrow> sm n = state_at M (lastApplied n) n"
| "apply_ok M (Running e) n \<longleftrightarrow> sm n = state_at M (lastApplied n) n \<and> next_entry e n"
| "apply_ok M (Ran e r) n \<longleftrightarrow> (r, sm n) = SM_Apply M (le_Command e) (state_at M (lastApplied n) n) \<and> next_entry e n"
| "apply_ok M (Wants snap) n \<longleftrightarrow> sm n = state_at M (lastApplied n) n \<and> snap_ok M snap n"
| "apply_ok M (Saving snap) n \<longleftrightarrow> sm n = state_at M (lastApplied n) n \<and> snap_ok M snap n"
| "apply_ok M (Saved snap) n \<longleftrightarrow> sm n = state_at M (lastApplied n) n \<and> snap_ok M snap n"

text \<open>Each waiter waits for the command it was made for, and only a leader has waiters for entries
  that are not committed.\<close>

definition waiters_ok :: "(chan \<rightharpoonup> u64 \<times> Command) \<Rightarrow> ('st, 'sm) node \<Rightarrow> bool" where
  "waiters_ok ask n \<longleftrightarrow> (\<forall>(i, ws) \<in> set (waiters n). \<forall>w \<in> set ws.
     \<exists>c. ask w = Some (i, c) \<and>
       (lastApplied n < i \<longrightarrow> map_option le_Command (entryAtLocked n i) = Some c) \<and>
       (role n \<noteq> Leader \<longrightarrow> i \<le> commitIndex n))"

definition process_ok :: "'sm StateMachine \<Rightarrow> ('st, 'sm) process \<Rightarrow> bool" where
  "process_ok M p \<longleftrightarrow> wf_node (pnode p) \<and> chan_ok (pnode p) \<and> waiters_ok (asked p) (pnode p) \<and>
     apply_ok M (applying p) (pnode p) \<and> (installing p \<noteq> None \<longrightarrow> \<not> persisting (applying p))"

lemma next_entry_less:
  assumes "next_entry e n"
  shows "unat (le_Index e) = Suc (unat (lastApplied n))" "lastApplied n < le_Index e" "le_Index e \<le> commitIndex n"
proof -
  have "lastApplied n < commitIndex n" "le_Index e = lastApplied n + 1" using assms by (simp_all add: next_entry_def)
  then show "unat (le_Index e) = Suc (unat (lastApplied n))" "lastApplied n < le_Index e" "le_Index e \<le> commitIndex n"
    using unat_Suc_u64 [of "lastApplied n" "commitIndex n"] by (simp_all add: u64_simps)
qed

lemma sm_ok_state_at: "sm_ok M n \<longleftrightarrow> sm n = state_at M (lastApplied n) n"
  by (simp add: sm_ok_def state_at_def applied_entries_def)

section \<open>Locked sections keep the invariant\<close>

lemma entries_prefix:
  assumes "wf_log n" and "wf_log n'" and "snapshot n' = snapshot n"
    and "c \<le> lastIndexLocked n" and "c \<le> lastIndexLocked n'"
    and "\<And>i. i \<le> c \<Longrightarrow> entryAtLocked n' i = entryAtLocked n i"
  shows "take (unat c - unat (lii n)) (log n') = take (unat c - unat (lii n)) (log n)"
proof (intro nth_take_lemma allI impI)
  let ?m = "unat c - unat (lii n)"
  show "?m \<le> length (log n')" "?m \<le> length (log n)"
    using assms(3-5) unat_lastIndexLocked [OF assms(1)] unat_lastIndexLocked [OF assms(2)]
    by (simp_all add: u64_simps)
  fix k assume k: "k < ?m"
  define i :: u64 where "i = of_nat (unat (lii n) + k + 1)"
  have "unat (lii n) + k + 1 < 2 ^ 64" using k unat_max_u64 [of c] by simp
  then have i: "unat i = unat (lii n) + k + 1" unfolding i_def by (rule unat_of_nat_u64)
  then have "i \<le> c" "lii n < i" using k by (simp_all add: u64_simps)
  moreover from this have "i \<le> lastIndexLocked n" "i \<le> lastIndexLocked n'"
    using assms(4,5) by (auto intro: order_trans)
  ultimately show "log n' ! k = log n ! k"
    using assms(6) [of i] i assms(3) by (simp add: entryAtLocked_eq [OF assms(1)] entryAtLocked_eq [OF assms(2)])
qed

lemma tame_take:
  assumes "wf_node n" and "tame n n'" and "i \<le> commitIndex n"
  shows "take (unat i - unat (lii n)) (log n') = take (unat i - unat (lii n)) (log n)"
proof (rule entries_prefix)
  have t: "wf_node n'" "commitIndex n \<le> commitIndex n'" "\<forall>i \<le> commitIndex n. entryAtLocked n' i = entryAtLocked n i"
    using assms(2) by (simp_all add: tame_def keeps_committed_def)
  show "wf_log n" "wf_log n'" using assms(1) t(1) by (simp_all add: wf_node_def)
  show "snapshot n' = snapshot n" using assms(2) by (simp add: tame_def)
  have "i \<le> commitIndex n'" using assms(3) t(2) by (rule order_trans)
  then show "i \<le> lastIndexLocked n" "i \<le> lastIndexLocked n'"
    using assms(1,3) t(1) by (auto simp: wf_node_def intro: order_trans)
  show "entryAtLocked n' j = entryAtLocked n j" if "j \<le> i" for j
    using that assms(3) t(3) order_trans by blast
qed

lemma tame_state_at:
  assumes "wf_node n" and "tame n n'" and "i \<le> commitIndex n"
  shows "state_at M i n' = state_at M i n"
  using tame_take [OF assms] assms(2) by (simp add: state_at_def tame_def)

lemma tame_termAtLocked:
  assumes "tame n n'" and "i \<le> commitIndex n"
  shows "termAtLocked n' i = termAtLocked n i"
  using assms by (simp add: tame_def keeps_committed_def termAtLocked_def)

lemma tame_snap_ok:
  assumes "wf_node n" and "tame n n'" and "snap_ok M snap n"
  shows "snap_ok M snap n'"
proof -
  have "LastIncludedIndex snap \<le> commitIndex n"
    using assms(1,3) by (auto simp: snap_ok_def wf_node_def intro: order_trans)
  then show ?thesis
    using assms(2,3) tame_state_at [OF assms(1,2)] tame_termAtLocked [OF assms(2)] by (simp add: snap_ok_def tame_def)
qed

lemma tame_next_entry:
  assumes "tame n n'" and "next_entry e n"
  shows "next_entry e n'"
proof -
  have "lastApplied n + 1 \<le> commitIndex n"
    using next_entry_less(3) [OF assms(2)] assms(2) by (simp add: next_entry_def)
  then show ?thesis using assms by (auto simp: next_entry_def tame_def keeps_committed_def intro: less_le_trans)
qed

lemma tame_apply_ok:
  assumes "wf_node n" and "tame n n'" and "apply_ok M pc n"
  shows "apply_ok M pc n'"
proof -
  have "lastApplied n \<le> commitIndex n" using assms(1) by (simp add: wf_node_def)
  note s = tame_state_at [OF assms(1,2) this] tame_snap_ok [OF assms(1,2)] tame_next_entry [OF assms(2)]
  have eq: "sm n' = sm n" "lastApplied n' = lastApplied n" using assms(2) by (simp_all add: tame_def)
  show ?thesis using assms(3) s eq by (cases pc) simp_all
qed

lemma tame_grown:
  assumes "wf_node n" and "tame n n'" and "role n = Leader" and "role n' = Leader" and "entryAtLocked n i = Some e"
  shows "entryAtLocked n' i = Some e"
proof -
  have wf: "wf_log n" "wf_log n'" and s: "snapshot n' = snapshot n" and p: "prefix (log n) (log n')"
    using assms(1-4) by (simp_all add: wf_node_def tame_def keeps_committed_def)
  have i: "lii n < i" "i \<le> lastIndexLocked n" "e = log n ! (unat i - unat (lii n) - 1)"
    using assms(5) by (auto simp: entryAtLocked_eq [OF wf(1)] split: if_splits)
  obtain es where es: "log n' = log n @ es" using p by (rule prefixE)
  have "unat i - unat (lii n) - 1 < length (log n)"
    using i(1,2) unat_lastIndexLocked [OF wf(1)] by (simp add: u64_simps)
  moreover have "i \<le> lastIndexLocked n'"
    using i(2) unat_lastIndexLocked [OF wf(1)] unat_lastIndexLocked [OF wf(2)] es s by (simp add: u64_simps)
  ultimately show ?thesis using i s es by (simp add: entryAtLocked_eq [OF wf(2)] nth_append)
qed

lemma tame_waiters_ok:
  assumes "wf_node n" and "tame n n'" and "calm n n'" and "waiters_ok ask n"
  shows "waiters_ok ask n'"
proof -
  have t: "wf_node n'" "commitIndex n \<le> commitIndex n'" "\<forall>i \<le> commitIndex n. entryAtLocked n' i = entryAtLocked n i"
    "lastApplied n' = lastApplied n"
    using assms(2) by (simp_all add: tame_def keeps_committed_def)
  have sub: "set (waiters n') \<subseteq> set (waiters n)" using assms(3) by (auto simp: calm_def)
  have down: "i \<le> commitIndex n" if "role n = Leader" "role n' \<noteq> Leader" "(i, ws) \<in> set (waiters n')" for i ws
    using assms(3) that by (force simp: calm_def)

  have "\<exists>c. ask w = Some (i, c) \<and>
       (lastApplied n' < i \<longrightarrow> map_option le_Command (entryAtLocked n' i) = Some c) \<and>
       (role n' \<noteq> Leader \<longrightarrow> i \<le> commitIndex n')" if w: "(i, ws) \<in> set (waiters n')" "w \<in> set ws" for i ws w
  proof -
    obtain c where c: "ask w = Some (i, c)" "lastApplied n < i \<longrightarrow> map_option le_Command (entryAtLocked n i) = Some c"
      "role n \<noteq> Leader \<longrightarrow> i \<le> commitIndex n" using assms(4) w sub by (fastforce simp: waiters_ok_def)
    have "map_option le_Command (entryAtLocked n' i) = Some c" if "lastApplied n < i"
    proof (cases "i \<le> commitIndex n")
      case True
      then show ?thesis using that c(2) t(3) by simp
    next
      case False
      then have "role n = Leader" "role n' = Leader" using c(3) down w(1) by blast+
      with tame_grown [OF assms(1,2)] c(2) that show ?thesis by auto
    qed
    moreover have "i \<le> commitIndex n'" if "role n' \<noteq> Leader"
      using that c(3) down [OF _ _ w(1)] t(2) order_trans by (cases "role n = Leader") blast+
    ultimately show ?thesis using c(1) t(4) by auto
  qed
  then show ?thesis by (auto simp: waiters_ok_def)
qed

text \<open>What a process keeps when only its node takes such a step.\<close>

lemma process_ok_tame:
  assumes "process_ok M p" and "tame (pnode p) n'" and "calm (pnode p) n'"
  shows "process_ok M (p\<lparr>pnode := n'\<rparr>)"
  using assms tame_waiters_ok [of "pnode p" n'] tame_apply_ok [of "pnode p" n'] calm_chan_ok [OF assms(3)]
  by (simp add: process_ok_def) (simp add: tame_def keeps_committed_def)

section \<open>The other steps keep the invariant\<close>

text \<open>A proposal that is accepted.\<close>

lemma waiter_entry:
  assumes "waiters_ok ask n" and "(i, ws) \<in> set (waiters n)" and "w \<in> set ws"
  obtains c where "ask w = Some (i, c)" "lastApplied n < i \<longrightarrow> map_option le_Command (entryAtLocked n i) = Some c"
    "role n \<noteq> Leader \<longrightarrow> i \<le> commitIndex n"
  using assms by (fastforce simp: waiters_ok_def)

lemma no_waiters_after_log:
  assumes "wf_node n" and "waiters_ok ask n" and "has_room n"
  shows "waiters_at (waiters n) (lastIndexLocked n + 1) = []"
proof (cases "waiters_at (waiters n) (lastIndexLocked n + 1)")
  case (Cons w ws)
  let ?i = "lastIndexLocked n + 1"
  have i: "unat ?i = Suc (unat (lastIndexLocked n))" using assms(3) by (intro unat_Suc_u64_max) (simp add: has_room_def)
  have "(?i, w # ws) \<in> set (waiters n)"
    using Cons map_of_SomeD by (fastforce simp: waiters_at_def split: option.splits)
  with assms(2) obtain c where "lastApplied n < ?i \<longrightarrow> map_option le_Command (entryAtLocked n ?i) = Some c"
    by (rule waiter_entry) auto
  moreover have "lastApplied n < ?i" using assms(1) i by (auto simp: wf_node_def u64_simps)
  moreover have "entryAtLocked n ?i = None"
    using assms(1) i by (simp add: wf_node_def entryAtLocked_eq u64_simps)
  ultimately show ?thesis by simp
qed simp

lemma proposed_keeps:
  assumes "wf_node n" and "has_room n"
  shows "keeps_committed n (proposed c st n)" "snapshot (proposed c st n) = snapshot n"
    "lastApplied (proposed c st n) = lastApplied n" "sm (proposed c st n) = sm n" "role (proposed c st n) = role n"
    "commitIndex (proposed c st n) = commitIndex n" "prefix (log n) (log (proposed c st n))"
    "map_option le_Command (entryAtLocked (proposed c st n) (lastIndexLocked n + 1)) = Some c"
proof -
  let ?e = "\<lparr>le_Index = lastIndexLocked n + 1, le_Term = currentTerm n, le_Command = c\<rparr>" and ?n' = "proposed c st n"
  have p: "log ?n' = log n @ [?e]" "snapshot ?n' = snapshot n" "commitIndex ?n' = commitIndex n"
    "lastApplied ?n' = lastApplied n" "sm ?n' = sm n" "role ?n' = role n"
    by (simp_all add: proposed_def Let_def)
  have room: "unat (lastIndexLocked n) + 1 < 2 ^ 64" using assms(2) by (simp add: has_room_def)
  have k: "keeps_committed n ?n'" "lastIndexLocked ?n' = lastIndexLocked n + 1"
    using append_keeps [OF assms(1) room p(1) _ p(2-4)] by simp_all
  have wf: "wf_log n" "wf_log ?n'" using assms(1) k(1) by (simp_all add: keeps_committed_def wf_node_def)
  have i: "unat (lastIndexLocked n + 1) = Suc (unat (lastIndexLocked n))" using room by (intro unat_Suc_u64_max) simp
  have "entryAtLocked ?n' (lastIndexLocked n + 1) = Some ?e"
    using p(1,2) k(2) i unat_lastIndexLocked [OF wf(1)] by (simp add: entryAtLocked_eq [OF wf(2)] less_u64_unat)
  then show "map_option le_Command (entryAtLocked ?n' (lastIndexLocked n + 1)) = Some c" by simp
  show "keeps_committed n ?n'" "snapshot ?n' = snapshot n" "lastApplied ?n' = lastApplied n" "sm ?n' = sm n"
    "role ?n' = role n" "commitIndex ?n' = commitIndex n" "prefix (log n) (log ?n')"
    using k p by simp_all
qed

lemma tame_proposed:
  assumes "wf_node n" and "has_room n"
  shows "tame n (proposed c st n)"
  using proposed_keeps [OF assms] by (simp add: tame_def)

text \<open>The waiters that were there wait as before; the new one waits for the new entry.\<close>

lemma set_update_subset: "set (AList.update k v al) \<subseteq> insert (k, v) (set al)"
  by (induction al) auto

lemma proposed_waiters_ok:
  assumes "wf_node n" and "has_room n" and "chan_ok n" and "waiters_ok ask n" and "role n = Leader"
  shows "waiters_ok (ask(nextChan n \<mapsto> (lastIndexLocked n + 1, c))) (proposed c st n)"
proof -
  let ?i = "lastIndexLocked n + 1" and ?n' = "proposed c st n"
  have ws: "waiters ?n' = AList.update ?i [nextChan n] (waiters n)"
    using no_waiters_after_log [OF assms(1,4,2)] by (simp add: proposed_def Let_def)
  have i: "unat ?i = Suc (unat (lastIndexLocked n))" using assms(2) by (intro unat_Suc_u64_max) (simp add: has_room_def)
  note p = proposed_keeps [OF assms(1,2), of c st]
  have old: "(ask(nextChan n \<mapsto> (?i, c))) w = Some (j, d) \<and>
      (lastApplied n < j \<longrightarrow> map_option le_Command (entryAtLocked ?n' j) = Some d)"
    if w: "(j, vs) \<in> set (waiters n)" "w \<in> set vs" "ask w = Some (j, d)"
      "lastApplied n < j \<longrightarrow> map_option le_Command (entryAtLocked n j) = Some d" for j vs w d
  proof -
    have "w \<in> set (chans n)" using w(1,2) by (force simp: chans_def waiting_def)
    then have "w < nextChan n" using assms(3) by (simp add: chan_ok_def)
    moreover have "entryAtLocked ?n' j = Some e" if "entryAtLocked n j = Some e" for e
      using tame_grown [OF assms(1) tame_proposed [OF assms(1,2)] assms(5) _ that] p(5) assms(5) by simp
    ultimately show ?thesis using w(3,4) by auto
  qed
  show ?thesis unfolding waiters_ok_def
  proof (intro ballI, clarify)
    fix j vs w assume w: "(j, vs) \<in> set (waiters ?n')" "w \<in> set vs"
    consider "j = ?i" "w = nextChan n" | "(j, vs) \<in> set (waiters n)"
      using w set_update_subset [of ?i "[nextChan n]" "waiters n"] unfolding ws by fastforce
    then show "\<exists>d. (ask(nextChan n \<mapsto> (?i, c))) w = Some (j, d) \<and>
       (lastApplied ?n' < j \<longrightarrow> map_option le_Command (entryAtLocked ?n' j) = Some d) \<and>
       (role ?n' \<noteq> Leader \<longrightarrow> j \<le> commitIndex ?n')"
    proof cases
      case 1
      then show ?thesis using p(8,5) assms(5) by simp
    next
      case 2
      with assms(4) obtain d where "ask w = Some (j, d)"
        "lastApplied n < j \<longrightarrow> map_option le_Command (entryAtLocked n j) = Some d"
        using w(2) by (rule waiter_entry)
      from old [OF 2 w(2) this] show ?thesis using p(3,5) assms(5) by auto
    qed
  qed
qed

lemma proposeAppend_ok:
  assumes "process_ok M p" and "has_room (pnode p)" and "proposeAppend S c (pnode p) = (Inr (w, i), n')"
  shows "process_ok M (p\<lparr>pnode := n', asked := (asked p)(w \<mapsto> (i, c))\<rparr>)"
  using assms(3)
proof (cases rule: proposeAppend_cases)
  case (accepted st)
  let ?n = "pnode p" and ?n1 = "proposed c st (pnode p)"
  have ok: "wf_node ?n" "chan_ok ?n" "waiters_ok (asked p) ?n" "apply_ok M (applying p) ?n"
    using assms(1) by (simp_all add: process_ok_def)
  note t = tame_proposed [OF ok(1) assms(2), of c st]
  have "wf_node ?n1" using t by (simp add: tame_def keeps_committed_def)
  then have "process_ok M (p\<lparr>pnode := ?n1, asked := (asked p)(w \<mapsto> (i, c))\<rparr>)"
    using assms(1) accepted ok proposed_chan_ok [OF ok(2)] tame_apply_ok [OF ok(1) t ok(4)]
      proposed_waiters_ok [OF ok(1) assms(2) ok(2,3) accepted(1)] by (simp add: process_ok_def)
  from process_ok_tame [OF this, of n'] show ?thesis
    using accepted(5) tame_advanceCommitLocked [OF \<open>wf_node ?n1\<close>] calm_advanceCommitLocked [of ?n1 S]
    by (simp add: process_ok_def)
qed simp_all

lemma proposeAppend_refused_ok:
  assumes "process_ok M p" and "proposeAppend S c (pnode p) = (Inl e, n')"
  shows "process_ok M (p\<lparr>pnode := n'\<rparr>)"
  using assms(2)
proof (cases rule: proposeAppend_cases)
  case refused
  then show ?thesis using assms(1) by simp
next
  case (failed e' st)
  have "calm (pnode p) n'" unfolding failed(2)
    by (rule calm_trans [OF calm_same calm_failStorageLocked]) simp_all
  moreover have "tame (pnode p) n'"
    using assms(1) unfolding failed(2) by (intro tame_positions) (simp_all add: process_ok_def)
  ultimately show ?thesis using process_ok_tame [OF assms(1)] by blast
qed simp

text \<open>Steps that only take waiters away or move the applied index.\<close>

lemma waiters_ok_frame:
  assumes "waiters_ok ask n"
    and "\<And>i ws w. (i, ws) \<in> set (waiters n') \<Longrightarrow> w \<in> set ws \<Longrightarrow> \<exists>vs. (i, vs) \<in> set (waiters n) \<and> w \<in> set vs"
    and "snapshot n' = snapshot n" "log n' = log n"
    and "commitIndex n' = commitIndex n" and "lastApplied n \<le> lastApplied n'" and "role n' = role n"
  shows "waiters_ok ask n'"
  unfolding waiters_ok_def
proof (intro ballI, clarify)
  fix i ws w assume "(i, ws) \<in> set (waiters n')" "w \<in> set ws"
  then obtain vs where "(i, vs) \<in> set (waiters n)" "w \<in> set vs" using assms(2) by blast
  with assms(1) obtain c where c: "ask w = Some (i, c)"
    "lastApplied n < i \<longrightarrow> map_option le_Command (entryAtLocked n i) = Some c" "role n \<noteq> Leader \<longrightarrow> i \<le> commitIndex n"
    by (rule waiter_entry)
  have "entryAtLocked n' = entryAtLocked n"
    using assms(3,4) by (simp add: entryAtLocked_def fun_eq_iff Let_def)
  moreover have "lastApplied n < i" if "lastApplied n' < i" using assms(6) that by (rule le_less_trans)
  ultimately show "\<exists>c. ask w = Some (i, c) \<and> (lastApplied n' < i \<longrightarrow> map_option le_Command (entryAtLocked n' i) = Some c) \<and>
      (role n' \<noteq> Leader \<longrightarrow> i \<le> commitIndex n')"
    using c assms(5,7) by auto
qed

text \<open>A client that gives up.\<close>

lemma removeWaiter_waits:
  assumes "(j, vs) \<in> set (waiters (removeWaiter i w n))" and "v \<in> set vs"
  shows "\<exists>vs'. (j, vs') \<in> set (waiters n) \<and> v \<in> set vs'"
proof -
  define ws where "ws = (case map_of (waiters n) i of None \<Rightarrow> [] | Some ws \<Rightarrow> ws)"
  have r: "waiters (removeWaiter i w n) =
      (if remove1 w ws = [] then AList.delete i (waiters n) else AList.update i (remove1 w ws) (waiters n))"
    by (simp add: removeWaiter_def Let_def ws_def)
  have "(j, vs) \<in> set (waiters n) \<or> j = i \<and> vs = remove1 w ws"
    using assms(1) set_update_subset [of i "remove1 w ws" "waiters n"] unfolding r
    by (auto simp: AList.delete_eq split: if_splits)
  moreover have "(i, ws) \<in> set (waiters n)" if "ws \<noteq> []"
    using that map_of_SomeD [of "waiters n" i] by (auto simp: ws_def split: option.splits)
  ultimately show ?thesis using assms(2) set_remove1_subset [of w ws] by fastforce
qed

lemma removeWaiter_ok:
  assumes "process_ok M p"
  shows "process_ok M (p\<lparr>pnode := removeWaiter i w (pnode p)\<rparr>)"
proof -
  let ?n = "pnode p" and ?n' = "removeWaiter i w (pnode p)"
  have pos: "positions ?n' = positions ?n" and eq: "sm ?n' = sm ?n" "role ?n' = role ?n"
    by (simp_all add: removeWaiter_def positions_def Let_def)
  have ok: "wf_node ?n" "chan_ok ?n" "waiters_ok (asked p) ?n" "apply_ok M (applying p) ?n"
    using assms by (simp_all add: process_ok_def)
  have "waiters_ok (asked p) ?n'"
  proof (rule waiters_ok_frame [OF ok(3)])
    show "\<exists>vs. (j, vs) \<in> set (waiters ?n) \<and> v \<in> set vs" if "(j, ws) \<in> set (waiters ?n')" "v \<in> set ws" for j ws v
      using that by (rule removeWaiter_waits)
  qed (use pos eq in \<open>simp_all add: positions_eq_iff\<close>)
  moreover have "apply_ok M (applying p) ?n'"
    by (rule tame_apply_ok [OF ok(1) tame_positions [OF ok(1) pos eq(1)] ok(4)])
  ultimately show ?thesis using assms removeWaiter_chan_ok [OF ok(2)] positions_cong(1) [OF pos]
    by (simp add: process_ok_def)
qed

text \<open>A chunk of a snapshot.\<close>

lemma is_receive_ok:
  assumes "process_ok M p"
  shows "process_ok M (p\<lparr>pnode := snd (is_receive S req (pnode p))\<rparr>)"
  using assms by (intro process_ok_tame tame_positions) (simp_all add: process_ok_def calm_handlers)

lemma is_finish_role:
  assumes "is_finish S M req body n = (resp, n')" and "positions n' \<noteq> positions n"
  shows "role n' \<noteq> Leader"
proof -
  have inst: "role (snd (is_install S M req body data m)) \<noteq> Leader" if "role m \<noteq> Leader" for data and m :: "('a, 'b) node"
    using that
    by (simp add: is_install_def is_persist_def is_adopt_def saveHardStateLocked_def case_prod_beta Let_def split: option.split)
  obtain e n1 where f: "follow S req n = (e, n1)" by fastforce
  have "positions n1 = positions n" using follow_frame(1) [of S req n] f by simp
  moreover have "role n1 \<noteq> Leader" if "e = None" using follow_role [of S req n] f that by simp
  ultimately show ?thesis using assms f inst [of "resetElectionLocked (n1\<lparr>leaderID := is_LeaderID req\<rparr>)"]
    unfolding is_finish_def follow_def [symmetric]
    by (auto simp: Let_def prod_eq_iff split: prod.splits bool.splits if_splits option.splits)
qed

context state_machine
begin

lemma is_finish_ok:
  assumes "process_ok M p" and "installing p = Some (req, body)" and "snd (is_decode body) \<longrightarrow> apply_lock_free (applying p)"
  shows "process_ok M (p\<lparr>pnode := snd (is_finish S M req body (pnode p)), installing := None\<rparr>)"
proof -
  let ?n = "pnode p"
  obtain resp n' where run: "is_finish S M req body ?n = (resp, n')" by fastforce
  have c: "calm ?n n'" using calm_is_finish [of ?n S M req body] run by simp
  have ok: "wf_node ?n" "waiters_ok (asked p) ?n" "apply_ok M (applying p) ?n" "chan_ok ?n"
    using assms(1) by (simp_all add: process_ok_def)
  from is_finish_cases [OF run] have "process_ok M (p\<lparr>pnode := n', installing := None\<rparr>)"
  proof
    assume "positions n' = positions ?n \<and> sm n' = sm ?n"
    then have "process_ok M (p\<lparr>pnode := n'\<rparr>)"
      using ok(1) c by (intro process_ok_tame [OF assms(1)] tame_positions) simp_all
    then show ?thesis by (simp add: process_ok_def)
  next
    assume "\<exists>data. is_decode body = (data, True) \<and> installed M (request_snapshot req data) ?n n'"
    then obtain snap where d: "snd (is_decode body)" and i: "installed M snap ?n n'" by auto
    have le: "lastApplied ?n \<le> commitIndex ?n" using ok(1) by (simp add: wf_node_def)
    have n': "commitIndex ?n < LastIncludedIndex snap" "snapshot n' = snap" "commitIndex n' = LastIncludedIndex snap"
      "lastApplied n' = LastIncludedIndex snap"
      using i le by (auto simp: installed_def max_def)
    then have "commitIndex n' \<noteq> commitIndex ?n" by auto
    then have "role n' \<noteq> Leader" using is_finish_role [OF run] by (simp add: positions_eq_iff)
    have w: "j \<le> commitIndex ?n" if "(j, ws) \<in> set (waiters n')" "w \<in> set ws" for j ws w
    proof (cases "role ?n = Leader")
      case True
      then show ?thesis using c \<open>role n' \<noteq> Leader\<close> that by (force simp: calm_def)
    next
      case False
      then show ?thesis using c ok(2) that by (fastforce simp: calm_def waiters_ok_def)
    qed
    have "waiters_ok (asked p) n'"
      unfolding waiters_ok_def
    proof (intro ballI, clarify)
      fix j ws v assume v: "(j, ws) \<in> set (waiters n')" "v \<in> set ws"
      from w [OF v] n' have "j \<le> lastApplied n'" "j \<le> commitIndex n'" by simp_all
      moreover have "(j, ws) \<in> set (waiters ?n)" using c v(1) by (auto simp: calm_def)
      ultimately show "\<exists>c. asked p v = Some (j, c) \<and>
          (lastApplied n' < j \<longrightarrow> map_option le_Command (entryAtLocked n' j) = Some c) \<and> (role n' \<noteq> Leader \<longrightarrow> j \<le> commitIndex n')"
        using ok(2) v(2) by (fastforce simp: waiters_ok_def)
    qed
    moreover have "snap_ok M s n'" if "snap_ok M s ?n" for s
      using that n' le by (auto simp: snap_ok_def)
    then have "apply_ok M (applying p) n'"
      using ok(3) assms(3) d installed_sm_ok [OF ok(1) i] by (cases "applying p") (simp_all add: sm_ok_state_at)
    ultimately show ?thesis using installed_wf [OF ok(1) i] calm_chan_ok [OF c ok(4)] by (simp add: process_ok_def)
  qed
  then show ?thesis using run by simp
qed

end

text \<open>The apply goroutine.\<close>

lemma state_at_Suc:
  assumes "wf_node n" and "next_entry e n"
  shows "state_at M (le_Index e) n = snd (SM_Apply M (le_Command e) (state_at M (lastApplied n) n))"
proof -
  have lt: "lastApplied n < commitIndex n" and e: "entryAtLocked n (lastApplied n + 1) = Some e"
    "le_Index e = lastApplied n + 1"
    using assms(2) by (simp_all add: next_entry_def)
  from apply_begin_entry [OF assms(1) lt] e(1)
  have "applied_entries (n\<lparr>lastApplied := lastApplied n + 1\<rparr>) = applied_entries n @ [e]" by auto
  then show ?thesis using e(2) by (simp add: state_at_def applied_entries_def replay_append) (simp add: replay_def)
qed


context state_machine
begin

lemma state_at_sm: "state_at M i (n\<lparr>sm := m\<rparr>) = state_at M i n"
  using restore_forgets [of "Data (snapshot n)" m "sm n"] by (simp add: state_at_def)

lemma apply_begin_ok:
  assumes "process_ok M p" and "applying p = Idle" and "apply_begin (pnode p) = (action, n')"
  shows "process_ok M (p\<lparr>pnode := n', applying := after_begin action\<rparr>)"
proof -
  let ?n = "pnode p"
  have wf: "wf_node ?n" using assms(1) by (simp add: process_ok_def)
  show ?thesis
  proof (cases "lastApplied ?n < commitIndex ?n")
    case False
    then have "apply_begin ?n = (Apply_return, ?n)" by (simp add: apply_begin_def not_less)
    then show ?thesis using assms by (auto simp: process_ok_def)
  next
    case True
    from apply_begin_entry [OF wf True] obtain e where "apply_begin ?n = (Apply_entry e, ?n)" "next_entry e ?n"
      using True by (metis next_entry_def)
    then show ?thesis using assms by (auto simp: process_ok_def)
  qed
qed

lemma apply_run_ok:
  assumes "process_ok M p" and "applying p = Running e" and "apply_run M e (pnode p) = (result, n')"
  shows "process_ok M (p\<lparr>pnode := n', applying := Ran e result\<rparr>)"
proof -
  let ?n = "pnode p"
  obtain m where m: "SM_Apply M (le_Command e) (sm ?n) = (result, m)" and n': "n' = ?n\<lparr>sm := m\<rparr>"
    using assms(3) by (auto simp: apply_run_def split: prod.splits)
  have ok: "wf_node ?n" "chan_ok ?n" "waiters_ok (asked p) ?n" "sm ?n = state_at M (lastApplied ?n) ?n" "next_entry e ?n"
    using assms(1,2) by (simp_all add: process_ok_def)
  have pos: "positions n' = positions ?n" by (simp add: n' positions_def)
  have "waiters_ok (asked p) n'" by (rule waiters_ok_frame [OF ok(3)]) (auto simp: n')
  moreover have "chan_ok n'" using ok(2) by (simp add: n' chan_ok_def chans_def waiting_def)
  moreover have "next_entry e n'" using ok(5) positions_cong(3) [OF pos] by (simp add: next_entry_def) (simp add: n')
  moreover have "(result, sm n') = SM_Apply M (le_Command e) (state_at M (lastApplied n') n')"
    using m ok(4) state_at_sm [where n = ?n and m = m] by (simp add: n')
  ultimately show ?thesis using assms(1,2) ok(1) positions_cong(1) [OF pos] by (simp add: process_ok_def)
qed

text \<open>The check after the command has run: it holds in every interleaving.\<close>

lemma apply_finish_next:
  assumes "wf_node n" and "next_entry e n"
  obtains snap where "apply_finish M e r n = (Some snap, finishWaitersLocked (le_Index e) r (n\<lparr>lastApplied := le_Index e\<rparr>))"
    "\<And>s. snap = Some s \<Longrightarrow> snapshotAtLocked M (le_Index e) (finishWaitersLocked (le_Index e) r (n\<lparr>lastApplied := le_Index e\<rparr>)) = Some s"
proof -
  have e: "entryAtLocked n (lastApplied n + 1) = Some e" "le_Index e = lastApplied n + 1"
    using assms(2) by (simp_all add: next_entry_def)
  have "\<exists>snap. apply_finish M e r n = (Some snap, finishWaitersLocked (le_Index e) r (n\<lparr>lastApplied := le_Index e\<rparr>)) \<and>
    (\<forall>s. snap = Some s \<longrightarrow>
      snapshotAtLocked M (le_Index e) (finishWaitersLocked (le_Index e) r (n\<lparr>lastApplied := le_Index e\<rparr>)) = Some s)"
    using e next_entry_less(3) [OF assms(2)] by (auto simp: apply_finish_def Let_def)
  then show thesis using that by blast
qed

lemma apply_finish_ok:
  assumes "process_ok M p" and "applying p = Ran e result" and "apply_finish M e result (pnode p) = (next, n')"
  shows "process_ok M (p\<lparr>pnode := n', applying := after_finish next\<rparr>)"
proof -
  let ?n = "pnode p"
  have ok: "wf_node ?n" "chan_ok ?n" "waiters_ok (asked p) ?n"
    "(result, sm ?n) = SM_Apply M (le_Command e) (state_at M (lastApplied ?n) ?n)" "next_entry e ?n"
    using assms(1,2) by (simp_all add: process_ok_def)
  obtain snap where
    fin: "apply_finish M e result ?n = (Some snap, finishWaitersLocked (le_Index e) result (?n\<lparr>lastApplied := le_Index e\<rparr>))"
    and at: "\<And>s. snap = Some s \<Longrightarrow>
      snapshotAtLocked M (le_Index e) (finishWaitersLocked (le_Index e) result (?n\<lparr>lastApplied := le_Index e\<rparr>)) = Some s"
    using apply_finish_next [OF ok(1,5)] by blast
  have n': "n' = finishWaitersLocked (le_Index e) result (?n\<lparr>lastApplied := le_Index e\<rparr>)" "next = Some snap"
    using fin assms(3) by simp_all
  have snap: "snapshotAtLocked M (le_Index e) n' = Some s" if "snap = Some s" for s
    using at [OF that] by (simp add: n'(1))
  note la = next_entry_less(1,3) [OF ok(5)]
  have wf: "wf_node n'"
  proof -
    have pos: "positions n' = positions (?n\<lparr>lastApplied := le_Index e\<rparr>)" by (simp add: n'(1))
    show ?thesis unfolding positions_cong(1) [OF pos]
      using ok(1) la by (auto simp: wf_node_def u64_simps)
  qed
  have chan: "chan_ok n'" unfolding n'(1)
    by (rule finishWaitersLocked_chan_ok) (use ok(2) in \<open>simp add: chan_ok_def chans_def waiting_def\<close>)
  have wait: "waiters_ok (asked p) n'"
  proof (rule waiters_ok_frame [OF ok(3)])
    show "\<exists>vs. (i, vs) \<in> set (waiters ?n) \<and> w \<in> set vs" if "(i, ws) \<in> set (waiters n')" "w \<in> set ws" for i ws w
      using that by (auto simp: n'(1) finishWaitersLocked_sent AList.delete_eq)
  qed (use la(1) in \<open>simp_all add: n'(1) le_u64_unat\<close>)
  have "sm ?n = state_at M (le_Index e) ?n" using state_at_Suc [OF ok(1,5)] ok(4) by (metis snd_conv)
  then have sm: "sm n' = state_at M (lastApplied n') n'" by (simp add: n'(1) state_at_def)
  have "snap_ok M s n'" if "snap = Some s" for s
    using snap [OF that] sm restore_snapshot
    by (auto simp: snap_ok_def snapshotAtLocked_def cloneMap_def n'(1) split: option.splits)
  then have "apply_ok M (after_finish next) n'" using sm n'(2) by (cases snap) simp_all
  moreover have "\<not> persisting (after_finish next)" by (cases snap) (simp_all add: n'(2))
  ultimately show ?thesis using wf chan wait by (simp add: process_ok_def)
qed

end

text \<open>Persisting a snapshot.\<close>

lemma persistSnapshot_save_ok:
  assumes "process_ok M p" and "applying p = Saving snap" and "persistSnapshot_save S snap (pnode p) = (ok, n')"
  shows "process_ok M (p\<lparr>pnode := n', applying := (if ok then Saved snap else Idle)\<rparr>)"
proof -
  have n': "positions n' = positions (pnode p)" "sm n' = sm (pnode p)" "calm (pnode p) n'"
    using assms(3) by (auto simp: persistSnapshot_save_def positions_def intro: calm_same split: prod.splits option.splits)
  have "process_ok M (p\<lparr>pnode := n'\<rparr>)"
    using assms(1) n' by (intro process_ok_tame [OF assms(1)] tame_positions) (simp_all add: process_ok_def)
  then show ?thesis using assms(2) by (auto simp: process_ok_def)
qed

context state_machine
begin

lemma compacted_state_at:
  assumes "wf_node n" and "snapshot_current snap n" and "snap_ok M snap n"
    and "snapshot n' = snap" and "log n' = filter (\<lambda>e. le_Index e > LastIncludedIndex snap) (log n)" and "sm n' = sm n"
    and "LastIncludedIndex snap \<le> i"
  shows "state_at M i n' = state_at M i n"
proof -
  let ?l = "LastIncludedIndex snap"
  let ?k = "unat ?l - unat (lii n)" and ?j = "unat i - unat ?l"
  have lt: "lii n < ?l" using assms(2) by (simp add: snapshot_current_def not_le)
  have log: "log n' = drop ?k (log n)" using assms(1,5) by (simp add: wf_node_def wf_log_def contiguous_filter_gt)
  have add: "unat i - unat (lii n) = ?k + ?j" using lt assms(7) by (simp add: u64_simps)
  have "SM_Restore M (Data snap) (sm n) = replay M (take ?k (log n)) (SM_Restore M (Data (snapshot n)) (sm n))"
    using assms(3) lt by (simp add: snap_ok_def state_at_def)
  then show ?thesis using assms(4,6) unfolding state_at_def add
    by (simp add: log take_add replay_append)
qed

lemma persistSnapshot_install_ok:
  assumes "process_ok M p" and "applying p = Saved snap"
  shows "process_ok M (p\<lparr>pnode := persistSnapshot_install S snap (pnode p), applying := Idle\<rparr>)"
proof -
  let ?n = "pnode p" and ?n' = "persistSnapshot_install S snap (pnode p)"
  have ok: "wf_node ?n" "chan_ok ?n" "waiters_ok (asked p) ?n" "sm ?n = state_at M (lastApplied ?n) ?n" "snap_ok M snap ?n"
    using assms by (simp_all add: process_ok_def)
  have fr: "waiters ?n' = waiters ?n" "sent ?n' = sent ?n" "nextChan ?n' = nextChan ?n" "role ?n' = role ?n"
    "sm ?n' = sm ?n" "commitIndex ?n' = commitIndex ?n" "lastApplied ?n' = lastApplied ?n"
    by (simp_all add: persistSnapshot_install_def case_prod_beta Let_def split: option.split)
  have chan: "chan_ok ?n'" using ok(2) by (simp add: chan_ok_def chans_def waiting_def fr)
  from persistSnapshot_compacts(1) [of snap ?n S] consider (same) "positions ?n' = positions ?n"
    | (new) "snapshot_current snap ?n" "snapshot ?n' = snap"
        "log ?n' = filter (\<lambda>e. le_Index e > LastIncludedIndex snap) (log ?n)"
    unfolding compacted_def by blast
  then show ?thesis
  proof cases
    case same
    have "process_ok M (p\<lparr>pnode := ?n'\<rparr>)"
      using fr same by (intro process_ok_tame [OF assms(1)] tame_positions [OF ok(1)] calm_same) simp_all
    then show ?thesis using assms(2) by (simp add: process_ok_def)
  next
    case new
    have le: "LastIncludedIndex snap \<le> lastApplied ?n" "lii ?n < LastIncludedIndex snap"
      using new(1) by (auto simp: snapshot_current_def)
    have t: "termAtLocked ?n (LastIncludedIndex snap) = Some (LastIncludedTerm snap)"
      using ok(5) le by (simp add: snap_ok_def)
    note wf = compacted_wf [OF ok(1) persistSnapshot_compacts(1) t, of S]
    have "waiters_ok (asked p) ?n'"
      unfolding waiters_ok_def fr
    proof (intro ballI, clarify)
      fix i ws w assume "(i, ws) \<in> set (waiters ?n)" "w \<in> set ws"
      with ok(3) obtain c where c: "asked p w = Some (i, c)"
        "lastApplied ?n < i \<longrightarrow> map_option le_Command (entryAtLocked ?n i) = Some c" "role ?n \<noteq> Leader \<longrightarrow> i \<le> commitIndex ?n"
        by (rule waiter_entry)
      moreover have "entryAtLocked ?n' i = entryAtLocked ?n i" if "lastApplied ?n < i"
        using wf le(1) that new(2) by (metis le_less_trans)
      ultimately show "\<exists>c. asked p w = Some (i, c) \<and>
          (lastApplied ?n < i \<longrightarrow> map_option le_Command (entryAtLocked ?n' i) = Some c) \<and> (role ?n \<noteq> Leader \<longrightarrow> i \<le> commitIndex ?n)"
        by simp
    qed
    moreover have "sm ?n' = state_at M (lastApplied ?n') ?n'"
      using compacted_state_at [OF ok(1) new(1) ok(5) new(2,3) fr(5) le(1)] ok(4) fr by simp
    ultimately show ?thesis using chan wf by (simp add: process_ok_def)
  qed
qed

text \<open>The invariant holds in every interleaving.\<close>

lemma process_step_ok:
  assumes "process_step S M a p p'" and "process_ok M p"
  shows "process_ok M p'"
  using assms
proof (induction rule: process_step.induct)
  case (locked t p)
  then have wf: "wf_node (pnode p)" by (simp add: process_ok_def)
  show ?case using process_ok_tame [OF locked(2)] run_task_ok [OF wf locked(1)] by blast
next
  case (chunk p req resp n')
  then show ?case using is_receive_ok [of M p S req] by simp
next
  case (last_chunk p req body n')
  then have "process_ok M (p\<lparr>pnode := n'\<rparr>)" using is_receive_ok [of M p S req] by simp
  then show ?case using last_chunk(1) by (simp add: process_ok_def persist_lock_free_def)
next
  case (persist p snap)
  then show ?case by (auto simp: process_ok_def persist_lock_free_def)
qed (simp_all add: proposeAppend_refused_ok proposeAppend_ok removeWaiter_ok is_finish_ok apply_begin_ok apply_run_ok
    apply_finish_ok persistSnapshot_save_ok persistSnapshot_install_ok)

lemma process_reachable_ok:
  assumes "(process_moves S M)\<^sup>*\<^sup>* p p'" and "process_ok M p"
  shows "process_ok M p'"
  using assms by (induction rule: rtranclp_induct) (auto simp: process_moves_def intro: process_step_ok)

lemma started_ok:
  assumes "wf_node n" and "sm_ok M n" and "waiters n = []" and "sent n = []"
  shows "process_ok M (started n)"
  using assms by (simp add: process_ok_def started_def chan_ok_def chans_def waiting_def waiters_ok_def sm_ok_state_at)

end

section \<open>What a step sends and keeps\<close>

lemma waiters_at_member: "w \<in> set (waiters_at ws i) \<Longrightarrow> \<exists>cs. (i, cs) \<in> set ws \<and> w \<in> set cs"
  by (cases "map_of ws i") (auto simp: waiters_at_def dest: map_of_SomeD)

lemma calm_sent: "calm n n' \<Longrightarrow> \<exists>out. sent n' = sent n @ out \<and> error_sends out"
  by (simp add: calm_def)

lemma proposeAppend_sent:
  assumes "proposeAppend S c n = (r, n')"
  shows "\<exists>out. sent n' = sent n @ out \<and> error_sends out"
  using assms
proof (cases rule: proposeAppend_cases)
  case refused
  then show ?thesis by simp
next
  case (failed e st)
  then show ?thesis using calm_sent [OF calm_failStorageLocked, of _ "n\<lparr>store := st\<rparr>"] by simp
next
  case (accepted st)
  then show ?thesis using calm_sent [OF calm_advanceCommitLocked, of S "proposed c st n"]
    by (simp add: proposed_def Let_def)
qed

text \<open>The answers: errors, or the result of the entry that the apply goroutine has just run, to the
  waiters of that entry.\<close>

context state_machine
begin

lemma apply_finish_sent:
  assumes "process_ok M p" and "applying p = Ran e r" and "apply_finish M e r (pnode p) = (next, n')"
  shows "next_entry e (pnode p)" and "next \<noteq> None"
    and "sent n' = sent (pnode p) @ map (\<lambda>w. (w, \<lparr>ao_result = r, ao_err = None\<rparr>)) (waiters_at (waiters (pnode p)) (le_Index e))"
proof -
  have ok: "wf_node (pnode p)" "next_entry e (pnode p)" using assms(1,2) by (simp_all add: process_ok_def)
  obtain snap where fin: "apply_finish M e r (pnode p) =
      (Some snap, finishWaitersLocked (le_Index e) r ((pnode p)\<lparr>lastApplied := le_Index e\<rparr>))"
    using apply_finish_next [OF ok] by blast
  show "next_entry e (pnode p)" by (rule ok(2))
  show "next \<noteq> None" "sent n' = sent (pnode p) @
      map (\<lambda>w. (w, \<lparr>ao_result = r, ao_err = None\<rparr>)) (waiters_at (waiters (pnode p)) (le_Index e))"
    using fin assms(3) by (auto simp: finishWaitersLocked_sent)
qed

lemma process_step_sent:
  assumes "process_step S M a p p'" and "process_ok M p"
  shows "\<exists>out. sent (pnode p') = sent (pnode p) @ out \<and>
    (error_sends out \<or> (\<exists>e r. applying p = Ran e r \<and>
       out = map (\<lambda>w. (w, \<lparr>ao_result = r, ao_err = None\<rparr>)) (waiters_at (waiters (pnode p)) (le_Index e))))"
  using assms
proof (induction rule: process_step.induct)
  case (locked t p)
  then have wf: "wf_node (pnode p)" by (simp add: process_ok_def)
  show ?case using calm_sent [OF run_task_ok(2) [OF wf locked(1)], of S] by auto
next
  case (refused command p e n')
  then show ?case using proposeAppend_sent by fastforce
next
  case (accepted p command waiter index n')
  then show ?case using proposeAppend_sent by fastforce
next
  case (expired p index waiter)
  then show ?case by (simp add: removeWaiter_def Let_def)
next
  case (chunk p req resp n')
  then show ?case using calm_sent [OF calm_is_receive [of "pnode p" S req]] by auto
next
  case (last_chunk p req body n')
  then show ?case using calm_sent [OF calm_is_receive [of "pnode p" S req]] by auto
next
  case (install p req body)
  then show ?case using calm_sent [OF calm_is_finish [of "pnode p" S M req body]] by auto
next
  case (begin_apply p action n')
  then show ?case by (auto simp: apply_begin_def split: if_splits option.splits)
next
  case (run_apply p e result n')
  then show ?case by (auto simp: apply_run_def split: prod.splits)
next
  case (finish_apply p e result "next" n')
  then show ?case using apply_finish_sent(3) [of p e result "next" n'] by auto
next
  case (save p snap ok n')
  then show ?case by (auto simp: persistSnapshot_save_def split: prod.splits option.splits)
next
  case (compact p snap)
  then show ?case by (simp add: persistSnapshot_install_def case_prod_beta Let_def split: option.split)
qed simp

lemma process_answer:
  assumes "process_step S M a p p'" and "process_ok M p"
    and "(w, out) \<in> set (drop (length (sent (pnode p))) (sent (pnode p')))" and "ao_err out = None"
  obtains e where "asked p w = Some (le_Index e, le_Command e)" "entryAtLocked (pnode p) (le_Index e) = Some e"
    "lastApplied (pnode p) < le_Index e" "le_Index e \<le> commitIndex (pnode p)" "le_Index e = lastApplied (pnode p) + 1"
    "w \<notin> fst ` set (sent (pnode p))"
    "ao_result out = fst (SM_Apply M (le_Command e) (state_at M (lastApplied (pnode p)) (pnode p)))"
proof -
  let ?n = "pnode p"
  obtain new where new: "sent (pnode p') = sent ?n @ new" and
    cases: "error_sends new \<or> (\<exists>e r. applying p = Ran e r \<and>
       new = map (\<lambda>w. (w, \<lparr>ao_result = r, ao_err = None\<rparr>)) (waiters_at (waiters ?n) (le_Index e)))"
    using process_step_sent [OF assms(1,2)] by blast
  have mem: "(w, out) \<in> set new" using assms(3) new by simp
  then have "\<not> error_sends new" using assms(4) by (force simp: error_sends_def list_all_iff)
  with cases obtain e r where pc: "applying p = Ran e r"
    and map: "new = map (\<lambda>w. (w, \<lparr>ao_result = r, ao_err = None\<rparr>)) (waiters_at (waiters ?n) (le_Index e))" by blast
  have ok: "waiters_ok (asked p) ?n" "chan_ok ?n" "next_entry e ?n"
    "(r, sm ?n) = SM_Apply M (le_Command e) (state_at M (lastApplied ?n) ?n)"
    using assms(2) pc by (simp_all add: process_ok_def)
  have w: "w \<in> set (waiters_at (waiters ?n) (le_Index e))" and out: "ao_result out = r" using mem map by auto
  from waiters_at_member [OF w] obtain cs where cs: "(le_Index e, cs) \<in> set (waiters ?n)" "w \<in> set cs" by blast
  with ok(1) obtain c where c: "asked p w = Some (le_Index e, c)"
    "lastApplied ?n < le_Index e \<longrightarrow> map_option le_Command (entryAtLocked ?n (le_Index e)) = Some c"
    by (rule waiter_entry)
  have ent: "entryAtLocked ?n (le_Index e) = Some e" "le_Index e = lastApplied ?n + 1"
    using ok(3) by (simp_all add: next_entry_def)
  note le = next_entry_less(2,3) [OF ok(3)]
  have "w \<in> set (waiting ?n)" using cs by (force simp: waiting_def)
  then have "w \<notin> fst ` set (sent ?n)" using ok(2) by (auto simp: chan_ok_def chans_def)
  moreover have "c = le_Command e" using c(2) le(1) ent(1) by simp
  ultimately show thesis using that c(1) ent le out ok(4) by (metis fst_conv)
qed

end

text \<open>Nothing that is committed or applied is taken back.\<close>

definition forward :: "('st, 'sm) node \<Rightarrow> ('st, 'sm) node \<Rightarrow> bool" where
  "forward n n' \<longleftrightarrow> commitIndex n \<le> commitIndex n' \<and> lastApplied n \<le> lastApplied n' \<and> lii n \<le> lii n' \<and>
     (\<forall>i. lii n' < i \<and> i \<le> commitIndex n \<longrightarrow> entryAtLocked n' i = entryAtLocked n i)"

lemma forward_refl [simp]: "forward n n"
  by (simp add: forward_def)

lemma forward_trans:
  assumes "forward a b" and "forward b c"
  shows "forward a c"
proof -
  have "entryAtLocked c i = entryAtLocked a i" if "lii c < i" "i \<le> commitIndex a" for i
  proof -
    have "lii b < i" "i \<le> commitIndex b" using assms that by (auto simp: forward_def intro: le_less_trans order_trans)
    then show ?thesis using assms that by (simp add: forward_def)
  qed
  then show ?thesis using assms by (auto simp: forward_def intro: order_trans)
qed

lemma tame_forward: "tame n n' \<Longrightarrow> forward n n'"
  by (simp add: tame_def forward_def keeps_committed_def)

lemma forward_positions:
  assumes "positions n' = positions n"
  shows "forward n n'"
  using assms positions_cong(3) [OF assms] by (simp add: forward_def positions_eq_iff)

lemma installed_forward:
  assumes "wf_node n" and "installed M snap n n'"
  shows "forward n n'"
proof -
  have "lii n \<le> lastApplied n" "lastApplied n \<le> commitIndex n" using assms(1) by (simp_all add: wf_node_def)
  moreover have "commitIndex n < LastIncludedIndex snap" "snapshot n' = snap" "commitIndex n' = LastIncludedIndex snap"
    "lastApplied n \<le> lastApplied n'" using assms(2) by (simp_all add: installed_def)
  ultimately show ?thesis by (auto simp: forward_def)
qed

lemma apply_begin_same:
  assumes "wf_node n" and "apply_begin n = (action, n')"
  shows "n' = n"
proof (cases "lastApplied n < commitIndex n")
  case True
  from apply_begin_entry [OF assms(1) True] obtain e where "apply_begin n = (Apply_entry e, n)" .
  then show ?thesis using assms(2) by simp
next
  case False
  then show ?thesis using assms(2) by (simp add: apply_begin_def not_less)
qed

context state_machine
begin

lemma process_step_forward:
  assumes "process_step S M a p p'" and "process_ok M p"
  shows "forward (pnode p) (pnode p')"
  using assms
proof (induction rule: process_step.induct)
  case (locked t p)
  then have wf: "wf_node (pnode p)" by (simp add: process_ok_def)
  show ?case using tame_forward [OF run_task_ok(1) [OF wf locked(1)]] by simp
next
  case (refused command p e n')
  have "positions n' = positions (pnode p)"
    using refused(1) by (cases rule: proposeAppend_cases) simp_all
  then show ?case by (simp add: forward_positions)
next
  case (accepted p command waiter index n')
  from accepted(2) obtain st where n': "n' = advanceCommitLocked S (proposed command st (pnode p))"
    by (cases rule: proposeAppend_cases) auto
  have wf: "wf_node (pnode p)" using accepted by (simp add: process_ok_def)
  note t = tame_proposed [OF wf accepted(1), of command st]
  then have "wf_node (proposed command st (pnode p))" by (simp add: tame_def keeps_committed_def)
  from forward_trans [OF tame_forward [OF t] tame_forward [OF tame_advanceCommitLocked [OF this]]]
  show ?case by (simp add: n')
next
  case (install p req body)
  have wf: "wf_node (pnode p)" using install by (simp add: process_ok_def)
  obtain resp n' where run: "is_finish S M req body (pnode p) = (resp, n')" by fastforce
  from is_finish_cases [OF run] show ?case
    using installed_forward [OF wf] forward_positions run by auto
next
  case (chunk p req resp n')
  then show ?case using is_receive_frame(1) [of S req "pnode p"] by (simp add: forward_positions)
next
  case (last_chunk p req body n')
  then show ?case using is_receive_frame(1) [of S req "pnode p"] by (simp add: forward_positions)
next
  case (begin_apply p action n')
  then show ?case using apply_begin_same [of "pnode p" action n'] by (simp add: process_ok_def)
next
  case (run_apply p e result n')
  then show ?case by (auto simp: apply_run_def positions_def intro: forward_positions split: prod.splits)
next
  case (finish_apply p e result "next" n')
  then have ok: "wf_node (pnode p)" "next_entry e (pnode p)" by (simp_all add: process_ok_def)
  have "n' = finishWaitersLocked (le_Index e) result ((pnode p)\<lparr>lastApplied := le_Index e\<rparr>)"
    using apply_finish_next [OF ok, of result] finish_apply(2) by auto
  then have n': "positions n' = positions ((pnode p)\<lparr>lastApplied := le_Index e\<rparr>)" by simp
  have "forward (pnode p) ((pnode p)\<lparr>lastApplied := le_Index e\<rparr>)"
    using next_entry_less(2) [OF ok(2)] by (simp add: forward_def entryAtLocked_def Let_def)
  from forward_trans [OF this forward_positions [OF n']] show ?case by simp
next
  case (save p snap ok n')
  then show ?case
    by (auto simp: persistSnapshot_save_def positions_def intro!: forward_positions split: prod.splits option.splits)
next
  case (compact p snap)
  let ?n = "pnode p" and ?n' = "persistSnapshot_install S snap (pnode p)"
  have ok: "wf_node ?n" "snap_ok M snap ?n" using compact by (simp_all add: process_ok_def)
  note c = persistSnapshot_compacts(1) [of snap ?n S]
  show ?case
  proof (cases "positions ?n' = positions ?n")
    case False
    then have cur: "snapshot_current snap ?n" "snapshot ?n' = snap" "commitIndex ?n' = commitIndex ?n" "lastApplied ?n' = lastApplied ?n"
      using c by (simp_all add: compacted_def)
    then have "termAtLocked ?n (LastIncludedIndex snap) = Some (LastIncludedTerm snap)" "lii ?n \<le> LastIncludedIndex snap"
      using ok(2) by (auto simp: snapshot_current_def snap_ok_def)
    with compacted_wf [OF ok(1) c] cur show ?thesis by (simp add: forward_def)
  qed (simp add: forward_positions)
next
  case (expired p index waiter)
  then show ?case by (simp add: removeWaiter_def positions_def forward_positions Let_def)
qed simp

end

end
