(* ===== verification/Store_Contract.thy ===== *)
theory Store_Contract
  imports Raft_Types
begin

text \<open>
  What package raft relies on from its store for the votes of a node to survive a restart.
  \<open>possible st\<close> is the set of the hard states that a later \<open>Load\<close> may return, whatever happens to
  the process and to the power until then.
\<close>

locale hard_state_store =
  fixes S :: "'st Store"
    and ok :: "'st \<Rightarrow> bool"
    and possible :: "'st \<Rightarrow> HardState set"
    and power_failure :: "'st \<Rightarrow> 'st \<Rightarrow> bool"
    and storable :: "string \<Rightarrow> bool"
  assumes storable_empty: "storable ''''"
    and save_ok:
      "ok st \<Longrightarrow> storable (hs_VotedFor h) \<Longrightarrow> Store_SaveHardState S h st = (None, st') \<Longrightarrow>
       ok st' \<and> possible st' = {h}"
    and save_failed:
      "ok st \<Longrightarrow> storable (hs_VotedFor h) \<Longrightarrow> Store_SaveHardState S h st = (Some e, st') \<Longrightarrow>
       ok st' \<and> possible st' \<subseteq> insert h (possible st)"
    and append: "ok st \<Longrightarrow> Store_AppendEntries S es st = (r, st') \<Longrightarrow> ok st' \<and> possible st' \<subseteq> possible st"
    and replace: "ok st \<Longrightarrow> Store_ReplaceEntries S es st = (r, st') \<Longrightarrow> ok st' \<and> possible st' \<subseteq> possible st"
    and snapshot: "ok st \<Longrightarrow> Store_SaveSnapshot S snap st = (r, st') \<Longrightarrow> ok st' \<and> possible st' \<subseteq> possible st"
    and load: "ok st \<Longrightarrow> Store_Load S st = (l, st') \<Longrightarrow> ok st' \<and> possible st' \<subseteq> possible st"
    and load_value: "ok st \<Longrightarrow> Store_Load S st = (Inr (h, log, snap), st') \<Longrightarrow> h \<in> possible st"
    and power: "ok st \<Longrightarrow> power_failure st st' \<Longrightarrow> ok st' \<and> possible st' \<subseteq> possible st"

end
