(* ===== verification/Raft_Votes.thy ===== *)
theory Raft_Votes
  imports Raft_Process Store_Contract
begin

text \<open>
  Votes survive (\<open>internal/raft/node.go\<close>): whatever a node does after it granted a vote, and
  whatever a store that keeps the contract of \<open>Store_Contract\<close> brings back after a restart, the node
  stays in the term of that vote with that vote, or in a later term.

  \<open>promises\<close> is the invariant for a set of granted votes.  Every locked part of the node keeps it;
  the part that grants a vote establishes it for the new vote too.
\<close>

section \<open>Promises\<close>

definition vote_le :: "u64 \<times> string \<Rightarrow> u64 \<Rightarrow> string \<Rightarrow> bool" where
  "vote_le g t v \<longleftrightarrow> fst g < t \<or> fst g = t \<and> snd g = v \<and> v \<noteq> ''''"

lemma vote_le_later: "vote_le g t v \<Longrightarrow> t < t' \<Longrightarrow> vote_le g t' v'"
  by (auto simp: vote_le_def)

text \<open>The part of a node that its votes depend on.\<close>

definition vote_view :: "('st, 'sm) node \<Rightarrow> 'st \<times> u64 \<times> string \<times> string \<times> (string \<times> string) list" where
  "vote_view n = (store n, currentTerm n, votedFor n, nid n, peerAddrs n)"

definition stored_promises :: "('st \<Rightarrow> bool) \<Rightarrow> ('st \<Rightarrow> HardState set) \<Rightarrow> (string \<Rightarrow> bool) \<Rightarrow>
    (u64 \<times> string) set \<Rightarrow> 'st \<Rightarrow> bool" where
  "stored_promises ok possible storable G st \<longleftrightarrow> ok st \<and>
     (\<forall>h \<in> possible st. storable (hs_VotedFor h) \<and> (\<forall>g \<in> G. vote_le g (hs_CurrentTerm h) (hs_VotedFor h)))"

definition promises :: "('st \<Rightarrow> bool) \<Rightarrow> ('st \<Rightarrow> HardState set) \<Rightarrow> (string \<Rightarrow> bool) \<Rightarrow>
    (u64 \<times> string) set \<Rightarrow> ('st, 'sm) node \<Rightarrow> bool" where
  "promises ok possible storable G n \<longleftrightarrow> stored_promises ok possible storable G (store n) \<and>
     storable (votedFor n) \<and> storable (nid n) \<and> nid n \<noteq> '''' \<and>
     (\<forall>x \<in> set (peerAddrs n). storable (fst x)) \<and>
     (\<forall>g \<in> G. vote_le g (currentTerm n) (votedFor n))"

text \<open>A step after which the node is a follower, or in the same role in the same term as before.\<close>

definition no_office :: "('st, 'sm) node \<Rightarrow> ('st, 'sm) node \<Rightarrow> bool" where
  "no_office n n' \<longleftrightarrow> nid n' = nid n \<and> peerAddrs n' = peerAddrs n \<and>
     (role n' = Follower \<or> role n' = role n \<and> currentTerm n' = currentTerm n)"

lemma no_office_refl [simp]: "no_office n n"
  by (simp add: no_office_def)

lemma no_office_trans: "no_office a b \<Longrightarrow> no_office b c \<Longrightarrow> no_office a c"
  by (auto simp: no_office_def)

lemma promises_cong:
  assumes "vote_view n' = vote_view n"
  shows "promises ok possible storable G n' \<longleftrightarrow> promises ok possible storable G n"
  using assms by (simp add: promises_def vote_view_def)

text \<open>Functions that leave the votes alone.\<close>

lemma vote_view_frame [simp]:
  "vote_view (resetElectionLocked n) = vote_view n" "vote_view (notifyApplyLocked n) = vote_view n"
  "vote_view (failUncommittedWaitersLocked n) = vote_view n" "vote_view (failStorageLocked e n) = vote_view n"
  "vote_view (n\<lparr>role := r\<rparr>) = vote_view n" "vote_view (n\<lparr>leaderID := l\<rparr>) = vote_view n"
  "vote_view (n\<lparr>commitIndex := c\<rparr>) = vote_view n" "vote_view (n\<lparr>log := es\<rparr>) = vote_view n"
  "vote_view (n\<lparr>pendingSnapshot := p\<rparr>) = vote_view n" "vote_view (n\<lparr>lastErr := x\<rparr>) = vote_view n"
  "vote_view (n\<lparr>leaderNoopIndex := i\<rparr>) = vote_view n" "vote_view (n\<lparr>electionDue := d\<rparr>) = vote_view n"
  "vote_view (n\<lparr>nextIndex := ix\<rparr>) = vote_view n" "vote_view (n\<lparr>snapshot := sn\<rparr>) = vote_view n"
  "vote_view (finishWaitersLocked i res n) = vote_view n" "vote_view (acknowledge peer i n) = vote_view n"
  "vote_view (leader_fields n) = vote_view n" "vote_view (append_noop e' n) = vote_view n"
  by (simp_all add: vote_view_def acknowledge_def leader_fields_def append_noop_def Let_def)

lemmas promises_frame [simp] = vote_view_frame [THEN promises_cong]

section \<open>Every locked part keeps the promises\<close>

context hard_state_store
begin

lemma stored_store:
  assumes "stored_promises ok possible storable G st" and "ok st'" and "possible st' \<subseteq> possible st"
  shows "stored_promises ok possible storable G st'"
  using assms by (auto simp: stored_promises_def)

lemma promises_store:
  assumes "promises ok possible storable G n" and "ok st \<and> possible st \<subseteq> possible (store n)"
  shows "promises ok possible storable G (n\<lparr>store := st\<rparr>)"
  using assms stored_store [of G "store n" st] by (simp add: promises_def)

lemma promises_log_write:
  assumes "promises ok possible storable G n"
    and "Store_AppendEntries S es (store n) = (r, st) \<or> Store_ReplaceEntries S es (store n) = (r, st) \<or>
      Store_SaveSnapshot S snap (store n) = (r, st)"
  shows "promises ok possible storable G (n\<lparr>store := st\<rparr>)"
proof -
  have "ok (store n)" using assms(1) by (simp add: promises_def stored_promises_def)
  then have "ok st \<and> possible st \<subseteq> possible (store n)" using assms(2) append replace snapshot by blast
  then show ?thesis by (rule promises_store [OF assms(1)])
qed

text \<open>Saving the hard state keeps the promises, and a successful save adds the current one.\<close>

lemma save_promises:
  assumes "promises ok possible storable G n"
  shows "promises ok possible storable G (snd (saveHardStateLocked S c n))"
    and "fst (saveHardStateLocked S c n) = None \<Longrightarrow> votedFor n \<noteq> '''' \<Longrightarrow>
      promises ok possible storable (insert (currentTerm n, votedFor n) G) (snd (saveHardStateLocked S c n))"
proof -
  let ?h = "\<lparr>hs_CurrentTerm = currentTerm n, hs_VotedFor = votedFor n, hs_CommitIndex = c\<rparr>"
  obtain r st where run: "Store_SaveHardState S ?h (store n) = (r, st)" by fastforce
  have n: "ok (store n)" "storable (votedFor n)" "\<forall>g \<in> G. vote_le g (currentTerm n) (votedFor n)"
    "\<forall>h \<in> possible (store n). storable (hs_VotedFor h) \<and> (\<forall>g \<in> G. vote_le g (hs_CurrentTerm h) (hs_VotedFor h))"
    using assms by (simp_all add: promises_def stored_promises_def)
  have st: "ok st \<and> possible st \<subseteq> insert ?h (possible (store n))" "r = None \<Longrightarrow> possible st = {?h}"
    using save_ok [OF n(1), of ?h] save_failed [OF n(1), of ?h] n(2) run by (cases r; simp)+
  have save: "saveHardStateLocked S c n = (r, case r of None \<Rightarrow> n\<lparr>store := st\<rparr> | Some e \<Rightarrow> n\<lparr>store := st, lastErr := Some e\<rparr>)"
    using run by (simp add: saveHardStateLocked_def split: option.split)
  have "stored_promises ok possible storable G st" using st(1) n by (auto simp: stored_promises_def)
  then have p: "promises ok possible storable G (n\<lparr>store := st\<rparr>)" using assms by (simp add: promises_def)
  then show "promises ok possible storable G (snd (saveHardStateLocked S c n))"
    by (cases r) (simp_all add: save promises_cong [of "n\<lparr>store := st, lastErr := x\<rparr>" "n\<lparr>store := st\<rparr>" for x] vote_view_def)
  show "promises ok possible storable (insert (currentTerm n, votedFor n) G) (snd (saveHardStateLocked S c n))"
    if "fst (saveHardStateLocked S c n) = None" "votedFor n \<noteq> ''''"
    using p st that by (simp add: save promises_def stored_promises_def vote_le_def)
qed

lemma promises_persist:
  assumes "promises ok possible storable G n"
  shows "promises ok possible storable G (snd (persistHardStateLocked S n))"
  unfolding persistHardStateLocked_def by (rule save_promises(1) [OF assms])

lemma promises_later:
  assumes "promises ok possible storable G n" and "currentTerm n < t" and "storable v"
  shows "promises ok possible storable G (n\<lparr>currentTerm := t, votedFor := v\<rparr>)"
  using assms by (auto simp: promises_def vote_le_def)

lemma promises_becomeFollowerWithTimerLocked:
  assumes "promises ok possible storable G n"
  shows "promises ok possible storable G (snd (becomeFollowerWithTimerLocked S t l b n))"
proof -
  have "promises ok possible storable G (follower_fields t l b n)"
    using assms promises_later [OF assms _ storable_empty, of t] by (simp add: follower_fields_def Let_def)
  from promises_persist [OF this] show ?thesis
    by (simp add: becomeFollowerWithTimerLocked_def Let_def case_prod_beta split: option.split)
qed

lemma promises_becomeFollower:
  assumes "promises ok possible storable G n"
  shows "promises ok possible storable G (snd (becomeFollowerLocked S t l n))"
    and "promises ok possible storable G (snd (becomeFollowerForVoteLocked S t n))"
  using promises_becomeFollowerWithTimerLocked [OF assms]
  by (simp_all add: becomeFollowerLocked_def becomeFollowerForVoteLocked_def)

lemma promises_commit_to:
  "promises ok possible storable G n \<Longrightarrow> promises ok possible storable G (commit_to S c n)"
  using promises_persist [of G "n\<lparr>commitIndex := c\<rparr>"] by (simp add: commit_to_def case_prod_beta split: option.split)

lemma promises_advanceCommitLocked:
  "promises ok possible storable G n \<Longrightarrow> promises ok possible storable G (advanceCommitLocked S n)"
  using advanceCommitLocked_cases [of S n] promises_commit_to by auto

lemma promises_ae_commit:
  "promises ok possible storable G n \<Longrightarrow> promises ok possible storable G (snd (ae_commit S c n))"
  using promises_persist [of G "n\<lparr>commitIndex := c\<rparr>"]
  by (simp add: ae_commit_def case_prod_beta Let_def split: option.split)

lemma promises_ae_log:
  assumes "promises ok possible storable G n"
  shows "promises ok possible storable G (snd (ae_log S req n))"
proof -
  obtain r n1 where m: "mergeEntriesLocked (ae_PrevLogIndex req) (ae_Entries req) n = (r, n1)" by fastforce
  obtain l where n1: "n1 = n\<lparr>log := l\<rparr>"
    using mergeEntriesLocked_more [of "ae_PrevLogIndex req" "ae_Entries req" n] m by auto
  obtain e st where p: "persist_merge S r n1 = (e, st)" by fastforce
  have "promises ok possible storable G n1" using assms by (simp add: n1)
  then have "promises ok possible storable G (n1\<lparr>store := st\<rparr>)"
    using promises_log_write [of G n1] p by (auto simp: persist_merge_def split: if_splits)
  then have st: "promises ok possible storable G (n\<lparr>store := st\<rparr>)"
    using promises_cong [of "n1\<lparr>store := st\<rparr>" "n\<lparr>store := st\<rparr>"] by (simp add: n1 vote_view_def)
  then have lg: "promises ok possible storable G (n1\<lparr>store := st, log := x\<rparr>)" for x
    using promises_cong [of "n1\<lparr>store := st, log := x\<rparr>" "n\<lparr>store := st\<rparr>"] by (simp add: n1 vote_view_def)

  show ?thesis using assms m p lg promises_ae_commit [OF \<open>promises ok possible storable G (n1\<lparr>store := st\<rparr>)\<close>] \<open>promises ok possible storable G n1\<close>
    by (cases e) (simp_all add: ae_log_def Let_def)
qed

lemma promises_HandleAppendEntries:
  "promises ok possible storable G n \<Longrightarrow> promises ok possible storable G (snd (HandleAppendEntries S req n))"
  using promises_becomeFollower(1) [of G n "ae_Term req" "ae_LeaderID req"]
  by (simp add: HandleAppendEntries_def case_prod_beta promises_ae_log split: option.split)

lemma promises_replicate_append_reply:
  "promises ok possible storable G n \<Longrightarrow> promises ok possible storable G (snd (replicate_append_reply S p req resp n))"
  using promises_becomeFollower(1) [of G n] promises_advanceCommitLocked [of G "acknowledge p m n" for m]
  by (simp add: replicate_append_reply_def)

lemma promises_replication:
  assumes "promises ok possible storable G n"
  shows "promises ok possible storable G (snd (replicate_prepare p n))"
    "promises ok possible storable G (replicate_snapshot_sent p t i n)"
    "promises ok possible storable G (snd (send_reply S t sreq len e resp n))"
    "promises ok possible storable G (finishPeerReplication p n)"
    "promises ok possible storable G (snd (acquirePeerReplication b p n))"
    "promises ok possible storable G (snd (replicateAllOnce_begin n))"
    "promises ok possible storable G (kickReplication n)"
    "promises ok possible storable G (stepDown S t l n)"
    "promises ok possible storable G (snd (electionLoop_start n))"
    "promises ok possible storable G (Stop n)"
    "promises ok possible storable G (removeWaiter i w n)"
  using assms promises_becomeFollower(1) [OF assms]
  by (simp_all add: replicate_prepare_def replicate_snapshot_sent_def send_reply_def finishPeerReplication_def
      acquirePeerReplication_def replicateAllOnce_begin_def claim_slots_def kickReplication_def stepDown_def
      electionLoop_start_def Stop_def removeWaiter_def Let_def split: option.split)
    (simp_all add: promises_def)

lemma promises_proposeAppend:
  assumes "promises ok possible storable G n"
  shows "promises ok possible storable G (snd (proposeAppend S c n))"
proof -
  obtain e st where p: "Store_AppendEntries S
      [\<lparr>le_Index = lastIndexLocked n + 1, le_Term = currentTerm n, le_Command = c\<rparr>] (store n) = (e, st)"
    by fastforce
  have st: "promises ok possible storable G (n\<lparr>store := st\<rparr>)" using promises_log_write [OF assms] p by blast
  then have "promises ok possible storable G (proposed c st n)" by (simp add: proposed_def Let_def promises_def)
  from promises_advanceCommitLocked [OF this] st assms p show ?thesis
    by (cases e) (simp_all add: proposeAppend_def proposed_def waiters_at_def Let_def split: option.split)
qed

lemma promises_follow:
  "promises ok possible storable G n \<Longrightarrow> promises ok possible storable G (snd (follow S req n))"
  using promises_becomeFollower(1) [of G n] by (simp add: follow_def)

lemma promises_is_chunk:
  "promises ok possible storable G n \<Longrightarrow> promises ok possible storable G (snd (is_chunk req n))"
  by (simp add: is_chunk_def is_append_def Let_def split: option.split)

lemma promises_is_receive:
  assumes "promises ok possible storable G n"
  shows "promises ok possible storable G (snd (is_receive S req n))"
proof -
  obtain e n1 where f: "follow S req n = (e, n1)" by fastforce
  have "promises ok possible storable G n1" using promises_follow [OF assms, of req] f by simp
  then show ?thesis using f assms promises_is_chunk [of G "resetElectionLocked (n1\<lparr>leaderID := is_LeaderID req\<rparr>)" req]
    unfolding is_receive_def follow_def [symmetric] by (simp add: Let_def split: option.split)
qed

lemma promises_is_persist:
  assumes "promises ok possible storable G n"
  shows "promises ok possible storable G (snd (is_persist S s es c n))"
proof -
  obtain e st where 1: "Store_SaveSnapshot S s (store n) = (e, st)" by fastforce
  obtain e' st' where 2: "Store_ReplaceEntries S es st = (e', st')" by fastforce
  have a: "promises ok possible storable G (n\<lparr>store := st\<rparr>)" using promises_log_write [OF assms] 1 by blast
  have "promises ok possible storable G (n\<lparr>store := st, store := st'\<rparr>)"
    using promises_log_write [OF a] 2 by (metis node.select_convs(1) node.surjective node.update_convs(1))
  then have "promises ok possible storable G (n\<lparr>store := st'\<rparr>)" by simp
  with a save_promises(1) [OF this, of c] 1 2 show ?thesis by (simp add: is_persist_def split: option.split)
qed

end

context hard_state_store
begin

lemma promises_is_install:
  assumes "promises ok possible storable G n"
  shows "promises ok possible storable G (snd (is_install S M req body data n))"
proof -
  have "promises ok possible storable G (snd (is_persist S s es c n))" for s es c
    by (rule promises_is_persist [OF assms])
  moreover have "promises ok possible storable G (is_adopt M s es c m) = promises ok possible storable G m" for s es c m
    by (rule promises_cong) (simp add: is_adopt_def vote_view_def)
  ultimately show ?thesis using assms
    by (simp add: is_install_def Let_def case_prod_beta split: option.split)
qed

lemma promises_is_finish:
  assumes "promises ok possible storable G n"
  shows "promises ok possible storable G (snd (is_finish S M req body n))"
proof -
  obtain e n1 where f: "follow S req n = (e, n1)" by fastforce
  have "promises ok possible storable G n1" using promises_follow [OF assms, of req] f by simp
  then show ?thesis
    using f assms promises_is_install [of G "resetElectionLocked (n1\<lparr>leaderID := is_LeaderID req\<rparr>)" M req body]
    unfolding is_finish_def follow_def [symmetric] by (simp add: Let_def case_prod_beta split: option.split bool.split)
qed

lemma promises_persistSnapshot:
  assumes "promises ok possible storable G n"
  shows "promises ok possible storable G (snd (persistSnapshot_save S snap n))"
    and "promises ok possible storable G (persistSnapshot_install S snap n)"
proof -

  show "promises ok possible storable G (snd (persistSnapshot_save S snap n))"
    using promises_log_write [OF assms]
    by (auto simp: persistSnapshot_save_def split: prod.split option.split)
  show "promises ok possible storable G (persistSnapshot_install S snap n)"
    using promises_log_write [OF assms] assms
    by (auto simp: persistSnapshot_install_def Let_def split: prod.split option.split)
qed

lemma promises_apply:
  assumes "promises ok possible storable G n"
  shows "promises ok possible storable G (snd (apply_begin n))" "promises ok possible storable G (snd (apply_run M e n))"
    "promises ok possible storable G (snd (apply_finish M e r n))"
  using assms
  by (simp_all add: apply_begin_def apply_run_def apply_finish_def Let_def case_prod_beta split: option.split)
    (simp_all add: promises_def)

text \<open>Becoming leader writes to the log only.\<close>

lemma promises_becomeLeader:
  assumes "promises ok possible storable G n"
  shows "promises ok possible storable G (snd (becomeLeader S t n))"
proof (cases rule: becomeLeader_cases [of S t n])
  case no
  then show ?thesis using assms by simp
next
  case (failed e st)
  have "promises ok possible storable G (n\<lparr>store := st\<rparr>)" using promises_log_write [OF assms] failed(4) by blast
  then show ?thesis using promises_cong [of "(leader_fields n)\<lparr>store := st\<rparr>" "n\<lparr>store := st\<rparr>"]
    by (simp add: failed(5) vote_view_def leader_fields_def Let_def)
next
  case (won st)
  have "promises ok possible storable G (n\<lparr>store := st\<rparr>)" using promises_log_write [OF assms] won(4) by blast
  then have "promises ok possible storable G ((leader_fields n)\<lparr>store := st\<rparr>)"
    using promises_cong [of "(leader_fields n)\<lparr>store := st\<rparr>" "n\<lparr>store := st\<rparr>"]
    by (simp add: vote_view_def leader_fields_def Let_def)
  then show ?thesis by (simp add: won(5) promises_advanceCommitLocked)
qed

text \<open>Standing for election adds the node's own vote, and a granted vote adds itself.\<close>

lemma promises_startElection_begin:
  assumes "promises ok possible storable G n" and "unat (currentTerm n) + 1 < 2 ^ 64"
    and "startElection_begin S n = (r, n')"
  shows "promises ok possible storable (case r of None \<Rightarrow> G | Some req \<Rightarrow> insert (rv_Term req, nid n) G) n'"
proof (cases "stopped n \<or> role n = Leader \<or> storageFatal n \<noteq> None")
  case True
  then show ?thesis using assms(1,3) by (auto simp: startElection_begin_def)
next
  case False
  define m where "m = resetElectionLocked (n\<lparr>role := Candidate, currentTerm := currentTerm n + 1,
    votedFor := nid n, leaderID := '''', leaderNoopIndex := 0\<rparr>)"
  obtain e n2 where run: "persistHardStateLocked S m = (e, n2)" by fastforce
  have up: "unat (currentTerm n + 1) = Suc (unat (currentTerm n))" using assms(2) by (intro unat_Suc_u64_max) simp
  have "promises ok possible storable G (n\<lparr>currentTerm := currentTerm n + 1, votedFor := nid n\<rparr>)"
    using assms(1) up by (intro promises_later) (simp_all add: promises_def less_u64_unat)
  then have m: "promises ok possible storable G m"
    unfolding m_def by (subst promises_cong) (simp_all add: vote_view_def)
  have mv: "currentTerm m = currentTerm n + 1" "votedFor m = nid n" "nid m = nid n" "peerAddrs m = peerAddrs n"
    by (simp_all add: m_def)
  have n2: "currentTerm n2 = currentTerm n + 1" "votedFor n2 = nid n" "nid n2 = nid n" "peerAddrs n2 = peerAddrs n"
    using persistHardStateLocked_frame [of S m] mv run by simp_all
  note sv = save_promises [OF m, of "commitIndex m", folded persistHardStateLocked_def, unfolded run]
  show ?thesis
  proof (cases e)
    case None
    then have "r = Some \<lparr>rv_Term = currentTerm n2, rv_CandidateID = nid n2,
        rv_LastLogIndex = lastIndexLocked n2, rv_LastLogTerm = lastTermLocked n2\<rparr>" "n' = n2"
      using assms(3) False run by (auto simp: startElection_begin_def Let_def m_def)
    moreover have "nid n \<noteq> ''''" using assms(1) by (simp add: promises_def)
    ultimately show ?thesis using sv(2) None mv n2 by simp
  next
    case (Some x)
    then have "r = None" and n': "n' = n2\<lparr>role := role n, currentTerm := currentTerm n,
        votedFor := votedFor n, leaderID := leaderID n, electionDue := electionDue n\<rparr>"
      using assms(3) False run by (simp_all add: startElection_begin_def Let_def m_def)
    moreover have "promises ok possible storable G n2" using sv(1) by simp
    ultimately show ?thesis using assms(1) n2 by (simp add: promises_def)
  qed
qed

lemma promises_cast_vote:
  assumes "promises ok possible storable G n" and "storable (rv_CandidateID req)" and "rv_CandidateID req \<noteq> ''''"
  shows "promises ok possible storable
    (if rvr_VoteGranted (fst (cast_vote S req n)) then insert (currentTerm n, rv_CandidateID req) G else G)
    (snd (cast_vote S req n))"
proof (cases "(votedFor n = '''' \<or> votedFor n = rv_CandidateID req) \<and> up_to_date req n")
  case False
  then show ?thesis using assms(1) by (auto simp: cast_vote_def rv_refuse_def)
next
  case True
  let ?m = "n\<lparr>votedFor := rv_CandidateID req\<rparr>"
  obtain e n1 where run: "persistHardStateLocked S ?m = (e, n1)" by fastforce
  have "vote_le g (currentTerm n) (rv_CandidateID req)" if "vote_le g (currentTerm n) (votedFor n)" for g
    using True that by (auto simp: vote_le_def)
  then have m: "promises ok possible storable G ?m" using assms by (auto simp: promises_def)
  note sv = save_promises [OF m, of "commitIndex ?m", folded persistHardStateLocked_def, unfolded run]
  have n1: "currentTerm n1 = currentTerm n" "nid n1 = nid n" "peerAddrs n1 = peerAddrs n"
    using persistHardStateLocked_frame [of S ?m] run by simp_all
  show ?thesis
  proof (cases e)
    case None
    then show ?thesis using True run sv(2) assms(3) by (simp add: cast_vote_def Let_def)
  next
    case (Some x)
    then have "cast_vote S req n = (rv_refuse (n1\<lparr>votedFor := votedFor n\<rparr>), n1\<lparr>votedFor := votedFor n\<rparr>)"
      using True run by (simp add: cast_vote_def Let_def)
    moreover have "promises ok possible storable G (n1\<lparr>votedFor := votedFor n\<rparr>)"
      using sv(1) assms(1) n1 by (simp add: promises_def)
    ultimately show ?thesis by (simp add: rv_refuse_def)
  qed
qed

lemma promises_HandleRequestVote:
  assumes "promises ok possible storable G n"
  shows "promises ok possible storable
    (if rvr_VoteGranted (fst (HandleRequestVote S req n)) then insert (rv_Term req, rv_CandidateID req) G else G)
    (snd (HandleRequestVote S req n))"
proof -
  have known: "storable (rv_CandidateID req) \<and> rv_CandidateID req \<noteq> ''''"
    if "isKnownRemotePeerLocked n (rv_CandidateID req)"
    using assms that by (fastforce simp: promises_def isKnownRemotePeerLocked_def split: if_splits dest: map_of_SomeD)
  show ?thesis
  proof (cases rule: HandleRequestVote_cases [of S req n])
    case refused
    then show ?thesis using assms by (simp add: rv_refuse_def)
  next
    case (failed e)
    then show ?thesis using promises_becomeFollower(2) [OF assms] by (simp add: rv_refuse_def)
  next
    case newer
    define m where "m = snd (becomeFollowerForVoteLocked S (rv_Term req) n)"
    have "currentTerm m = rv_Term req" unfolding m_def
      using newer(2) by (simp add: max_def less_imp_le)
    then show ?thesis
      using promises_cast_vote [OF promises_becomeFollower(2) [OF assms, of "rv_Term req"], of req] known newer
      unfolding m_def [symmetric] by (simp split: if_splits)
  next
    case same
    then show ?thesis using promises_cast_vote [OF assms, of req] known by (simp split: if_splits)
  qed
qed

text \<open>Starting a node.\<close>

lemma promises_boot:
  assumes "stored_promises ok possible storable G st" and "storable (hs_VotedFor hs)"
    and "\<forall>g \<in> G. vote_le g (hs_CurrentTerm hs) (hs_VotedFor hs)" and "storable (cfg_ID cfg)" and "cfg_ID cfg \<noteq> ''''"
    and "\<forall>x \<in> set (cfg_peers cfg). storable (fst x)" and "boot S M rnd now cfg m0 hs entries s st = (r, st')"
  shows "stored_promises ok possible storable G st' \<and> (\<forall>n. r = Inr n \<longrightarrow>
      promises ok possible storable G n \<and> store n = st' \<and> role n = Follower \<and>
      nid n = cfg_ID cfg \<and> peerAddrs n = filter (\<lambda>(i, addr). i \<noteq> cfg_ID cfg) (cfg_peers cfg))"
proof -
  obtain m applied where ap: "boot_apply M (boot_commit hs entries s) entries
      (if Data s \<noteq> None then SM_Restore M (Data s) m0 else m0) (LastIncludedIndex s) = (m, applied)" by fastforce
  define n0 where "n0 = resetElectionLocked (boot_node cfg hs entries s (boot_commit hs entries s) applied rnd now st m)"
  have b: "store n0 = st" "currentTerm n0 = hs_CurrentTerm hs" "votedFor n0 = hs_VotedFor hs" "nid n0 = cfg_ID cfg"
    "peerAddrs n0 = filter (\<lambda>(i, addr). i \<noteq> cfg_ID cfg) (cfg_peers cfg)" "role n0 = Follower"
    by (simp_all add: n0_def) (simp_all add: boot_node_def)
  then have p: "promises ok possible storable G n0" using assms(1-6) by (auto simp: promises_def)
  obtain e n1 where run: "persistHardStateLocked S n0 = (e, n1)" by fastforce
  have n1: "promises ok possible storable G n1" "nid n1 = nid n0" "peerAddrs n1 = peerAddrs n0" "role n1 = role n0"
    using promises_persist [OF p] persistHardStateLocked_frame [of S n0] run by simp_all
  have "(r, st') = (Inr n0, store n0) \<or> (r, st') = (Inr n1, store n1) \<or> (\<exists>e. (r, st') = (Inl e, store n1))"
    using assms(7) unfolding boot_def Let_def ap prod.case n0_def [symmetric] run
    by (auto split: if_splits option.splits)
  moreover have "stored_promises ok possible storable G (store n0)" "stored_promises ok possible storable G (store n1)"
    using p n1(1) by (simp_all add: promises_def)
  ultimately show ?thesis using p n1 b by auto
qed

lemma promises_NewNode:
  assumes "stored_promises ok possible storable G st0" and "storable (cfg_ID cfg)"
    and "\<forall>x \<in> set (cfg_peers (normalizeConfig cfg)). storable (fst x)"
    and "NewNode S M rnd now cfg m0 st0 = (r, st')"
  shows "stored_promises ok possible storable G st'"
    and "r = Inr n \<Longrightarrow> promises ok possible storable G n \<and> store n = st' \<and> role n = Follower \<and>
      nid n = cfg_ID cfg \<and> peerAddrs n = filter (\<lambda>(i, addr). i \<noteq> cfg_ID cfg) (cfg_peers (normalizeConfig cfg))"
proof -
  have "stored_promises ok possible storable G st' \<and> (\<forall>n. r = Inr n \<longrightarrow>
      promises ok possible storable G n \<and> store n = st' \<and> role n = Follower \<and>
      nid n = cfg_ID cfg \<and> peerAddrs n = filter (\<lambda>(i, addr). i \<noteq> cfg_ID cfg) (cfg_peers (normalizeConfig cfg)))"
  proof (cases "cfg_ID cfg = '''' \<or> validateConfig (normalizeConfig cfg) \<noteq> None")
    case True
    then have "st' = st0 \<and> (\<exists>e. r = Inl e)" using assms(4) by (auto simp: NewNode_def Let_def split: option.splits if_splits)
    then show ?thesis using assms(1) by auto
  next
    case False
    obtain l st where ld: "Store_Load S st0 = (l, st)" by fastforce
    have ok0: "ok st0" using assms(1) by (simp add: stored_promises_def)
    have st: "stored_promises ok possible storable G st"
      using stored_store [OF assms(1)] load [OF ok0 ld] by simp
    show ?thesis
    proof (cases l)
      case (Inl e)
      then have "st' = st \<and> r = Inl e" using assms(4) False ld by (simp add: NewNode_def Let_def)
      then show ?thesis using st by simp
    next
      case (Inr x)
      obtain hs entries s where x: "x = (hs, entries, s)" by (cases x) auto
      have id: "cfg_ID (normalizeConfig cfg) = cfg_ID cfg" by (simp add: normalizeConfig_def Let_def)
      have "boot S M rnd now (normalizeConfig cfg) m0 hs entries s st = (r, st')"
        using assms(4) False ld Inr x by (simp add: NewNode_def Let_def)
      moreover have "hs \<in> possible st0" using load_value [OF ok0] ld Inr x by simp
      then have "storable (hs_VotedFor hs)" "\<forall>g \<in> G. vote_le g (hs_CurrentTerm hs) (hs_VotedFor hs)"
        using assms(1) by (simp_all add: stored_promises_def)
      ultimately show ?thesis
        using promises_boot [OF st, of hs "normalizeConfig cfg"] assms(2,3) False by (simp add: id)
    qed
  qed
  then show "stored_promises ok possible storable G st'"
    and "r = Inr n \<Longrightarrow> promises ok possible storable G n \<and> store n = st' \<and> role n = Follower \<and>
      nid n = cfg_ID cfg \<and> peerAddrs n = filter (\<lambda>(i, addr). i \<noteq> cfg_ID cfg) (cfg_peers (normalizeConfig cfg))"
    by blast+
qed

lemma promises_mono: "promises ok possible storable G n \<Longrightarrow> H \<subseteq> G \<Longrightarrow> promises ok possible storable H n"
  by (auto simp: promises_def stored_promises_def)

end

section \<open>Which parts change the role\<close>

lemma advanceCommitLocked_office: "no_office n (advanceCommitLocked S n)"
  using advanceCommitLocked_more(4) [of S n] by (auto simp: no_office_def)

lemma ae_log_role:
  "role (snd (ae_log S req n)) = Follower \<or> role (snd (ae_log S req n)) = role n"
  using mergeEntriesLocked_more [of "ae_PrevLogIndex req" "ae_Entries req" n]
  by (auto simp: ae_log_def ae_commit_def case_prod_beta Let_def split: option.splits)

lemma HandleAppendEntries_office: "no_office n (snd (HandleAppendEntries S req n))"
proof -
  have ids: "nid (snd (HandleAppendEntries S req n)) = nid n" "peerAddrs (snd (HandleAppendEntries S req n)) = peerAddrs n"
    by (simp_all add: HandleAppendEntries_def case_prod_beta split: option.split)
  define b where "b = (ae_Term req > currentTerm n \<or> role n \<noteq> Follower)"
  obtain e n1 where f: "(if b then becomeFollowerLocked S (ae_Term req) (ae_LeaderID req) n else (None, n)) = (e, n1)" by fastforce
  have r: "role n1 = Follower" using f becomeFollowerLocked_role by (fastforce simp: b_def split: if_splits)
  have "role (snd (ae_log S req (resetElectionLocked (n1\<lparr>leaderID := ae_LeaderID req\<rparr>)))) = Follower"
    using ae_log_role [of S req "resetElectionLocked (n1\<lparr>leaderID := ae_LeaderID req\<rparr>)"] r by simp
  then show ?thesis using f r ids unfolding no_office_def HandleAppendEntries_def b_def [symmetric]
    by (simp split: option.split)
qed

lemma replicate_append_reply_office: "no_office n (snd (replicate_append_reply S p req resp n))"
proof -
  have "no_office n (acknowledge p m n)" for m
    by (simp add: no_office_def acknowledge_def Let_def)
  then have "no_office n (advanceCommitLocked S (acknowledge p m n))" for m
    using no_office_trans advanceCommitLocked_office by blast
  then show ?thesis using becomeFollowerLocked_role [of S _ _ n]
    by (auto simp: replicate_append_reply_def) (auto simp: no_office_def prod_eq_iff)
qed

lemma replication_office:
  "no_office n (snd (replicate_prepare p n))" "no_office n (replicate_snapshot_sent p t i n)"
  "no_office n (snd (send_reply S t sreq len e resp n))" "no_office n (finishPeerReplication p n)"
  "no_office n (snd (acquirePeerReplication b p n))" "no_office n (snd (replicateAllOnce_begin n))"
  "no_office n (kickReplication n)" "no_office n (stepDown S t l n)" "no_office n (snd (electionLoop_start n))"
  "no_office n (Stop n)" "no_office n (removeWaiter i w n)"
  by (simp_all add: no_office_def replicate_prepare_def replicate_snapshot_sent_def send_reply_def finishPeerReplication_def
      acquirePeerReplication_def replicateAllOnce_begin_def claim_slots_def kickReplication_def stepDown_def
      electionLoop_start_def Stop_def deliver_def removeWaiter_def acknowledge_def Let_def split: option.split)

lemma proposeAppend_office:
  assumes "proposeAppend S c n = (r, n')"
  shows "no_office n n'"
  using assms
proof (cases rule: proposeAppend_cases)
  case (accepted st)
  have "no_office n (proposed c st n)" by (simp add: no_office_def proposed_def Let_def)
  then show ?thesis using no_office_trans advanceCommitLocked_office accepted(5) by blast
qed (simp_all add: no_office_def)

lemma is_install_office:
  assumes "role n = Follower"
  shows "no_office n (snd (is_install S M req body data n))"
proof -
  have p: "role (snd (is_persist S s es c n)) = Follower" "nid (snd (is_persist S s es c n)) = nid n"
    "peerAddrs (snd (is_persist S s es c n)) = peerAddrs n" for s es c
    using assms by (simp_all add: is_persist_def case_prod_beta split: option.split)
  show ?thesis using assms
    by (simp add: is_install_def Let_def case_prod_beta is_adopt_def p no_office_def split: option.split)
qed

lemma snapshot_office:
  "no_office n (snd (is_receive S req n))" "no_office n (snd (is_finish S M req body n))"
proof -
  obtain e n1 where f: "follow S req n = (e, n1)" by fastforce
  have "nid (snd (follow S req n)) = nid n" "peerAddrs (snd (follow S req n)) = peerAddrs n" by (simp_all add: follow_def)
  then have ids: "nid n1 = nid n" "peerAddrs n1 = peerAddrs n" and r: "e = None \<Longrightarrow> role n1 = Follower"
    using f follow_role [of S req n] by simp_all
  have n1: "no_office n n1" using f ids becomeFollowerLocked_role [of S "is_Term req" "is_LeaderID req" n]
    by (auto simp: follow_def no_office_def split: if_splits)
  define n2 where "n2 = resetElectionLocked (n1\<lparr>leaderID := is_LeaderID req\<rparr>)"
  have n2: "no_office n n2" "e = None \<Longrightarrow> role n2 = Follower" using n1 r by (simp_all add: n2_def no_office_def)
  have "no_office n2 (snd (is_chunk req n2))"
    by (simp add: is_chunk_def is_append_def no_office_def Let_def split: option.split)
  then have "no_office n (snd (is_chunk req n2))" using n2(1) no_office_trans by blast
  moreover have "no_office n (n1\<lparr>pendingSnapshot := x\<rparr>)" for x using n1 by (simp add: no_office_def)
  ultimately show "no_office n (snd (is_receive S req n))"
    using f unfolding is_receive_def follow_def [symmetric] n2_def by (simp add: Let_def split: option.split)
  have "no_office n (snd (is_install S M req body data n2))" if "e = None" for data
    using is_install_office [OF n2(2) [OF that]] n2(1) no_office_trans by blast
  moreover have "no_office n (n1\<lparr>pendingSnapshot := x\<rparr>)" "no_office n (n\<lparr>pendingSnapshot := x\<rparr>)" for x
    using n1 by (simp_all add: no_office_def)
  ultimately show "no_office n (snd (is_finish S M req body n))"
    using f unfolding is_finish_def follow_def [symmetric] n2_def
    by (simp add: Let_def case_prod_beta split: option.split bool.split)
qed

section \<open>Steps of the process\<close>

text \<open>The steps of an election: answering a vote request, standing, and becoming leader.\<close>

fun electoral :: "task option \<Rightarrow> bool" where
  "electoral (Some (On_RequestVote req)) \<longleftrightarrow> True"
| "electoral (Some Start_election) \<longleftrightarrow> True"
| "electoral (Some (Become_leader term)) \<longleftrightarrow> True"
| "electoral _ \<longleftrightarrow> False"

lemma process_step_office:
  assumes "process_step S M a p p'" and "\<not> electoral a"
  shows "no_office (pnode p) (pnode p')"
  using assms
proof (induction rule: process_step.induct)
  case (locked t p)
  then show ?case by (cases t) (simp_all add: HandleAppendEntries_office replicate_append_reply_office replication_office)
next
  case (chunk p req resp n')
  then show ?case using snapshot_office(1) [of "pnode p" S req] by simp
next
  case (last_chunk p req body n')
  then show ?case using snapshot_office(1) [of "pnode p" S req] by simp
next
  case (begin_apply p action n')
  then show ?case by (auto simp: apply_begin_def no_office_def split: if_splits option.splits)
next
  case (run_apply p e result n')
  then show ?case by (auto simp: apply_run_def no_office_def split: prod.splits)
next
  case (finish_apply p e result "next" n')
  then show ?case by (auto simp: apply_finish_def Let_def no_office_def split: if_splits)
next
  case (save p snap ok n')
  then show ?case by (auto simp: persistSnapshot_save_def no_office_def split: prod.splits option.splits)
next
  case (compact p snap)
  then show ?case by (auto simp: persistSnapshot_install_def Let_def no_office_def split: prod.splits option.splits)
qed (simp_all add: proposeAppend_office snapshot_office replication_office)

context hard_state_store
begin

lemma process_step_promises:
  assumes "process_step S M a p p'" and "\<not> electoral a" and "promises ok possible storable G (pnode p)"
  shows "promises ok possible storable G (pnode p')"
  using assms
proof (induction rule: process_step.induct)
  case (locked t p)
  then show ?case by (cases t) (simp_all add: promises_HandleAppendEntries promises_replicate_append_reply promises_replication)
next
  case (refused command p e n')
  then show ?case using promises_proposeAppend [of G "pnode p" command] by simp
next
  case (accepted p command waiter index n')
  then show ?case using promises_proposeAppend [of G "pnode p" command] by simp
next
  case (chunk p req resp n')
  then show ?case using promises_is_receive [of G "pnode p" req] by simp
next
  case (last_chunk p req body n')
  then show ?case using promises_is_receive [of G "pnode p" req] by simp
next
  case (begin_apply p action n')
  then show ?case using promises_apply(1) [of G "pnode p"] by simp
next
  case (run_apply p e result n')
  then show ?case using promises_apply(2) [of G "pnode p" M e] by simp
next
  case (finish_apply p e result "next" n')
  then show ?case using promises_apply(3) [of G "pnode p" M e result] by simp
next
  case (save p snap ok' n')
  then show ?case using promises_persistSnapshot(1) [of G "pnode p" snap] by simp
qed (simp_all add: promises_is_finish promises_replication promises_persistSnapshot)

end

end
