(* ===== verification/Raft_Cluster.thy ===== *)
theory Raft_Cluster
  imports Raft_Votes
begin

text \<open>
  A cluster of nodes (\<open>internal/raft/node.go\<close>), each an interleaved process over its own store:
  nodes start, work, answer vote requests, stand for election, win, are killed and lose power, in any
  order.  Two ghost fields record the votes that were granted and the elections that were won.

  The theorem is Raft's election safety: in one term at most one node wins an election, whatever
  fails in between, for every store that keeps the contract of \<open>Store_Contract\<close>.
\<close>

section \<open>The cluster\<close>

text \<open>\<open>granted\<close> holds term, candidate and voter; \<open>elected\<close> term and leader.\<close>

record ('st, 'sm) cluster =
  up :: "string \<rightharpoonup> ('st, 'sm) process"
  disk :: "string \<Rightarrow> 'st"
  granted :: "(u64 \<times> string \<times> string) set"
  elected :: "(u64 \<times> string) set"

text \<open>The configuration of node \<open>i\<close> in a cluster with these members; the keys of a Go map are
  distinct.\<close>

definition config_for :: "string set \<Rightarrow> string \<Rightarrow> Config \<Rightarrow> bool" where
  "config_for members i cfg \<longleftrightarrow> cfg_ID cfg = i \<and> distinct (map fst (cfg_peers (normalizeConfig cfg))) \<and>
     insert i (set (map fst (cfg_peers (normalizeConfig cfg)))) = members"

text \<open>The answers a candidate counts: one per peer at most, and a granting one only from a peer that
  granted its vote to this candidate in this term.\<close>

definition real_answers :: "u64 \<Rightarrow> string \<Rightarrow> ('st, 'sm) node \<Rightarrow> (u64 \<times> string \<times> string) set \<Rightarrow>
    (string \<times> RequestVoteResponse option) list \<Rightarrow> bool" where
  "real_answers term i n votes answers \<longleftrightarrow> distinct (map fst answers) \<and>
     set (map fst answers) \<subseteq> set (map fst (peerAddrs n)) \<and>
     (\<forall>j r. (j, Some r) \<in> set answers \<longrightarrow> rvr_VoteGranted r \<longrightarrow> (term, i, j) \<in> votes)"

inductive cluster_step :: "'st Store \<Rightarrow> 'sm StateMachine \<Rightarrow> ('st \<Rightarrow> 'st \<Rightarrow> bool) \<Rightarrow> string set \<Rightarrow>
    ('st, 'sm) cluster \<Rightarrow> ('st, 'sm) cluster \<Rightarrow> bool"
  for S :: "'st Store" and M :: "'sm StateMachine" and power_failure :: "'st \<Rightarrow> 'st \<Rightarrow> bool" and members :: "string set" where
  start: "i \<in> members \<Longrightarrow> up c i = None \<Longrightarrow> config_for members i cfg \<Longrightarrow>
    NewNode S M rnd now cfg m0 (disk c i) = (Inr n, st) \<Longrightarrow>
    cluster_step S M power_failure members c (c\<lparr>up := (up c)(i \<mapsto> started n), disk := (disk c)(i := st)\<rparr>)"
| start_failed: "i \<in> members \<Longrightarrow> up c i = None \<Longrightarrow> config_for members i cfg \<Longrightarrow>
    NewNode S M rnd now cfg m0 (disk c i) = (Inl e, st) \<Longrightarrow>
    cluster_step S M power_failure members c (c\<lparr>disk := (disk c)(i := st)\<rparr>)"
| killed: "up c i = Some p \<Longrightarrow>
    cluster_step S M power_failure members c (c\<lparr>up := (up c)(i := None), disk := (disk c)(i := store (pnode p))\<rparr>)"
| outage: "i \<in> members \<Longrightarrow> up c i = None \<Longrightarrow> power_failure (disk c i) st \<Longrightarrow>
    cluster_step S M power_failure members c (c\<lparr>disk := (disk c)(i := st)\<rparr>)"
| work: "up c i = Some p \<Longrightarrow> process_step S M a p p' \<Longrightarrow> \<not> electoral a \<Longrightarrow>
    cluster_step S M power_failure members c (c\<lparr>up := (up c)(i \<mapsto> p')\<rparr>)"
| vote: "up c i = Some p \<Longrightarrow> HandleRequestVote S req (pnode p) = (resp, n) \<Longrightarrow>
    cluster_step S M power_failure members c (c\<lparr>up := (up c)(i \<mapsto> p\<lparr>pnode := n\<rparr>),
      granted := (if rvr_VoteGranted resp then {(rv_Term req, rv_CandidateID req, i)} else {}) \<union> granted c\<rparr>)"
| stand: "up c i = Some p \<Longrightarrow> unat (currentTerm (pnode p)) + 1 < 2 ^ 64 \<Longrightarrow> startElection_begin S (pnode p) = (r, n) \<Longrightarrow>
    cluster_step S M power_failure members c (c\<lparr>up := (up c)(i \<mapsto> p\<lparr>pnode := n\<rparr>),
      granted := (case r of None \<Rightarrow> {} | Some req \<Rightarrow> {(rv_Term req, i, i)}) \<union> granted c\<rparr>)"
| win: "up c i = Some p \<Longrightarrow> real_answers term i (pnode p) (granted c) answers \<Longrightarrow>
    count_votes (pnode p) term (map snd answers) = Won \<Longrightarrow> becomeLeader S term (pnode p) = (ok, n) \<Longrightarrow>
    cluster_step S M power_failure members c (c\<lparr>up := (up c)(i \<mapsto> p\<lparr>pnode := n\<rparr>),
      elected := (if ok then {(term, i)} else {}) \<union> elected c\<rparr>)"

section \<open>The invariant\<close>

definition votes_of :: "('st, 'sm) cluster \<Rightarrow> string \<Rightarrow> (u64 \<times> string) set" where
  "votes_of c i = {(t, v). (t, v, i) \<in> granted c}"

definition member_ok :: "('st \<Rightarrow> bool) \<Rightarrow> ('st \<Rightarrow> HardState set) \<Rightarrow> (string \<Rightarrow> bool) \<Rightarrow> string set \<Rightarrow>
    ('st, 'sm) cluster \<Rightarrow> string \<Rightarrow> bool" where
  "member_ok ok possible storable members c i \<longleftrightarrow>
     (case up c i of
        None \<Rightarrow> stored_promises ok possible storable (votes_of c i) (disk c i)
      | Some p \<Rightarrow> promises ok possible storable (votes_of c i) (pnode p) \<and> nid (pnode p) = i \<and>
          distinct (map fst (peerAddrs (pnode p))) \<and> set (map fst (peerAddrs (pnode p))) = members - {i} \<and>
          (role (pnode p) = Candidate \<longrightarrow> (currentTerm (pnode p), i, i) \<in> granted c) \<and>
          (role (pnode p) = Leader \<longrightarrow> (currentTerm (pnode p), i) \<in> elected c))"

definition majority_voted :: "string set \<Rightarrow> ('st, 'sm) cluster \<Rightarrow> u64 \<Rightarrow> string \<Rightarrow> bool" where
  "majority_voted members c t v \<longleftrightarrow>
     (\<exists>V \<subseteq> members. card members < 2 * card V \<and> (\<forall>j \<in> V. (t, v, j) \<in> granted c))"

definition cluster_ok :: "('st \<Rightarrow> bool) \<Rightarrow> ('st \<Rightarrow> HardState set) \<Rightarrow> (string \<Rightarrow> bool) \<Rightarrow> string set \<Rightarrow>
    ('st, 'sm) cluster \<Rightarrow> bool" where
  "cluster_ok ok possible storable members c \<longleftrightarrow> dom (up c) \<subseteq> members \<and>
     (\<forall>i \<in> members. member_ok ok possible storable members c i) \<and>
     (\<forall>t v v' i. (t, v, i) \<in> granted c \<longrightarrow> (t, v', i) \<in> granted c \<longrightarrow> v = v') \<and>
     (\<forall>t v. (t, v) \<in> elected c \<longrightarrow> majority_voted members c t v)"

definition cluster_init :: "('st \<Rightarrow> bool) \<Rightarrow> ('st \<Rightarrow> HardState set) \<Rightarrow> (string \<Rightarrow> bool) \<Rightarrow> string set \<Rightarrow>
    ('st, 'sm) cluster \<Rightarrow> bool" where
  "cluster_init ok possible storable members c \<longleftrightarrow> up c = Map.empty \<and> granted c = {} \<and> elected c = {} \<and>
     (\<forall>i \<in> members. ok (disk c i) \<and> (\<forall>h \<in> possible (disk c i). storable (hs_VotedFor h)))"

lemma cluster_init_ok: "cluster_init ok possible storable members c \<Longrightarrow> cluster_ok ok possible storable members c"
  by (simp add: cluster_init_def cluster_ok_def member_ok_def votes_of_def stored_promises_def)

text \<open>Two majorities share a voter, who voted once.\<close>

lemma majorities_meet:
  assumes "finite members" and "V \<subseteq> members" and "W \<subseteq> members"
    and "card members < 2 * card V" and "card members < 2 * card W"
  shows "V \<inter> W \<noteq> {}"
proof
  assume "V \<inter> W = {}"
  have "card V + card W = card (V \<union> W)"
    using assms(1-3) \<open>V \<inter> W = {}\<close> by (simp add: card_Un_disjoint finite_subset)
  also have "\<dots> \<le> card members" using assms(1-3) by (intro card_mono) auto
  finally show False using assms(4,5) by simp
qed

lemma elected_unique:
  assumes "finite members" and "cluster_ok ok possible storable members c"
    and "(t, v) \<in> elected c" and "(t, w) \<in> elected c"
  shows "v = w"
proof -
  have maj: "majority_voted members c t v" "majority_voted members c t w"
    and once: "\<forall>t v v' i. (t, v, i) \<in> granted c \<longrightarrow> (t, v', i) \<in> granted c \<longrightarrow> v = v'"
    using assms(2-4) by (simp_all add: cluster_ok_def)
  obtain V where V: "V \<subseteq> members" "card members < 2 * card V" "\<forall>j \<in> V. (t, v, j) \<in> granted c"
    using maj(1) unfolding majority_voted_def by blast
  obtain W where W: "W \<subseteq> members" "card members < 2 * card W" "\<forall>j \<in> W. (t, w, j) \<in> granted c"
    using maj(2) unfolding majority_voted_def by blast
  obtain j where "j \<in> V" "j \<in> W" using majorities_meet [OF assms(1) V(1) W(1) V(2) W(2)] by blast
  then show ?thesis using V(3) W(3) once by blast
qed

text \<open>Counting the votes of a winner.\<close>

lemma count_votes_Won: "count_votes n term results = Won \<Longrightarrow> quorum n \<le> 1 + granted_count results"
  using vote_loop_Won [of "quorum n" "term" 1 results] by (auto simp: count_votes_def split: if_splits)

lemma granted_count_card:
  assumes "distinct (map fst answers)"
  shows "granted_count (map snd answers) = card {j. \<exists>r. (j, Some r) \<in> set answers \<and> rvr_VoteGranted r}"
  using assms
proof (induction answers)
  case (Cons x xs)
  obtain j a where x: "x = (j, a)" by (cases x) auto
  let ?V = "\<lambda>xs. {j. \<exists>r. (j, Some r) \<in> set xs \<and> rvr_VoteGranted r}"
  have "?V xs \<subseteq> fst ` set xs" by force
  then have fin: "finite (?V xs)" "j \<notin> ?V xs" using Cons.prems x by (auto intro: finite_subset)
  have "?V (x # xs) = (if \<exists>r. a = Some r \<and> rvr_VoteGranted r then insert j (?V xs) else ?V xs)"
    by (auto simp: x)
  then show ?case using Cons fin x by (cases a) auto
qed simp

lemma winner_majority:
  assumes "finite members" and "i \<in> members" and "distinct (map fst (peerAddrs n))"
    and "set (map fst (peerAddrs n)) = members - {i}" and "(term, i, i) \<in> granted c"
    and "real_answers term i n (granted c) answers" and "count_votes n term (map snd answers) = Won"
  shows "majority_voted members c term i"
proof -
  let ?W = "{j. \<exists>r. (j, Some r) \<in> set answers \<and> rvr_VoteGranted r}"
  have sub: "?W \<subseteq> members - {i}" using assms(4,6) unfolding real_answers_def by force
  then have fin: "finite ?W" "i \<notin> ?W" using assms(1) by (auto intro: finite_subset)
  have "length (peerAddrs n) = card (members - {i})" using distinct_card [OF assms(3)] assms(4) by simp
  then have "card members = Suc (length (peerAddrs n))" using card_Suc_Diff1 [OF assms(1,2)] by simp
  moreover have "quorum n \<le> 1 + card ?W"
    using count_votes_Won [OF assms(7)] granted_count_card [of answers] assms(6) by (simp add: real_answers_def)
  ultimately have "card members < 2 * card (insert i ?W)" using fin by (simp add: quorum_def)
  moreover have "\<forall>j \<in> insert i ?W. (term, i, j) \<in> granted c" using assms(5,6) by (auto simp: real_answers_def)
  moreover have "insert i ?W \<subseteq> members" using sub assms(2) by auto
  ultimately show ?thesis unfolding majority_voted_def by blast
qed

section \<open>Every step keeps it\<close>

lemma member_ok_cong:
  assumes "member_ok ok possible storable members c i" and "up c' i = up c i" and "disk c' i = disk c i"
    and "votes_of c' i = votes_of c i" and "granted c \<subseteq> granted c'" and "elected c \<subseteq> elected c'"
  shows "member_ok ok possible storable members c' i"
  using assms by (auto simp: member_ok_def split: option.splits)

lemma majority_voted_mono:
  "majority_voted members c t v \<Longrightarrow> granted c \<subseteq> granted c' \<Longrightarrow> majority_voted members c' t v"
  unfolding majority_voted_def by blast

text \<open>A step of one member.\<close>

lemma cluster_ok_member_step:
  assumes "cluster_ok ok possible storable members c" and "i \<in> members"
    and "\<And>j. j \<noteq> i \<Longrightarrow> up c' j = up c j \<and> disk c' j = disk c j"
    and "granted c' = {(t, v, i) | t v. (t, v) \<in> new} \<union> granted c"
    and "\<And>t v v'. (t, v) \<in> new \<Longrightarrow> (t, v') \<in> new \<union> votes_of c i \<Longrightarrow> v' = v"
    and "elected c' = {(t, i) | t. t \<in> won} \<union> elected c" and "\<And>t. t \<in> won \<Longrightarrow> majority_voted members c' t i"
    and "member_ok ok possible storable members c' i"
  shows "cluster_ok ok possible storable members c'"
proof -
  have c: "dom (up c) \<subseteq> members" "\<forall>i \<in> members. member_ok ok possible storable members c i"
    "\<forall>t v v' i. (t, v, i) \<in> granted c \<longrightarrow> (t, v', i) \<in> granted c \<longrightarrow> v = v'"
    "\<forall>t v. (t, v) \<in> elected c \<longrightarrow> majority_voted members c t v"
    using assms(1) by (simp_all add: cluster_ok_def)
  have gr: "granted c \<subseteq> granted c'" "elected c \<subseteq> elected c'" using assms(4,6) by auto
  have "dom (up c') \<subseteq> members"
  proof
    fix j assume "j \<in> dom (up c')"
    then show "j \<in> members" using c(1) assms(2,3) by (cases "j = i") auto
  qed
  moreover have "member_ok ok possible storable members c' j" if "j \<in> members" for j
  proof (cases "j = i")
    case False
    then have "votes_of c' j = votes_of c j" using assms(4) by (auto simp: votes_of_def)
    then show ?thesis using member_ok_cong [of ok possible storable members c j c'] c(2) that assms(3) False gr by simp
  qed (simp add: assms(8))
  moreover have "v = v'" if "(t, v, j) \<in> granted c'" "(t, v', j) \<in> granted c'" for t v v' j
  proof -
    have mem: "(t, v, j) \<in> granted c \<or> j = i \<and> (t, v) \<in> new" "(t, v', j) \<in> granted c \<or> j = i \<and> (t, v') \<in> new"
      using that assms(4) by auto

    show ?thesis using mem c(3) assms(5) [of t v v'] assms(5) [of t v' v] by (auto simp: votes_of_def)
  qed
  moreover have "majority_voted members c' t v" if "(t, v) \<in> elected c'" for t v
    using that assms(6,7) c(4) majority_voted_mono [OF _ gr(1)] by auto
  ultimately show ?thesis unfolding cluster_ok_def by blast
qed

lemma cluster_ok_member:
  assumes "cluster_ok ok possible storable members c" and "up c i = Some p"
  shows "i \<in> members \<and> member_ok ok possible storable members c i"
  using assms by (auto simp: cluster_ok_def)


lemma member_ok_grant:
  assumes "member_ok ok possible storable members c i" and "up c i = Some p" and "up c' i = Some p'"
    and "no_office (pnode p) (pnode p')" and "granted c \<subseteq> granted c'" and "elected c' = elected c"
    and "promises ok possible storable (votes_of c' i) (pnode p')"
  shows "member_ok ok possible storable members c' i"
  using assms by (auto simp: member_ok_def no_office_def)

lemma cast_vote_peers [simp]:
  "role (snd (cast_vote S req n)) = role n" "nid (snd (cast_vote S req n)) = nid n"
  "peerAddrs (snd (cast_vote S req n)) = peerAddrs n" "currentTerm (snd (cast_vote S req n)) = currentTerm n"
  by (simp_all add: cast_vote_def case_prod_beta Let_def split: option.split)

lemma HandleRequestVote_office: "no_office n (snd (HandleRequestVote S req n))"
proof (cases rule: HandleRequestVote_cases [of S req n])
  case newer
  then show ?thesis by (simp add: no_office_def)
qed (simp_all add: no_office_def)

lemma HandleRequestVote_granted_term:
  assumes "rvr_VoteGranted (fst (HandleRequestVote S req n))"
  shows "currentTerm (snd (HandleRequestVote S req n)) = rv_Term req \<and>
    votedFor (snd (HandleRequestVote S req n)) = rv_CandidateID req"
proof (cases rule: HandleRequestVote_cases [of S req n])
  case newer
  then show ?thesis using assms cast_vote_granted(2) [of S req "snd (becomeFollowerForVoteLocked S (rv_Term req) n)"]
    by (simp add: max_def less_imp_le)
next
  case same
  then show ?thesis using assms cast_vote_granted(2) [of S req n] by simp
qed (use assms in \<open>simp_all add: rv_refuse_def\<close>)

lemma startElection_begin_request:
  assumes "startElection_begin S n = (r, n')"
  shows "nid n' = nid n" "peerAddrs n' = peerAddrs n"
    "r = Some req \<Longrightarrow> currentTerm n' = rv_Term req \<and> votedFor n' = nid n \<and> role n' = Candidate"
    "r = None \<Longrightarrow> role n' = role n \<and> currentTerm n' = currentTerm n"
proof -
  let ?m = "resetElectionLocked (n\<lparr>role := Candidate, currentTerm := currentTerm n + 1,
    votedFor := nid n, leaderID := '''', leaderNoopIndex := 0\<rparr>)"
  obtain e n2 where run: "persistHardStateLocked S ?m = (e, n2)" by fastforce
  have n2: "nid n2 = nid n" "peerAddrs n2 = peerAddrs n" "votedFor n2 = nid n" "role n2 = Candidate"
    using persistHardStateLocked_frame [of S ?m] run by simp_all
  show "nid n' = nid n" "peerAddrs n' = peerAddrs n"
    "r = Some req \<Longrightarrow> currentTerm n' = rv_Term req \<and> votedFor n' = nid n \<and> role n' = Candidate"
    "r = None \<Longrightarrow> role n' = role n \<and> currentTerm n' = currentTerm n"
    using assms run n2 by (auto simp: startElection_begin_def Let_def split: if_splits option.splits)
qed

lemma becomeLeader_office:
  assumes "becomeLeader S t n = (won, n')"
  shows "nid n' = nid n \<and> peerAddrs n' = peerAddrs n \<and>
    (role n' = Leader \<longrightarrow> currentTerm n' = t \<and> won \<or> n' = n) \<and> (role n' = Candidate \<longrightarrow> n' = n) \<and>
    (won \<longrightarrow> role n = Candidate \<and> currentTerm n = t)"
proof (cases rule: becomeLeader_cases [of S t n])
  case no
  then show ?thesis using assms by auto
next
  case (failed e st)
  then show ?thesis using assms by (auto simp: leader_fields_def Let_def)
next
  case (won st)
  let ?m = "append_noop (noop_entry t n) ((leader_fields n)\<lparr>store := st\<rparr>)"
  have m: "role ?m = Leader" "currentTerm ?m = currentTerm n" "nid ?m = nid n" "peerAddrs ?m = peerAddrs n"
    by (simp_all add: append_noop_def leader_fields_def Let_def)
  have "n' = advanceCommitLocked S ?m" using won(5) assms by simp
  then show ?thesis using advanceCommitLocked_more(4) [of S ?m] m won assms by auto
qed

context hard_state_store
begin

text \<open>A new promise agrees with the earlier ones of the same term.\<close>

lemma promise_agrees:
  assumes "promises ok possible storable (insert (currentTerm n, v) G) n" and "(currentTerm n, v') \<in> insert (currentTerm n, v) G"
  shows "v' = v"
proof -
  have "vote_le (currentTerm n, v) (currentTerm n) (votedFor n)" "vote_le (currentTerm n, v') (currentTerm n) (votedFor n)"
    using assms by (auto simp: promises_def)
  then show ?thesis by (simp add: vote_le_def)
qed

lemma cluster_start_ok:
  assumes "i \<in> members"
    and "up c i = None"
    and "config_for members i cfg"
    and "NewNode S M rnd now cfg m0 (disk c i) = (Inr n, st)"
    and "cluster_ok ok possible storable members c"
    and "\<forall>i \<in> members. storable i"
  shows "cluster_ok ok possible storable members
    (c\<lparr>up := (up c)(i \<mapsto> started n), disk := (disk c)(i := st)\<rparr>)"
proof -
  have m: "member_ok ok possible storable members c i" using assms by (simp add: cluster_ok_def)
  have d: "stored_promises ok possible storable (votes_of c i) (disk c i)" using m assms(2) by (simp add: member_ok_def)
  have cfg: "cfg_ID cfg = i" "distinct (map fst (cfg_peers (normalizeConfig cfg)))"
    "insert i (set (map fst (cfg_peers (normalizeConfig cfg)))) = members" using assms(3) by (simp_all add: config_for_def)
  have ids: "storable (cfg_ID cfg)" "\<forall>x \<in> set (cfg_peers (normalizeConfig cfg)). storable (fst x)"
    using assms(6) assms(1) cfg by auto
  note new = promises_NewNode(2) [OF d ids assms(4) refl]
  let ?c' = "c\<lparr>up := (up c)(i \<mapsto> started n), disk := (disk c)(i := st)\<rparr>"
  have "set (map fst (peerAddrs n)) = members - {i}" using new cfg by auto
  moreover have "distinct (map fst (peerAddrs n))" using new cfg by (simp add: distinct_map_filter)
  ultimately have "member_ok ok possible storable members ?c' i"
    using new cfg(1) by (simp add: member_ok_def started_def votes_of_def)
  then show ?thesis by (intro cluster_ok_member_step [OF assms(5,1), where new = "{}" and won = "{}"]) simp_all
qed

lemma cluster_start_failed_ok:
  assumes "i \<in> members"
    and "up c i = None"
    and "config_for members i cfg"
    and "NewNode S M rnd now cfg m0 (disk c i) = (Inl e, st)"
    and "cluster_ok ok possible storable members c"
    and "\<forall>i \<in> members. storable i"
  shows "cluster_ok ok possible storable members
    (c\<lparr>disk := (disk c)(i := st)\<rparr>)"
proof -
  have m: "member_ok ok possible storable members c i" using assms by (simp add: cluster_ok_def)
  have d: "stored_promises ok possible storable (votes_of c i) (disk c i)" using m assms(2) by (simp add: member_ok_def)
  have ids: "storable (cfg_ID cfg)" "\<forall>x \<in> set (cfg_peers (normalizeConfig cfg)). storable (fst x)"
    using assms(6) assms(1,3) by (auto simp: config_for_def)
  have "member_ok ok possible storable members (c\<lparr>disk := (disk c)(i := st)\<rparr>) i"
    using promises_NewNode(1) [OF d ids assms(4)] assms(2) by (simp add: member_ok_def votes_of_def)
  then show ?thesis by (intro cluster_ok_member_step [OF assms(5,1), where new = "{}" and won = "{}"]) simp_all
qed

lemma cluster_killed_ok:
  assumes "up c i = Some p"
    and "cluster_ok ok possible storable members c"
  shows "cluster_ok ok possible storable members
    (c\<lparr>up := (up c)(i := None), disk := (disk c)(i := store (pnode p))\<rparr>)"
proof -
  have i: "i \<in> members" and m: "member_ok ok possible storable members c i" using cluster_ok_member [OF assms(2,1)] by simp_all
  have "member_ok ok possible storable members (c\<lparr>up := (up c)(i := None), disk := (disk c)(i := store (pnode p))\<rparr>) i"
    using m assms(1) by (simp add: member_ok_def promises_def votes_of_def)
  then show ?thesis by (intro cluster_ok_member_step [OF assms(2) i, where new = "{}" and won = "{}"]) simp_all
qed

lemma cluster_outage_ok:
  assumes "i \<in> members"
    and "up c i = None"
    and "power_failure (disk c i) st"
    and "cluster_ok ok possible storable members c"
  shows "cluster_ok ok possible storable members
    (c\<lparr>disk := (disk c)(i := st)\<rparr>)"
proof -
  have "stored_promises ok possible storable (votes_of c i) (disk c i)"
    using assms by (auto simp: cluster_ok_def member_ok_def)
  moreover from this have "ok st" "possible st \<subseteq> possible (disk c i)"
    using power [of "disk c i" st] assms(3) by (simp_all add: stored_promises_def)
  ultimately have "member_ok ok possible storable members (c\<lparr>disk := (disk c)(i := st)\<rparr>) i"
    using stored_store assms(2) by (simp add: member_ok_def votes_of_def)
  then show ?thesis by (intro cluster_ok_member_step [OF assms(4,1), where new = "{}" and won = "{}"]) simp_all
qed

lemma cluster_work_ok:
  assumes "up c i = Some p"
    and "process_step S M a p p'"
    and "\<not> electoral a"
    and "cluster_ok ok possible storable members c"
  shows "cluster_ok ok possible storable members
    (c\<lparr>up := (up c)(i \<mapsto> p')\<rparr>)"
proof -
  have i: "i \<in> members" and m: "member_ok ok possible storable members c i" using cluster_ok_member [OF assms(4,1)] by simp_all
  have "promises ok possible storable (votes_of c i) (pnode p)" using m assms(1) by (simp add: member_ok_def)
  then have "promises ok possible storable (votes_of c i) (pnode p')" by (rule process_step_promises [OF assms(2,3)])
  then have "member_ok ok possible storable members (c\<lparr>up := (up c)(i \<mapsto> p')\<rparr>) i"
    using process_step_office [OF assms(2,3)] by (intro member_ok_grant [OF m assms(1)]) (simp_all add: votes_of_def)
  then show ?thesis by (intro cluster_ok_member_step [OF assms(4) i, where new = "{}" and won = "{}"]) simp_all
qed

lemma cluster_vote_ok:
  assumes "up c i = Some p"
    and "HandleRequestVote S req (pnode p) = (resp, n)"
    and "cluster_ok ok possible storable members c"
  shows "cluster_ok ok possible storable members
    (c\<lparr>up := (up c)(i \<mapsto> p\<lparr>pnode := n\<rparr>),
      granted := (if rvr_VoteGranted resp then {(rv_Term req, rv_CandidateID req, i)} else {}) \<union> granted c\<rparr>)"
proof -
  have i: "i \<in> members" and m: "member_ok ok possible storable members c i" using cluster_ok_member [OF assms(3,1)] by simp_all
  let ?c' = "c\<lparr>up := (up c)(i \<mapsto> p\<lparr>pnode := n\<rparr>),
      granted := (if rvr_VoteGranted resp then {(rv_Term req, rv_CandidateID req, i)} else {}) \<union> granted c\<rparr>"
  define new where "new = (if rvr_VoteGranted resp then {(rv_Term req, rv_CandidateID req)} else {})"
  have vo: "votes_of ?c' i = new \<union> votes_of c i" by (auto simp: votes_of_def new_def)
  have "promises ok possible storable (votes_of c i) (pnode p)" using m assms(1) by (simp add: member_ok_def)
  from promises_HandleRequestVote [OF this, of req]
  have pr: "promises ok possible storable (new \<union> votes_of c i) n" using assms(2) by (simp add: new_def split: if_splits)
  have "no_office (pnode p) n" using HandleRequestVote_office [of "pnode p" S req] assms(2) by simp
  then have "member_ok ok possible storable members ?c' i"
    using pr [folded vo] by (intro member_ok_grant [OF m assms(1), where p' = "p\<lparr>pnode := n\<rparr>"]) auto
  moreover have "v' = v" if "(t, v) \<in> new" "(t, v') \<in> new \<union> votes_of c i" for t v v'
  proof -
    have "rvr_VoteGranted resp" "t = rv_Term req" "v = rv_CandidateID req" using that(1) by (auto simp: new_def split: if_splits)
    moreover from this have "currentTerm n = t" using HandleRequestVote_granted_term [of S req "pnode p"] assms(2) by simp
    ultimately show ?thesis using promise_agrees [of n v "votes_of c i" v'] pr that(2) by (simp add: new_def)
  qed
  ultimately show ?thesis
    by (intro cluster_ok_member_step [OF assms(3) i, where new = new and won = "{}"]) (auto simp: new_def)
qed

lemma cluster_stand_ok:
  assumes "up c i = Some p"
    and "unat (currentTerm (pnode p)) + 1 < 2 ^ 64"
    and "startElection_begin S (pnode p) = (r, n)"
    and "cluster_ok ok possible storable members c"
  shows "cluster_ok ok possible storable members
    (c\<lparr>up := (up c)(i \<mapsto> p\<lparr>pnode := n\<rparr>),
      granted := (case r of None \<Rightarrow> {} | Some req \<Rightarrow> {(rv_Term req, i, i)}) \<union> granted c\<rparr>)"
proof -
  have i: "i \<in> members" and m: "member_ok ok possible storable members c i" using cluster_ok_member [OF assms(4,1)] by simp_all
  let ?c' = "c\<lparr>up := (up c)(i \<mapsto> p\<lparr>pnode := n\<rparr>),
      granted := (case r of None \<Rightarrow> {} | Some req \<Rightarrow> {(rv_Term req, i, i)}) \<union> granted c\<rparr>"
  define new where "new = (case r of None \<Rightarrow> {} | Some req \<Rightarrow> {(rv_Term req, i)})"
  have vo: "votes_of ?c' i = new \<union> votes_of c i" by (auto simp: votes_of_def new_def split: option.splits)
  have p: "promises ok possible storable (votes_of c i) (pnode p)" "nid (pnode p) = i"
    using m assms(1) by (simp_all add: member_ok_def)
  have pr: "promises ok possible storable (new \<union> votes_of c i) n"
    using promises_startElection_begin [OF p(1) assms(2,3)] p(2) by (simp add: new_def split: option.splits)
  note b = startElection_begin_request [OF assms(3)]
  have "member_ok ok possible storable members ?c' i"
    using m assms(1) pr b unfolding member_ok_def vo by (cases r) auto
  moreover have "v' = v" if tv: "(t, v) \<in> new" and "(t, v') \<in> new \<union> votes_of c i" for t v v'
  proof -
    obtain req where "r = Some req" "t = rv_Term req" "v = i" using tv by (auto simp: new_def split: option.splits)
    moreover from this have "currentTerm n = t" using b(3) by simp
    ultimately show ?thesis using promise_agrees [of n v "votes_of c i" v'] pr that(2) by (simp add: new_def)
  qed
  ultimately show ?thesis
    by (intro cluster_ok_member_step [OF assms(4) i, where new = new and won = "{}"]) (auto simp: new_def split: option.split)
qed

lemma cluster_win_ok:
  assumes "up c i = Some p"
    and "real_answers term i (pnode p) (granted c) answers"
    and "count_votes (pnode p) term (map snd answers) = Won"
    and "becomeLeader S term (pnode p) = (won, n)"
    and "cluster_ok ok possible storable members c"
    and "finite members"
  shows "cluster_ok ok possible storable members
    (c\<lparr>up := (up c)(i \<mapsto> p\<lparr>pnode := n\<rparr>),
      elected := (if won then {(term, i)} else {}) \<union> elected c\<rparr>)"
proof -
  have i: "i \<in> members" and m: "member_ok ok possible storable members c i" using cluster_ok_member [OF assms(5,1)] by simp_all
  let ?c' = "c\<lparr>up := (up c)(i \<mapsto> p\<lparr>pnode := n\<rparr>), elected := (if won then {(term, i)} else {}) \<union> elected c\<rparr>"
  have p: "promises ok possible storable (votes_of c i) (pnode p)" "nid (pnode p) = i"
    "distinct (map fst (peerAddrs (pnode p)))" "set (map fst (peerAddrs (pnode p))) = members - {i}"
    "role (pnode p) = Candidate \<longrightarrow> (currentTerm (pnode p), i, i) \<in> granted c"
    using m assms(1) by (simp_all add: member_ok_def)
  note b = becomeLeader_office [OF assms(4)]
  have pr: "promises ok possible storable (votes_of c i) n" using promises_becomeLeader [OF p(1), of "term"] assms(4) by simp
  have "member_ok ok possible storable members ?c' i"
    using m assms(1) pr b by (auto simp: member_ok_def votes_of_def)
  moreover have "majority_voted members ?c' term i" if won
  proof -
    have "(term, i, i) \<in> granted c" using b p(5) that by auto
    from winner_majority [OF assms(6) i p(3,4) this assms(2,3)] show ?thesis
      by (rule majority_voted_mono) simp
  qed
  ultimately show ?thesis
    by (intro cluster_ok_member_step [OF assms(5) i, where new = "{}" and won = "if won then {term} else {}"]) (auto split: if_splits)
qed

lemma cluster_step_ok:
  assumes "cluster_step S M power_failure members c c'" and "cluster_ok ok possible storable members c"
    and "finite members" and "\<forall>i \<in> members. storable i"
  shows "cluster_ok ok possible storable members c'"
  using assms(1,2)
proof (induction rule: cluster_step.induct)
  case (start i c cfg rnd now m0 n st)
  then show ?case using assms(4) by (rule cluster_start_ok)
next
  case (start_failed i c cfg rnd now m0 e st)
  then show ?case using assms(4) by (rule cluster_start_failed_ok)
next
  case (win c i p "term" answers won n)
  then show ?case using assms(3) by (rule cluster_win_ok)
next
  case (killed c i p)
  then show ?case by (rule cluster_killed_ok)
next
  case (outage i c st)
  then show ?case by (rule cluster_outage_ok)
next
  case (work c i p a p')
  then show ?case by (rule cluster_work_ok)
next
  case (vote c i p req resp n)
  then show ?case by (rule cluster_vote_ok)
next
  case (stand c i p r n)
  then show ?case by (rule cluster_stand_ok)
qed

end

end
