(* ===== verification/Raft_Run.thy ===== *)
theory Raft_Run
  imports Raft_Process
begin

text \<open>
  What holds of a running node in every interleaving of its goroutines, from its start by \<open>NewNode\<close>
  on, with the key-value state machine: the invariant of \<open>Raft_Process\<close>, the answers to the clients,
  and that nothing committed or applied is taken back.
\<close>

section \<open>Properties\<close>

text \<open>A state of a process that was started by \<open>NewNode\<close> with the key-value state machine, from a
  store that holds consecutive entries after its snapshot.\<close>

definition node_run :: "'st Store \<Rightarrow> ('st, KVStateMachine) process \<Rightarrow> bool" where
  "node_run S p \<longleftrightarrow> (\<exists>rnd now cfg st0 n st' hs entries s st.
     NewNode S KV rnd now cfg NewKVStateMachine st0 = (Inr n, st') \<and>
     Store_Load S st0 = (Inr (hs, entries, s), st) \<and> contiguous (LastIncludedIndex s) entries \<and>
     (process_moves S KV)\<^sup>*\<^sup>* (started n) p)"

lemma node_run_ok:
  assumes "node_run S p"
  shows "process_ok KV p"
proof -
  obtain rnd now cfg st0 n st' hs entries s st where
    new: "NewNode S KV rnd now cfg NewKVStateMachine st0 = (Inr n, st')"
      "Store_Load S st0 = (Inr (hs, entries, s), st)" "contiguous (LastIncludedIndex s) entries"
    and run: "(process_moves S KV)\<^sup>*\<^sup>* (started n) p"
    using assms unfolding node_run_def by blast
  have "SM_Restore KV None NewKVStateMachine = NewKVStateMachine"
    by (simp add: KV_def Restore_def NewKVStateMachine_def)
  from kv.NewNode_ok [OF new this] have "process_ok KV (started n)" by (intro kv.started_ok) simp_all
  with run show ?thesis by (rule kv.process_reachable_ok)
qed

lemma node_run_step: "node_run S p \<Longrightarrow> process_step S KV a p p' \<Longrightarrow> node_run S p'"
  unfolding node_run_def process_moves_def by (blast intro: rtranclp.rtrancl_into_rtrancl)

text \<open>C3. In every interleaving of its goroutines a node keeps its log and its indices consistent;
  whenever no command is being applied, its state machine is the snapshot with exactly the entries up
  to the applied index replayed; no waiter channel is registered twice, or registered after it was
  answered, or answered twice; and when a command has been run, the entry is still the next one to
  apply and committed, so that the check which would leave it applied but not counted never fails.\<close>

theorem node_run_invariant:
  assumes "node_run S p"
  shows "wf_node (pnode p) \<and> (apply_lock_free (applying p) \<longrightarrow> sm_ok KV (pnode p)) \<and>
    distinct (waiting (pnode p) @ map fst (sent (pnode p))) \<and>
    (\<forall>e r. applying p = Ran e r \<longrightarrow> fst (apply_finish KV e r (pnode p)) \<noteq> None)"
proof -
  have ok: "process_ok KV p" using assms by (rule node_run_ok)
  have "apply_lock_free (applying p) \<longrightarrow> sm_ok KV (pnode p)"
    using ok by (cases "applying p") (simp_all add: process_ok_def sm_ok_state_at)
  moreover have "fst (apply_finish KV e r (pnode p)) \<noteq> None" if "applying p = Ran e r" for e r
    using kv.apply_finish_sent(2) [OF ok that] by (metis prod.collapse)
  ultimately show ?thesis using ok by (simp add: process_ok_def chan_ok_def chans_def)
qed

text \<open>C2. A client that proposed a command and is answered without an error gets the result of that
  command, at the place in the log where it was appended, after that entry was committed, and in the
  state that the log up to it leads to.  It is the first answer on its channel.\<close>

theorem node_run_answers:
  assumes "node_run S p" and "process_step S KV a p p'"
    and "(w, out) \<in> set (drop (length (sent (pnode p))) (sent (pnode p')))" and "ao_err out = None"
  shows "\<exists>e. asked p w = Some (le_Index e, le_Command e) \<and> entryAtLocked (pnode p) (le_Index e) = Some e \<and>
    lastApplied (pnode p) < le_Index e \<and> le_Index e \<le> commitIndex (pnode p) \<and> w \<notin> fst ` set (sent (pnode p)) \<and>
    ao_result out = fst (Apply (le_Command e) (state_at KV (le_Index e - 1) (pnode p)))"
proof -
  obtain e where "asked p w = Some (le_Index e, le_Command e)" "entryAtLocked (pnode p) (le_Index e) = Some e"
    "lastApplied (pnode p) < le_Index e" "le_Index e \<le> commitIndex (pnode p)" "le_Index e = lastApplied (pnode p) + 1"
    "w \<notin> fst ` set (sent (pnode p))"
    "ao_result out = fst (SM_Apply KV (le_Command e) (state_at KV (lastApplied (pnode p)) (pnode p)))"
    by (rule kv.process_answer [OF assms(2) node_run_ok [OF assms(1)] assms(3,4)])
  then show ?thesis by (intro exI [of _ e]) (simp add: KV_def)
qed

text \<open>C4. No step of a node takes back what is committed or applied: the commit index, the applied
  index and the snapshot move forward only, and a committed entry that the snapshot does not cover is
  never changed.\<close>

theorem node_run_forward:
  assumes "node_run S p" and "(process_moves S KV)\<^sup>*\<^sup>* p p'"
  shows "commitIndex (pnode p) \<le> commitIndex (pnode p') \<and> lastApplied (pnode p) \<le> lastApplied (pnode p') \<and>
    lii (pnode p) \<le> lii (pnode p') \<and>
    (\<forall>i. lii (pnode p') < i \<and> i \<le> commitIndex (pnode p) \<longrightarrow> entryAtLocked (pnode p') i = entryAtLocked (pnode p) i)"
proof -
  have "node_run S p' \<and> forward (pnode p) (pnode p')"
    using assms(2)
  proof (induction rule: rtranclp_induct)
    case (step a b)
    then have "forward (pnode a) (pnode b)" using kv.process_step_forward node_run_ok unfolding process_moves_def by blast
    with step show ?case using node_run_step forward_trans unfolding process_moves_def by blast
  qed (simp add: assms(1))
  then show ?thesis by (simp add: forward_def)
qed

section \<open>Witness: a cluster of one node\<close>

definition ex_single_config :: Config where
  "ex_single_config = ex_config\<lparr>cfg_Peers := Some [(''a'', ''a:1'')]\<rparr>"

lemma NewNode_started:
  assumes "cfg_ID cfg \<noteq> ''''" and "validateConfig (normalizeConfig cfg) = None"
    and "Store_Load S st0 = (Inr (hs, [], zero_Snapshot), st)" and "hs_CommitIndex hs = 0"
  shows "NewNode S M rnd now cfg m0 st0 = (Inr (resetElectionLocked
     (boot_node (normalizeConfig cfg) hs [] zero_Snapshot 0 0 rnd now st m0)), st)"
  using assms
  by (simp add: NewNode_def boot_def boot_commit_def zero_Snapshot_def lastIndex_def Let_def) (simp add: boot_node_def)

definition ex_boot :: "(unit, KVStateMachine) node" where
  "ex_boot = resetElectionLocked (boot_node (normalizeConfig ex_single_config) zero_HardState [] zero_Snapshot 0 0
     (sconst 0) (sconst 0) () NewKVStateMachine)"

lemmas ex_run_defs = boot_node_def ex_single_config_def ex_config_def normalizeConfig_def cfg_peers_def
  boot_clients_def zero_HardState_def zero_Snapshot_def ex_store_def Let_def cloneSnapshot_id
  resetElectionLocked_def millisecond_def get_str_def

definition ex_put :: Command where
  "ex_put = \<lparr>cmd_Op = OpPut, cmd_Key = ''k'', cmd_Value = ''1'', cmd_Expected = []\<rparr>"

definition ex_candidate1 :: "(unit, KVStateMachine) node" where
  "ex_candidate1 = ex_boot\<lparr>role := Candidate, currentTerm := 1, votedFor := ''a''\<rparr>"

lemmas ex_eval = startElection_begin_def persistHardStateLocked_def saveHardStateLocked_def lastIndexLocked_def
  lastIndex_def lastTermLocked_def becomeLeader_def leader_fields_def noop_entry_def append_noop_def
  advanceCommitLocked_def advance_loop.simps replica_count_def commit_to_def quorum_def termAtLocked_def entryAtLocked_def
  notifyApplyLocked_def proposeAppend_def

lemma ex_stand: "run_task ex_store Start_election ex_boot = ex_candidate1"
  by (simp add: ex_candidate1_def ex_boot_def ex_eval ex_run_defs)

definition ex_leader1 :: "(unit, KVStateMachine) node" where
  "ex_leader1 = ex_candidate1\<lparr>role := Leader, leaderID := ''a'', leaderNoopIndex := 1, log := [ex_entry 1 1],
     commitIndex := 1, nextIndex := [''a'' \<mapsto> 2], matchIndex := [''a'' \<mapsto> 1], applyCh := True\<rparr>"

lemma ex_win: "run_task ex_store (Become_leader 1) ex_candidate1 = ex_leader1"
  by (simp add: ex_leader1_def ex_candidate1_def ex_boot_def ex_eval ex_run_defs ex_entry_def fun_upd_def fun_eq_iff)

definition ex_asked :: "(unit, KVStateMachine) node" where
  "ex_asked = ex_leader1\<lparr>log := [ex_entry 1 1, (ex_entry 2 1)\<lparr>le_Command := ex_put\<rparr>], commitIndex := 2,
     nextIndex := [''a'' \<mapsto> 3], matchIndex := [''a'' \<mapsto> 2], waiters := [(2, [0])], nextChan := 1\<rparr>"

lemma ex_ask: "proposeAppend ex_store ex_put ex_leader1 = (Inr (0, 2), ex_asked)"
  by (simp add: ex_asked_def ex_leader1_def ex_candidate1_def ex_boot_def ex_eval ex_run_defs ex_entry_def)

definition ex_noop_done :: "(unit, KVStateMachine) node" where
  "ex_noop_done = ex_asked\<lparr>lastApplied := 1\<rparr>"

lemmas ex_apply_eval = apply_begin_def apply_run_def apply_finish_def finishWaitersLocked_def deliver_def entryAtLocked_def
  ex_asked_def ex_leader1_def ex_candidate1_def ex_boot_def ex_run_defs ex_entry_def noop_command_def KV_def Apply_def Op_defs

lemma ex_noop:
  "apply_begin ex_asked = (Apply_entry (ex_entry 1 1), ex_asked)"
  "apply_run KV (ex_entry 1 1) ex_asked = (zero_ApplyResult\<lparr>res_OK := True\<rparr>, ex_asked)"
  "apply_finish KV (ex_entry 1 1) (zero_ApplyResult\<lparr>res_OK := True\<rparr>) ex_asked = (Some None, ex_noop_done)"
  by (simp_all add: ex_noop_done_def ex_apply_eval)

definition ex_put_entry :: LogEntry where
  "ex_put_entry = (ex_entry 2 1)\<lparr>le_Command := ex_put\<rparr>"

definition ex_put_result :: ApplyResult where
  "ex_put_result = zero_ApplyResult\<lparr>res_OK := True, res_Found := True, res_Value := ''1''\<rparr>"

definition ex_put_ran :: "(unit, KVStateMachine) node" where
  "ex_put_ran = ex_noop_done\<lparr>sm := \<lparr>kv_data = fmupd ''k'' ''1'' fmempty\<rparr>\<rparr>"

definition ex_put_done :: "(unit, KVStateMachine) node" where
  "ex_put_done = ex_put_ran\<lparr>lastApplied := 2, waiters := [], sent := [(0, \<lparr>ao_result = ex_put_result, ao_err = None\<rparr>)]\<rparr>"

lemma ex_put_applied:
  "apply_begin ex_noop_done = (Apply_entry ex_put_entry, ex_noop_done)"
  "apply_run KV ex_put_entry ex_noop_done = (ex_put_result, ex_put_ran)"
  "apply_finish KV ex_put_entry ex_put_result ex_put_ran = (Some None, ex_put_done)"
  by (simp_all add: ex_put_entry_def ex_put_result_def ex_put_ran_def ex_put_done_def ex_noop_done_def ex_put_def
      NewKVStateMachine_def ex_apply_eval le_u64_unat)

text \<open>The run: elected by its own vote, a put is proposed and committed at once, the no-op of the
  term and the put are applied, and the client is answered.\<close>

definition ex_ran :: "(unit, KVStateMachine) process" where
  "ex_ran = \<lparr>pnode = ex_put_ran, applying = Ran ex_put_entry ex_put_result, installing = None, asked = [0 \<mapsto> (2, ex_put)]\<rparr>"

lemma ex_boot_run: "node_run ex_store (started ex_boot)"
proof -
  have cfg: "cfg_ID ex_single_config \<noteq> ''''" "validateConfig (normalizeConfig ex_single_config) = None"
    by (simp_all add: ex_single_config_def ex_config_def normalizeConfig_def validateConfig_def Let_def cfg_peers_def get_str_def)
  have load: "Store_Load ex_store () = (Inr (zero_HardState, [], zero_Snapshot), ())" by (simp add: ex_store_def)
  have "NewNode ex_store KV (sconst 0) (sconst 0) ex_single_config NewKVStateMachine () = (Inr ex_boot, ())"
    unfolding ex_boot_def by (rule NewNode_started [OF cfg load]) (simp add: zero_HardState_def)
  with load show ?thesis unfolding node_run_def by fastforce
qed

lemma ex_ran_run: "node_run ex_store ex_ran"
proof -
  define p where "p n a w = (\<lparr>pnode = n, applying = a, installing = None, asked = w\<rparr> :: (unit, KVStateMachine) process)" for n a w
  note step = node_run_step [of ex_store]
  have 0: "node_run ex_store (p ex_boot Idle Map.empty)" using ex_boot_run by (simp add: started_def p_def)
  have 1: "node_run ex_store (p ex_candidate1 Idle Map.empty)"
    using step [OF 0 process_step.locked [of Start_election]] ex_stand by (simp add: p_def)
  have "has_room ex_candidate1" by (simp add: has_room_def ex_candidate1_def ex_boot_def ex_run_defs lastIndexLocked_def lastIndex_def)
  then have 2: "node_run ex_store (p ex_leader1 Idle Map.empty)"
    using step [OF 1 process_step.locked [of "Become_leader 1"]] ex_win by (simp add: p_def)
  have "has_room ex_leader1"
    by (simp add: has_room_def ex_leader1_def ex_candidate1_def ex_boot_def ex_run_defs ex_entry_def lastIndexLocked_def lastIndex_def)
  then have 3: "node_run ex_store (p ex_asked Idle [0 \<mapsto> (2, ex_put)])"
    using step [OF 2 process_step.accepted] ex_ask by (simp add: p_def)
  have 4: "node_run ex_store (p ex_asked (Running (ex_entry 1 1)) [0 \<mapsto> (2, ex_put)])"
    using step [OF 3 process_step.begin_apply] ex_noop(1) by (simp add: p_def)
  have 5: "node_run ex_store (p ex_asked (Ran (ex_entry 1 1) (zero_ApplyResult\<lparr>res_OK := True\<rparr>)) [0 \<mapsto> (2, ex_put)])"
    using step [OF 4 process_step.run_apply] ex_noop(2) by (simp add: p_def)
  have 6: "node_run ex_store (p ex_noop_done Idle [0 \<mapsto> (2, ex_put)])"
    using step [OF 5 process_step.finish_apply [of _ "ex_entry 1 1"]] ex_noop(3) by (fastforce simp: p_def)
  have 7: "node_run ex_store (p ex_noop_done (Running ex_put_entry) [0 \<mapsto> (2, ex_put)])"
    using step [OF 6 process_step.begin_apply] ex_put_applied(1) by (simp add: p_def)
  show ?thesis
    using step [OF 7 process_step.run_apply] ex_put_applied(2) by (simp add: p_def ex_ran_def)
qed

lemma ex_ran_step: "process_step ex_store KV None ex_ran (ex_ran\<lparr>pnode := ex_put_done, applying := Idle\<rparr>)"
  using process_step.finish_apply [of ex_ran ex_put_entry ex_put_result KV "Some None" ex_put_done] ex_put_applied(3)
  by (simp add: ex_ran_def)

lemma ex_ran_move: "process_moves ex_store KV ex_ran (ex_ran\<lparr>pnode := ex_put_done, applying := Idle\<rparr>)"
  unfolding process_moves_def using ex_ran_step by blast

theorem node_run_invariant_witness:
  "wf_node (pnode ex_ran) \<and> distinct (waiting (pnode ex_ran) @ map fst (sent (pnode ex_ran)))"
  using node_run_invariant [OF ex_ran_run] by simp

theorem node_run_answers_witness:
  "\<exists>e :: LogEntry. asked ex_ran 0 = Some (le_Index e, le_Command e) \<and> le_Command e = ex_put \<and> le_Index e = 2 \<and>
     ex_put_result = fst (Apply ex_put (state_at KV (le_Index e - 1) ex_put_ran))"
proof -
  define out where "out = \<lparr>ao_result = ex_put_result, ao_err = None\<rparr>"
  have out: "ao_err out = None" "ao_result out = ex_put_result" by (simp_all add: out_def)
  have s: "(0, out) \<in>
      set (drop (length (sent (pnode ex_ran))) (sent (pnode (ex_ran\<lparr>pnode := ex_put_done, applying := Idle\<rparr>))))"
    by (simp add: out_def ex_ran_def ex_put_done_def ex_put_ran_def ex_noop_done_def ex_apply_eval)
  obtain e :: LogEntry where e: "asked ex_ran 0 = Some (le_Index e, le_Command e)"
      "ao_result out = fst (Apply (le_Command e) (state_at KV (le_Index e - 1) (pnode ex_ran)))"
    using node_run_answers [OF ex_ran_run ex_ran_step s out(1)] by blast
  note e(2) [unfolded out(2)]
  with e(1)
  show ?thesis by (intro exI [of _ e]) (simp add: ex_ran_def)
qed

theorem node_run_forward_witness:
  "lastApplied (pnode ex_ran) \<le> 2 \<and> commitIndex (pnode ex_ran) \<le> commitIndex ex_put_done"
  using node_run_forward [OF ex_ran_run r_into_rtranclp [of "process_moves ex_store KV", OF ex_ran_move]]
  by (simp add: ex_put_done_def)

end
