(* ===== verification/File_System.thy ===== *)
theory File_System
  imports Go_Prelude "HOL-Library.Sublist"
begin

text \<open>
  The part of the operating system that package storage writes through: one directory of files,
  with the calls of package \<open>os\<close> that \<open>internal/storage/wal.go\<close> makes.

  A directory maps names to files (inodes).  A write reaches the visible content of a file; only
  \<open>Sync\<close> makes it durable, and a change of the directory is durable only after a \<open>Sync\<close> of the
  directory.  \<open>versions\<close> lists the states of the directory that a power failure may bring back,
  the current one first.  Every call may fail: \<open>faults\<close> is the stream of the calls' outcomes, and
  a failing write may have written some bytes.

  A program that stops in the middle of an operation leaves the file system as if the next call had
  failed, because after a failing call the operations of package storage only close files.  So the
  failure branches below also cover a process that is killed; a power failure is \<open>crash\<close>.
\<close>

type_synonym path = string
type_synonym ino = nat

datatype fault = No_fault | Fault string nat

record fs =
  versions :: "(path \<rightharpoonup> ino) list"
  content :: "ino \<Rightarrow> string"
  synced :: "ino \<Rightarrow> string"
  fresh :: ino
  faults :: "fault stream"

definition names :: "fs \<Rightarrow> path \<rightharpoonup> ino" where
  "names s = hd (versions s)"

definition set_names :: "(path \<rightharpoonup> ino) \<Rightarrow> fs \<Rightarrow> fs" where
  "set_names d s = s\<lparr>versions := d # versions s\<rparr>"

section \<open>Computations that may fail\<close>

type_synonym 'a io = "fs \<Rightarrow> (goerror + 'a) \<times> fs"

definition return_io :: "'a \<Rightarrow> 'a io" where
  "return_io x s = (Inr x, s)"

definition fail_io :: "goerror \<Rightarrow> 'a io" where
  "fail_io e s = (Inl e, s)"

definition bind_io :: "'a io \<Rightarrow> ('a \<Rightarrow> 'b io) \<Rightarrow> 'b io" where
  "bind_io m f s = (case m s of (Inl e, s') \<Rightarrow> (Inl e, s') | (Inr x, s') \<Rightarrow> f x s')"

text \<open>Handling an error instead of returning it.\<close>

definition catch_io :: "'a io \<Rightarrow> (goerror \<Rightarrow> 'a io) \<Rightarrow> 'a io" where
  "catch_io m h s = (case m s of (Inl e, s') \<Rightarrow> h e s' | (Inr x, s') \<Rightarrow> (Inr x, s'))"

section \<open>System calls\<close>

text \<open>Every call draws one outcome.\<close>

definition call :: "(string \<Rightarrow> nat \<Rightarrow> 'a io) \<Rightarrow> 'a io \<Rightarrow> 'a io" where
  "call on_fault m s =
     (case shd (faults s) of
        No_fault \<Rightarrow> m (s\<lparr>faults := stl (faults s)\<rparr>)
      | Fault e k \<Rightarrow> on_fault e k (s\<lparr>faults := stl (faults s)\<rparr>))"

definition os_error :: "string \<Rightarrow> nat \<Rightarrow> 'a io" where
  "os_error e k = fail_io (OSError e)"

definition ReadFile :: "path \<Rightarrow> string io" where
  "ReadFile p = call os_error (\<lambda>s.
     case names s p of None \<Rightarrow> (Inl ErrNotExist, s) | Some i \<Rightarrow> (Inr (content s i), s))"

definition Stat_Size :: "path \<Rightarrow> nat io" where
  "Stat_Size p = call os_error (\<lambda>s.
     case names s p of None \<Rightarrow> (Inl ErrNotExist, s) | Some i \<Rightarrow> (Inr (length (content s i)), s))"

text \<open>A new, empty file under a name.\<close>

definition create :: "path \<Rightarrow> fs \<Rightarrow> (goerror + ino) \<times> fs" where
  "create p s =
     (Inr (fresh s),
      (set_names ((names s)(p \<mapsto> fresh s)) s)
        \<lparr>content := (content s)(fresh s := []), synced := (synced s)(fresh s := []),
         fresh := Suc (fresh s)\<rparr>)"

text \<open>\<open>O_CREATE|O_TRUNC|O_WRONLY\<close>, \<open>O_CREATE|O_WRONLY|O_APPEND\<close> and \<open>O_WRONLY\<close>.\<close>

definition OpenTrunc :: "path \<Rightarrow> ino io" where
  "OpenTrunc p = call os_error (\<lambda>s.
     case names s p of
       None \<Rightarrow> create p s
     | Some i \<Rightarrow> (Inr i, s\<lparr>content := (content s)(i := [])\<rparr>))"

definition OpenAppend :: "path \<Rightarrow> ino io" where
  "OpenAppend p = call os_error (\<lambda>s.
     case names s p of None \<Rightarrow> create p s | Some i \<Rightarrow> (Inr i, s))"

definition OpenWrite :: "path \<Rightarrow> ino io" where
  "OpenWrite p = call os_error (\<lambda>s.
     case names s p of None \<Rightarrow> (Inl ErrNotExist, s) | Some i \<Rightarrow> (Inr i, s))"

definition append_content :: "ino \<Rightarrow> string \<Rightarrow> fs \<Rightarrow> fs" where
  "append_content i data s = s\<lparr>content := (content s)(i := content s i @ data)\<rparr>"

definition Write :: "ino \<Rightarrow> string \<Rightarrow> unit io" where
  "Write i data = call (\<lambda>e k s. (Inl (OSError e), append_content i (take k data) s))
     (\<lambda>s. (Inr (), append_content i data s))"

definition Sync :: "ino \<Rightarrow> unit io" where
  "Sync i = call os_error (\<lambda>s. (Inr (), s\<lparr>synced := (synced s)(i := content s i)\<rparr>))"

definition Truncate :: "ino \<Rightarrow> nat \<Rightarrow> unit io" where
  "Truncate i n = call os_error (\<lambda>s. (Inr (), s\<lparr>content := (content s)(i := take n (content s i))\<rparr>))"

definition Close :: "ino \<Rightarrow> unit io" where
  "Close i = call os_error (return_io ())"

definition Rename :: "path \<Rightarrow> path \<Rightarrow> unit io" where
  "Rename a b = call os_error (\<lambda>s.
     case names s a of
       None \<Rightarrow> (Inl ErrNotExist, s)
     | Some i \<Rightarrow> (Inr (), set_names ((names s)(a := None, b \<mapsto> i)) s))"

definition OpenDir :: "unit io" where
  "OpenDir = call os_error (return_io ())"

definition SyncDir :: "unit io" where
  "SyncDir = call os_error (\<lambda>s. (Inr (), s\<lparr>versions := [names s]\<rparr>))"

definition CloseDir :: "unit io" where
  "CloseDir = call os_error (return_io ())"

text \<open>The error path \<open>if err != nil { _ = file.Close(); return err }\<close>.\<close>

definition close_on_error :: "ino \<Rightarrow> 'a io \<Rightarrow> 'a io" where
  "close_on_error i m = catch_io m (\<lambda>e s. (Inl e, snd (Close i s)))"

section \<open>Power failure\<close>

text \<open>What a file may hold after a power failure: when the visible content extends the synced
  one, something in between; when it was cut, the same; anything when neither is a prefix of the
  other.\<close>

definition survives :: "string \<Rightarrow> string \<Rightarrow> string \<Rightarrow> bool" where
  "survives old new x \<longleftrightarrow>
     (prefix old new \<longrightarrow> prefix old x \<and> prefix x new) \<and>
     (prefix new old \<longrightarrow> prefix new x \<and> prefix x old)"

definition crash :: "fs \<Rightarrow> fs \<Rightarrow> bool" where
  "crash s s' \<longleftrightarrow>
     (\<exists>d \<in> set (versions s). versions s' = [d]) \<and>
     (\<forall>i. survives (synced s i) (content s i) (content s' i)) \<and>
     synced s' = content s' \<and> fresh s' = fresh s"

section \<open>What a file holds\<close>

text \<open>The visible content of a name, and the contents it may have after a power failure.\<close>

definition visible :: "fs \<Rightarrow> path \<Rightarrow> string option" where
  "visible s p = map_option (content s) (names s p)"

fun may_hold :: "fs \<Rightarrow> ino option \<Rightarrow> string option \<Rightarrow> bool" where
  "may_hold s None x \<longleftrightarrow> x = None"
| "may_hold s (Some i) x \<longleftrightarrow>
     (case x of None \<Rightarrow> False | Some c \<Rightarrow> survives (synced s i) (content s i) c)"

definition holds :: "fs \<Rightarrow> path \<Rightarrow> string option set" where
  "holds s p = {x. \<exists>d \<in> set (versions s). may_hold s (d p) x}"

lemma may_hold_frame [simp]:
  "may_hold (s\<lparr>faults := f\<rparr>) q x = may_hold s q x" "may_hold (s\<lparr>versions := v\<rparr>) q x = may_hold s q x"
  "may_hold (s\<lparr>fresh := n\<rparr>) q x = may_hold s q x"
  by (cases q; simp split: option.splits)+

lemma may_hold_other [simp]:
  "q \<noteq> Some i \<Longrightarrow> may_hold (s\<lparr>content := (content s)(i := y)\<rparr>) q x = may_hold s q x"
  "q \<noteq> Some i \<Longrightarrow> may_hold (s\<lparr>synced := (synced s)(i := y)\<rparr>) q x = may_hold s q x"
  by (cases q; simp split: option.splits)+

lemma survives_same [simp]: "survives x x y \<longleftrightarrow> y = x"
  by (auto simp: survives_def intro: prefix_order.antisym)

text \<open>Names that end in \<open>.tmp\<close> are the temporary files.\<close>

definition is_tmp :: "path \<Rightarrow> bool" where
  "is_tmp p \<longleftrightarrow> suffix ''.tmp'' p"

definition can_sync_dir :: "fs \<Rightarrow> bool" where
  "can_sync_dir s \<longleftrightarrow>
     (\<forall>f \<in> sset (faults s). \<forall>k. f \<noteq> Fault ''EINVAL'' k \<and> f \<noteq> Fault ''ENOTSUP'' k)"

text \<open>The invariant of the file system: no file has two names in one directory, and the file under
  a name is not under another final name in any directory that may come back.\<close>

definition fs_ok :: "fs \<Rightarrow> bool" where
  "fs_ok s \<longleftrightarrow> versions s \<noteq> [] \<and> can_sync_dir s \<and>
     (\<forall>d \<in> set (versions s). inj_on d (dom d) \<and> ran d \<subseteq> {..<fresh s}) \<and>
     (\<forall>d \<in> set (versions s). \<forall>p q i. \<not> is_tmp q \<longrightarrow> names s p = Some i \<longrightarrow> d q = Some i \<longrightarrow> q = p)"

text \<open>A name is settled when a power failure changes neither its file nor the content.\<close>

definition settled :: "fs \<Rightarrow> path \<Rightarrow> bool" where
  "settled s p \<longleftrightarrow> (\<forall>d \<in> set (versions s). d p = names s p) \<and>
     (\<forall>i. names s p = Some i \<longrightarrow> synced s i = content s i)"

text \<open>The files outside \<open>X\<close> are as they were.\<close>

definition untouched :: "path set \<Rightarrow> fs \<Rightarrow> fs \<Rightarrow> bool" where
  "untouched X s s' \<longleftrightarrow>
     (\<forall>p. \<not> is_tmp p \<longrightarrow> p \<notin> X \<longrightarrow> visible s' p = visible s p \<and> holds s' p = holds s p \<and>
        (settled s p \<longrightarrow> settled s' p))"

lemma untouched_refl [simp]: "untouched X s s"
  by (simp add: untouched_def)

lemma untouched_trans: "untouched X s s1 \<Longrightarrow> untouched X s1 s2 \<Longrightarrow> untouched X s s2"
  by (simp add: untouched_def)

lemma untouched_mono: "untouched X s s' \<Longrightarrow> X \<subseteq> Y \<Longrightarrow> untouched Y s s'"
  by (auto simp: untouched_def)

section \<open>Drawing an outcome\<close>

abbreviation next_fault :: "fs \<Rightarrow> fs" where
  "next_fault s \<equiv> s\<lparr>faults := stl (faults s)\<rparr>"

lemma faults_update_frame [simp]:
  "names (s\<lparr>faults := f\<rparr>) = names s" "visible (s\<lparr>faults := f\<rparr>) = visible s"
  "holds (s\<lparr>faults := f\<rparr>) = holds s" "settled (s\<lparr>faults := f\<rparr>) = settled s"
  by (simp_all add: names_def visible_def [abs_def] holds_def [abs_def] settled_def [abs_def])

lemma untouched_faults [simp]: "untouched X s (s'\<lparr>faults := f\<rparr>) = untouched X s s'"
  by (simp add: untouched_def)

lemma fs_ok_next_fault [simp]: "fs_ok s \<Longrightarrow> fs_ok (next_fault s)"
  by (auto simp: fs_ok_def can_sync_dir_def dest: stl_sset)

lemma call_cases:
  assumes "call on_fault m s = (r, s')"
  obtains (ok) "m (next_fault s) = (r, s')"
    | (fault) e k where "shd (faults s) = Fault e k" "on_fault e k (next_fault s) = (r, s')"
  using assms by (auto simp: call_def split: fault.splits)

lemma bind_io_cases:
  assumes "bind_io m f s = (r, s')"
  obtains (err) e where "m s = (Inl e, s')" "r = Inl e"
    | (go) x s1 where "m s = (Inr x, s1)" "f x s1 = (r, s')"
  using assms by (auto simp: bind_io_def split: prod.splits sum.splits)

text \<open>Calls that change nothing but the stream of outcomes.\<close>

lemma quiet_calls:
  "snd (ReadFile p s) = next_fault s" "snd (Stat_Size p s) = next_fault s"
  "snd (OpenWrite p s) = next_fault s" "snd (Close i s) = next_fault s"
  "snd (OpenDir s) = next_fault s" "snd (CloseDir s) = next_fault s"
  by (simp_all add: ReadFile_def Stat_Size_def OpenWrite_def Close_def OpenDir_def CloseDir_def
      call_def os_error_def fail_io_def return_io_def split: fault.splits option.splits)

lemma close_on_error_cases:
  assumes "close_on_error i m s = (r, s')"
  obtains (err) e s1 where "m s = (Inl e, s1)" "r = Inl e" "s' = next_fault s1"
    | (go) x where "m s = (Inr x, s')" "r = Inr x"
  using assms quiet_calls(4) [of i]
  by (auto simp: close_on_error_def catch_io_def split: prod.splits sum.splits)

section \<open>Writing a file that few names reach\<close>

definition only_at :: "path set \<Rightarrow> fs \<Rightarrow> ino \<Rightarrow> bool" where
  "only_at X s i \<longleftrightarrow> (\<forall>d \<in> set (versions s). \<forall>p. \<not> is_tmp p \<longrightarrow> p \<notin> X \<longrightarrow> d p \<noteq> Some i)"

lemma only_at_name:
  "fs_ok s \<Longrightarrow> names s p = Some i \<Longrightarrow> is_tmp p \<or> p \<in> X \<Longrightarrow> only_at X s i"
  unfolding fs_ok_def only_at_def by blast

lemma names_in_versions: "versions s \<noteq> [] \<Longrightarrow> names s \<in> set (versions s)"
  by (simp add: names_def)

lemma only_at_update:
  assumes "only_at X s i" and "versions s \<noteq> []"
  shows "untouched X s (s\<lparr>content := (content s)(i := x)\<rparr>)"
    and "untouched X s (s\<lparr>synced := (synced s)(i := x)\<rparr>)"
proof -
  have ne: "d p \<noteq> Some i" if "d \<in> set (versions s)" "\<not> is_tmp p" "p \<notin> X" for d p
    using assms(1) that by (auto simp: only_at_def)
  show "untouched X s (s\<lparr>content := (content s)(i := x)\<rparr>)"
    unfolding untouched_def
  proof (intro allI impI conjI)
    fix p assume p: "\<not> is_tmp p" "p \<notin> X"
    show "visible (s\<lparr>content := (content s)(i := x)\<rparr>) p = visible s p"
      using ne [OF names_in_versions [OF assms(2)] p]
      by (cases "names s p") (auto simp: visible_def names_def)
    show "holds (s\<lparr>content := (content s)(i := x)\<rparr>) p = holds s p"
      using ne [OF _ p] by (simp add: holds_def cong: bex_cong)
    show "settled (s\<lparr>content := (content s)(i := x)\<rparr>) p" if "settled s p"
      using that ne [OF names_in_versions [OF assms(2)] p] by (auto simp: settled_def names_def)
  qed
  show "untouched X s (s\<lparr>synced := (synced s)(i := x)\<rparr>)"
    unfolding untouched_def
  proof (intro allI impI conjI)
    fix p assume p: "\<not> is_tmp p" "p \<notin> X"
    show "visible (s\<lparr>synced := (synced s)(i := x)\<rparr>) p = visible s p"
      by (simp add: visible_def names_def)
    show "holds (s\<lparr>synced := (synced s)(i := x)\<rparr>) p = holds s p"
      using ne [OF _ p] by (simp add: holds_def cong: bex_cong)
    show "settled (s\<lparr>synced := (synced s)(i := x)\<rparr>) p" if "settled s p"
      using that ne [OF names_in_versions [OF assms(2)] p] by (auto simp: settled_def names_def)
  qed
qed

lemma fs_ok_update [simp]:
  "fs_ok (s\<lparr>content := c\<rparr>) \<longleftrightarrow> fs_ok s" "fs_ok (s\<lparr>synced := c\<rparr>) \<longleftrightarrow> fs_ok s"
  "names (s\<lparr>content := c\<rparr>) = names s" "names (s\<lparr>synced := c\<rparr>) = names s"
  by (simp_all add: fs_ok_def can_sync_dir_def names_def)

section \<open>Effects of the writing calls\<close>

lemma visible_names: "names s p = Some i \<Longrightarrow> visible s p = Some (content s i)"
  by (simp add: visible_def)

lemma inj_dom_eq: "inj_on d (dom d) \<Longrightarrow> d q = Some i \<Longrightarrow> d p = Some i \<Longrightarrow> q = p"
  by (metis domI inj_onD)

lemma fs_okI:
  assumes "versions s \<noteq> []" and "can_sync_dir s"
    and "\<And>d. d \<in> set (versions s) \<Longrightarrow> inj_on d (dom d)"
    and "\<And>d p i. d \<in> set (versions s) \<Longrightarrow> d p = Some i \<Longrightarrow> i < fresh s"
    and "\<And>d p q i. d \<in> set (versions s) \<Longrightarrow> \<not> is_tmp q \<Longrightarrow> names s p = Some i \<Longrightarrow> d q = Some i \<Longrightarrow> q = p"
  shows "fs_ok s"
  using assms unfolding fs_ok_def ran_def by blast

lemma fs_okD:
  assumes "fs_ok s"
  shows "versions s \<noteq> []" and "can_sync_dir s" and "names s \<in> set (versions s)"
    and "d \<in> set (versions s) \<Longrightarrow> inj_on d (dom d)"
    and "d \<in> set (versions s) \<Longrightarrow> d p = Some i \<Longrightarrow> i < fresh s"
    and "d \<in> set (versions s) \<Longrightarrow> \<not> is_tmp q \<Longrightarrow> names s p = Some i \<Longrightarrow> d q = Some i \<Longrightarrow> q = p"
    and "names s p = Some i \<Longrightarrow> names s q = Some i \<Longrightarrow> q = p"
proof -
  show v: "versions s \<noteq> []" and "can_sync_dir s" using assms by (simp_all add: fs_ok_def)
  show cur: "names s \<in> set (versions s)" by (rule names_in_versions [OF v])
  show inj: "d \<in> set (versions s) \<Longrightarrow> inj_on d (dom d)" for d using assms by (simp add: fs_ok_def)
  show "d \<in> set (versions s) \<Longrightarrow> d p = Some i \<Longrightarrow> i < fresh s"
    using assms unfolding fs_ok_def ran_def by blast
  show "d \<in> set (versions s) \<Longrightarrow> \<not> is_tmp q \<Longrightarrow> names s p = Some i \<Longrightarrow> d q = Some i \<Longrightarrow> q = p"
    using assms unfolding fs_ok_def by blast
  show "names s p = Some i \<Longrightarrow> names s q = Some i \<Longrightarrow> q = p"
    by (rule inj_dom_eq [OF inj [OF cur]])
qed

lemma create_effect:
  assumes "fs_ok s" and "create t s = (r, s')"
  shows "fs_ok s' \<and> untouched {t} s s' \<and> r = Inr (fresh s) \<and> versions s' = names s' # versions s \<and>
    names s' t = Some (fresh s) \<and> content s' (fresh s) = [] \<and> synced s' (fresh s) = []"
proof -
  let ?d = "(names s)(t \<mapsto> fresh s)"
  have s': "s' = s\<lparr>versions := ?d # versions s, content := (content s)(fresh s := []),
      synced := (synced s)(fresh s := []), fresh := Suc (fresh s)\<rparr>" and r: "r = Inr (fresh s)"
    using assms(2) by (simp_all add: create_def set_names_def)
  note ok = fs_okD [OF assms(1)]
  have names': "names s' = ?d" by (simp add: s' names_def)
  have new: "d p \<noteq> Some (fresh s)" if "d \<in> set (versions s)" for d p using ok(5) [OF that] by auto
  have inj': "inj_on ?d (dom ?d)"
    using ok(4) [OF ok(3)] new [OF ok(3)] by (fastforce simp: inj_on_def dom_def split: if_splits)
  have vs: "versions s' = ?d # versions s" "fresh s' = Suc (fresh s)" by (simp_all add: s')
  have "can_sync_dir s'" using ok(2) by (simp add: s' can_sync_dir_def)
  then have "fs_ok s'"
  proof (rule fs_okI [rotated])
    show "versions s' \<noteq> []" by (simp add: vs)
    show "inj_on d (dom d)" if "d \<in> set (versions s')" for d
      using that inj' ok(4) unfolding vs by (metis set_ConsD)
    show "i < fresh s'" if "d \<in> set (versions s')" "d p = Some i" for d p i
    proof (cases "d = ?d")
      case True
      then show ?thesis using that(2) ok(5) [OF ok(3), of p i] by (auto simp: vs split: if_splits)
    next
      case False
      then show ?thesis using that ok(5) [of d p i] by (simp add: vs)
    qed
    show "q = p" if d: "d \<in> set (versions s')" and q: "\<not> is_tmp q" and p: "names s' p = Some i"
      and dq: "d q = Some i" for d p q i
    proof (cases "d = ?d")
      case True
      then have "?d q = Some i" using dq by (simp only:)
      then show ?thesis using inj_dom_eq [OF inj'] p unfolding names' by blast
    next
      case False
      then have d': "d \<in> set (versions s)" using d by (simp add: vs)
      then have "i \<noteq> fresh s" using new [OF d', of q] dq by auto
      then have "names s p = Some i" using p by (auto simp: names' split: if_splits)
      then show ?thesis using ok(6) [OF d' q] dq by blast
    qed
  qed
  moreover have "untouched {t} s s'"
    unfolding untouched_def
  proof (intro allI impI conjI)
    fix p assume p: "\<not> is_tmp p" "p \<notin> {t}"
    then show "visible s' p = visible s p"
      using names' new [OF ok(3), of p] by (cases "names s p") (auto simp: visible_def s')
    have m: "may_hold s' (d p) x = may_hold s (d p) x" if "d \<in> set (versions s)" for d x
      using new [OF that, of p] by (cases "d p") (auto simp: s' split: option.splits)
    have "holds s' p = {x. may_hold s' (names s p) x \<or> (\<exists>d \<in> set (versions s). may_hold s' (d p) x)}"
      using p by (auto simp: holds_def vs)
    also have "\<dots> = holds s p" using m ok(3) by (auto simp: holds_def)
    finally show "holds s' p = holds s p" .
    show "settled s' p" if "settled s p"
    proof -
      have same: "?d p = names s p" using p by simp
      have "synced s' i = content s' i" if "names s p = Some i" for i
        using \<open>settled s p\<close> that new [OF ok(3), of p] by (auto simp: settled_def s')
      then show ?thesis using that same unfolding settled_def names' vs
        by (simp del: fun_upd_apply)
    qed
  qed
  ultimately show ?thesis using r names' vs by (simp add: s')
qed

lemma OpenTrunc_tmp:
  assumes "fs_ok s" and "is_tmp t" and "OpenTrunc t s = (r, s')"
  shows "fs_ok s' \<and> untouched {} s s' \<and> (\<forall>i. r = Inr i \<longrightarrow> names s' t = Some i \<and> content s' i = [])"
  using assms(3) unfolding OpenTrunc_def
proof (cases rule: call_cases)
  case ok
  have ok': "fs_ok (next_fault s)" using assms(1) by simp
  show ?thesis
  proof (cases "names s t")
    case None
    then have "create t (next_fault s) = (r, s')" using ok by simp
    note c = create_effect [OF ok' this]
    then have "untouched {} s s'" using assms(2) by (auto simp: untouched_def)
    then show ?thesis using c by auto
  next
    case (Some i)
    then have s': "s' = (next_fault s)\<lparr>content := (content (next_fault s))(i := [])\<rparr>" and "r = Inr i"
      using ok by auto
    have "only_at {} (next_fault s) i" using ok' Some assms(2) by (intro only_at_name) auto
    from only_at_update(1) [OF this, of "[]"] have "untouched {} (next_fault s) s'"
      using fs_okD(1) [OF ok'] unfolding s' by simp
    then have "untouched {} s s'" by (simp add: untouched_def)
    moreover have "fs_ok s'" using ok' by (simp add: s' del: fun_upd_apply)
    ultimately show ?thesis using Some \<open>r = Inr i\<close> by (simp add: s')
  qed
next
  case (fault e k)
  then show ?thesis using assms(1) by (auto simp: os_error_def fail_io_def)
qed

lemma OpenAppend_effect:
  assumes "fs_ok s" and "OpenAppend p s = (r, s')"
  shows "fs_ok s' \<and> untouched {p} s s' \<and>
    (case r of
       Inl e \<Rightarrow> s' = next_fault s
     | Inr i \<Rightarrow> names s' p = Some i \<and>
         (case names s p of
            Some j \<Rightarrow> s' = next_fault s
          | None \<Rightarrow> content s' i = [] \<and> synced s' i = [] \<and> versions s' = names s' # versions s))"
  using assms(2) unfolding OpenAppend_def
proof (cases rule: call_cases)
  case ok
  have ok': "fs_ok (next_fault s)" using assms(1) by simp
  show ?thesis
  proof (cases "names s p")
    case None
    then have "create p (next_fault s) = (r, s')" using ok by simp
    from create_effect [OF ok' this] show ?thesis using None by (auto simp: untouched_def)
  next
    case (Some i)
    then show ?thesis using ok ok' by auto
  qed
next
  case (fault e k)
  then show ?thesis using assms(1) by (auto simp: os_error_def fail_io_def)
qed

text \<open>Writing to and syncing the file under a name.\<close>

lemma Write_effect:
  assumes "fs_ok s" and "names s p = Some i" and "is_tmp p \<or> p \<in> X" and "Write i x s = (r, s')"
  shows "fs_ok s' \<and> untouched X s s' \<and> names s' = names s \<and> versions s' = versions s \<and>
    synced s' = synced s \<and>
    (\<exists>y. content s' = (content s)(i := content s i @ y) \<and> prefix y x \<and> (r = Inr () \<longrightarrow> y = x))"
proof -
  let ?u = "\<lambda>y. (next_fault s)\<lparr>content := (content (next_fault s))(i := content s i @ y)\<rparr>"
  have ok: "fs_ok (next_fault s)" using assms(1) by simp
  have "only_at X (next_fault s) i" using ok assms(2,3) by (intro only_at_name) auto
  then have "untouched X (next_fault s) (?u y)" for y
    by (rule only_at_update(1) [OF _ fs_okD(1) [OF ok]])
  then have *: "untouched X s (?u y)" for y by (simp add: untouched_def)
  show ?thesis
    using assms(4) unfolding Write_def
  proof (cases rule: call_cases)
    case ok
    then have "s' = ?u x" by (simp add: append_content_def)
    then show ?thesis using * assms(1) by auto
  next
    case (fault e k)
    then have "s' = ?u (take k x)" "r = Inl (OSError e)" by (auto simp: append_content_def)
    then show ?thesis using * assms(1) by (auto simp: take_is_prefix)
  qed
qed

lemma Sync_effect:
  assumes "fs_ok s" and "names s p = Some i" and "is_tmp p \<or> p \<in> X" and "Sync i s = (r, s')"
  shows "fs_ok s' \<and> untouched X s s' \<and> names s' = names s \<and> versions s' = versions s \<and>
    content s' = content s \<and>
    synced s' = (case r of Inr _ \<Rightarrow> (synced s)(i := content s i) | Inl _ \<Rightarrow> synced s)"
  using assms(4) unfolding Sync_def
proof (cases rule: call_cases)
  case ok
  have f: "fs_ok (next_fault s)" using assms(1) by simp
  have "only_at X (next_fault s) i" using f assms(2,3) by (intro only_at_name) auto
  from only_at_update(2) [OF this fs_okD(1) [OF f], of "content s i"]
  have "untouched X s ((next_fault s)\<lparr>synced := (synced (next_fault s))(i := content s i)\<rparr>)"
    by (simp add: untouched_def)
  then show ?thesis using ok assms(1) by auto
next
  case (fault e k)
  then show ?thesis using assms(1) by (auto simp: os_error_def fail_io_def)
qed

text \<open>Moving a synced temporary file to its final name.\<close>

lemma Rename_tmp:
  assumes "fs_ok s" and "is_tmp t" and "\<not> is_tmp p" and "names s t = Some i"
    and "synced s i = content s i" and "Rename t p s = (r, s')"
  shows "fs_ok s' \<and> untouched {p} s s' \<and>
    (case r of
       Inl e \<Rightarrow> visible s' p = visible s p \<and> holds s' p = holds s p
     | Inr _ \<Rightarrow> holds s' p = insert (Some (content s i)) (holds s p) \<and>
         names s' p = Some i \<and> content s' = content s \<and> synced s' = synced s)"
  using assms(6) unfolding Rename_def
proof (cases rule: call_cases)
  case ok
  let ?d = "(names s)(t := None, p \<mapsto> i)"
  have s': "s' = (next_fault s)\<lparr>versions := ?d # versions s\<rparr>" and r: "r = Inr ()"
    using ok assms(4) by (simp_all add: set_names_def)
  note old = fs_okD [OF assms(1)]
  have names': "names s' = ?d" by (simp add: s' names_def)
  have vs: "versions s' = ?d # versions s" "fresh s' = fresh s" by (simp_all add: s')
  have inj': "inj_on ?d (dom ?d)"
    using old(7) assms(4) by (auto simp: inj_on_def dom_def split: if_splits)
  have "can_sync_dir s'"
    using fs_ok_next_fault [OF assms(1)] by (simp add: s' fs_ok_def can_sync_dir_def)
  then have "fs_ok s'"
  proof (rule fs_okI [rotated])
    show "versions s' \<noteq> []" by (simp add: vs)
    show "inj_on d (dom d)" if "d \<in> set (versions s')" for d
      using that inj' old(4) unfolding vs by (metis set_ConsD)
    show "j < fresh s'" if "d \<in> set (versions s')" "d q = Some j" for d q j
    proof (cases "d = ?d")
      case True
      then show ?thesis using that(2) old(5) [OF old(3)] assms(4) by (auto simp: vs split: if_splits)
    next
      case False
      then show ?thesis using that old(5) [of d q j] by (simp add: vs)
    qed
    show "q = u" if d: "d \<in> set (versions s')" and q: "\<not> is_tmp q" and u: "names s' u = Some j"
      and dq: "d q = Some j" for d u q j
    proof (cases "d = ?d")
      case True
      then have "?d q = Some j" using dq by (simp only:)
      then show ?thesis using inj_dom_eq [OF inj'] u unfolding names' by blast
    next
      case False
      then have d': "d \<in> set (versions s)" using d by (simp add: vs)
      show ?thesis
      proof (cases "u = p")
        case True
        then have "j = i" using u names' by simp
        then have "q = t" using old(6) [OF d' q assms(4)] dq by simp
        then show ?thesis using q assms(2) by simp
      next
        case False
        then have "names s u = Some j" using u names' by (simp split: if_splits)
        then show ?thesis using old(6) [OF d' q] dq by blast
      qed
    qed
  qed
  moreover have "untouched {p} s s'"
    unfolding untouched_def
  proof (intro allI impI conjI)
    fix q assume q: "\<not> is_tmp q" "q \<notin> {p}"
    then have same: "?d q = names s q" using assms(2) by auto
    then show "visible s' q = visible s q" unfolding visible_def names' by (simp add: s')
    have "holds s' q = {x. may_hold s (?d q) x \<or> (\<exists>d \<in> set (versions s). may_hold s (d q) x)}"
      by (auto simp: holds_def s' simp del: fun_upd_apply)
    then show "holds s' q = holds s q" unfolding same using old(3) by (auto simp: holds_def)
    show "settled s' q" if "settled s q"
      using that same unfolding settled_def names' vs by (simp add: s' del: fun_upd_apply)
  qed
  moreover have "holds s' p = insert (Some (content s i)) (holds s p)"
  proof -
    have "may_hold s (Some i) x \<longleftrightarrow> x = Some (content s i)" for x
      using assms(5) by (cases x) auto
    then show ?thesis by (auto simp: holds_def s' simp del: may_hold.simps)
  qed
  moreover have "names s' p = Some i" "content s' = content s" "synced s' = synced s"
    by (simp_all add: names') (simp_all add: s')
  ultimately show ?thesis using r by simp
next
  case (fault e k)
  then show ?thesis using assms(1) by (auto simp: os_error_def fail_io_def)
qed

lemma SyncDir_effect:
  assumes "fs_ok s" and "SyncDir s = (r, s')"
  shows "fs_ok s' \<and> visible s' = visible s \<and> (\<forall>q. holds s' q \<subseteq> holds s q) \<and> (\<forall>q. settled s q \<longrightarrow> settled s' q) \<and>
    names s' = names s \<and> content s' = content s \<and> synced s' = synced s \<and>
    (case r of Inr _ \<Rightarrow> versions s' = [names s]
     | Inl e \<Rightarrow> versions s' = versions s \<and> (\<exists>x k. e = OSError x \<and> shd (faults s) = Fault x k))"
  using assms(2) unfolding SyncDir_def
proof (cases rule: call_cases)
  case ok
  have cur: "names s \<in> set (versions s)" by (rule fs_okD(3) [OF assms(1)])
  have s': "s' = (next_fault s)\<lparr>versions := [names s]\<rparr>" "r = Inr ()" using ok by simp_all
  have names': "names s' = names s" by (simp add: s' names_def)
  have "fs_ok s'"
    using fs_ok_next_fault [OF assms(1)] cur unfolding fs_ok_def names' by (auto simp: s' can_sync_dir_def)
  moreover have "holds s' q \<subseteq> holds s q" for q using cur by (auto simp: holds_def s')
  moreover have "settled s q \<Longrightarrow> settled s' q" for q unfolding settled_def names' by (simp add: s')
  moreover have "visible s' = visible s" by (simp add: visible_def [abs_def] names') (simp add: s')
  ultimately show ?thesis using s' names' by simp
next
  case (fault e k)
  then show ?thesis using assms(1) by (auto simp: os_error_def fail_io_def)
qed

text \<open>After a power failure every name is settled, with a content that it could have.\<close>

lemma may_hold_content: "may_hold s q (map_option (content s) q)"
  by (cases q) (simp_all add: survives_def)

lemma visible_holds: "fs_ok s \<Longrightarrow> visible s p \<in> holds s p"
  using fs_okD(3) [of s] may_hold_content [of s "names s p"] by (auto simp: visible_def holds_def)

lemma settled_holds:
  assumes "fs_ok s" and "settled s p"
  shows "holds s p = {visible s p}"
proof -
  have "holds s p = {x. may_hold s (names s p) x}"
    unfolding holds_def using fs_okD(3) [OF assms(1)] assms(2) [unfolded settled_def]
    by (intro Collect_cong) metis
  also have "\<dots> = {visible s p}"
  proof (cases "names s p")
    case (Some i)
    then have "synced s i = content s i" using assms(2) by (simp add: settled_def)
    then show ?thesis using Some by (auto simp: visible_def split: option.splits)
  qed (simp add: visible_def)
  finally show ?thesis .
qed

lemma crash_effect:
  assumes "fs_ok s" and "crash s s'" and "can_sync_dir s'"
  shows "fs_ok s' \<and> (\<forall>p. settled s' p \<and> visible s' p \<in> holds s p)"
proof -
  obtain d where d: "d \<in> set (versions s)" "versions s' = [d]" using assms(2) by (auto simp: crash_def)
  have s': "names s' = d" "synced s' = content s'" "fresh s' = fresh s"
    "\<And>i. survives (synced s i) (content s i) (content s' i)"
    using assms(2) d(2) by (auto simp: crash_def names_def)
  have "fs_ok s'"
    using assms(3)
  proof (rule fs_okI [rotated])
    show "inj_on e (dom e)" if "e \<in> set (versions s')" for e
      using that d fs_okD(4) [OF assms(1)] by simp
    show "i < fresh s'" if "e \<in> set (versions s')" "e p = Some i" for e p i
      using that d s'(3) fs_okD(5) [OF assms(1) d(1)] by simp
    show "q = p" if "e \<in> set (versions s')" "\<not> is_tmp q" "names s' p = Some i" "e q = Some i" for e p q i
      using that d inj_dom_eq [OF fs_okD(4) [OF assms(1) d(1)]] s'(1) by simp
  qed (simp add: d(2))
  moreover have "settled s' p" for p using d s' by (simp add: settled_def)
  moreover have "visible s' p \<in> holds s p" for p
  proof -
    have "may_hold s (d p) (map_option (content s') (d p))" using s'(4) by (cases "d p") simp_all
    then show ?thesis using d(1) s'(1) by (auto simp: visible_def holds_def)
  qed
  ultimately show ?thesis by blast
qed

end
