(* ===== verification/Storage_WAL.thy ===== *)
theory Storage_WAL
  imports Storage_Codec File_System Raft_Types
begin

text \<open>
  \<open>internal/storage/wal.go\<close>: the store of a node.  It keeps three files in one directory, the
  hard state, the snapshot and the write-ahead log.  The hard state and the snapshot are replaced
  by writing a temporary file and renaming it; the log is appended to, or replaced the same way.
  Each method is one computation on the file system, because the store's mutex is held throughout.
\<close>

record Files =
  sf_hardState :: path
  sf_wal :: path
  sf_snapshot :: path

record walData =
  wd_hasBase :: bool
  wd_baseIndex :: u64
  wd_baseTerm :: u64
  wd_entries :: "LogEntry list"

definition zero_walData :: walData where
  "zero_walData = \<lparr>wd_hasBase = False, wd_baseIndex = 0, wd_baseTerm = 0, wd_entries = []\<rparr>"

text \<open>\<open>os.MkdirAll\<close> is a call that may fail; the directory itself is the file system's.\<close>

definition Open :: "path \<Rightarrow> Files io" where
  "Open dir = bind_io OpenDir (\<lambda>_. return_io
     \<lparr>sf_hardState = dir @ ''/hard_state.json'', sf_wal = dir @ ''/wal.jsonl'',
      sf_snapshot = dir @ ''/snapshot.json''\<rparr>)"

section \<open>Replacing a file\<close>

text \<open>\<open>EINVAL\<close> and \<open>ENOTSUP\<close> from syncing a directory count as success.\<close>

definition syncDir :: "unit io" where
  "syncDir =
     bind_io OpenDir (\<lambda>_.
     bind_io
       (catch_io (bind_io SyncDir (\<lambda>_. return_io True))
          (\<lambda>e. bind_io (catch_io CloseDir (\<lambda>_. return_io ())) (\<lambda>_.
             if e = OSError ''EINVAL'' \<or> e = OSError ''ENOTSUP'' then return_io False
             else fail_io e)))
       (\<lambda>synced. if synced then CloseDir else return_io ()))"

fun write_all :: "ino \<Rightarrow> string list \<Rightarrow> unit io" where
  "write_all file [] = return_io ()"
| "write_all file (x # xs) = bind_io (close_on_error file (Write file x)) (\<lambda>_. write_all file xs)"

text \<open>Write the pieces to \<open>path.tmp\<close> and sync it, rename it over \<open>path\<close>, sync the
  directory.\<close>

definition write_tmp :: "path \<Rightarrow> string list \<Rightarrow> unit io" where
  "write_tmp tmp pieces =
     bind_io (OpenTrunc tmp) (\<lambda>file.
     bind_io (write_all file pieces) (\<lambda>_.
     bind_io (close_on_error file (Sync file)) (\<lambda>_. Close file)))"

definition replace_file :: "path \<Rightarrow> string list \<Rightarrow> unit io" where
  "replace_file path pieces =
     bind_io (write_tmp (path @ ''.tmp'') pieces) (\<lambda>_.
     bind_io (Rename (path @ ''.tmp'') path) (\<lambda>_. syncDir))"

definition writeJSONAtomic :: "path \<Rightarrow> json \<Rightarrow> unit io" where
  "writeJSONAtomic path value = replace_file path [marshal value]"

definition writeWALAtomic :: "path \<Rightarrow> u64 \<Rightarrow> u64 \<Rightarrow> LogEntry list \<Rightarrow> unit io" where
  "writeWALAtomic path baseIndex baseTerm entries =
     replace_file path (encodeWALBase baseIndex baseTerm # map encodeWALEntry entries)"

definition readJSONFile :: "path \<Rightarrow> 'a setter \<Rightarrow> 'a \<Rightarrow> 'a io" where
  "readJSONFile path st x =
     bind_io (ReadFile path) (\<lambda>data.
       case unmarshal st data x of (y, ok) \<Rightarrow> if ok then return_io y else fail_io JSONError)"

text \<open>Reading a document whose file need not exist.\<close>

definition read_optional :: "path \<Rightarrow> 'a setter \<Rightarrow> 'a \<Rightarrow> 'a io" where
  "read_optional path st x =
     catch_io (readJSONFile path st x) (\<lambda>e. if e = ErrNotExist then return_io x else fail_io e)"

definition truncateFile :: "path \<Rightarrow> nat \<Rightarrow> unit io" where
  "truncateFile path sz =
     bind_io (OpenWrite path) (\<lambda>file.
     bind_io (close_on_error file (Truncate file sz)) (\<lambda>_.
     bind_io (close_on_error file (Sync file)) (\<lambda>_.
     bind_io (Close file) (\<lambda>_. syncDir))))"

section \<open>Reading the write-ahead log\<close>

definition newline :: char where
  "newline = CHR 0x0A"

definition wal_error :: "string \<Rightarrow> goerror" where
  "wal_error text = ErrorString (''decode WAL entry at byte offset %d: '' @ text)"

definition add_record :: "decodedWALLine \<Rightarrow> walData \<Rightarrow> goerror + walData" where
  "add_record record wal =
     (case record of
        Base i t \<Rightarrow>
          if wd_hasBase wal \<or> wd_entries wal \<noteq> [] then Inl (wal_error ''base record must be first'')
          else Inr (wal\<lparr>wd_hasBase := True, wd_baseIndex := i, wd_baseTerm := t\<rparr>)
      | Entry entry \<Rightarrow>
          if le_Index entry = 0 then Inl (wal_error ''zero log index'')
          else if wd_hasBase wal \<and> le_Index entry \<le> wd_baseIndex wal then
            Inl (wal_error ''log index %d is not after base index %d'')
          else if wd_entries wal = [] \<and> wd_hasBase wal \<and> le_Index entry \<noteq> wd_baseIndex wal + 1 then
            Inl (wal_error ''non-contiguous first log index %d after base %d'')
          else if wd_entries wal \<noteq> [] \<and> le_Index entry \<noteq> le_Index (last (wd_entries wal)) + 1 then
            Inl (wal_error ''non-contiguous log index %d after %d'')
          else Inr (wal\<lparr>wd_entries := wd_entries wal @ [entry]\<rparr>))"

text \<open>The loop over the lines from a byte offset on: the records read, and the offset of a tail
  without a newline, if there is one.\<close>

function read_loop :: "nat \<Rightarrow> string \<Rightarrow> walData \<Rightarrow> goerror + walData \<times> nat option" where
  "read_loop offset data wal =
     (if data = [] then Inr (wal, None)
      else if newline \<notin> set data then Inr (wal, Some offset)
      else
        (let raw = takeWhile (\<lambda>c. c \<noteq> newline) data;
             rest = drop (Suc (length raw)) data;
             offset' = offset + Suc (length raw);
             line = TrimSpace raw
         in if line = [] then read_loop offset' rest wal
            else case decodeWALLine line of
                   Inl e \<Rightarrow> Inl (wal_error ''%w'')
                 | Inr record \<Rightarrow>
                     (case add_record record wal of
                        Inl e \<Rightarrow> Inl e
                      | Inr wal' \<Rightarrow> read_loop offset' rest wal')))"
  by pat_completeness auto
termination
  by (relation "measure (\<lambda>(_, data, _). length data)") auto

declare read_loop.simps [simp del]

definition readWAL :: "path \<Rightarrow> walData io" where
  "readWAL path =
     bind_io
       (catch_io (bind_io (ReadFile path) (\<lambda>data. return_io (Some data)))
          (\<lambda>e. if e = ErrNotExist then return_io None else fail_io e))
       (\<lambda>found. case found of
          None \<Rightarrow> return_io zero_walData
        | Some data \<Rightarrow>
            (case read_loop 0 data zero_walData of
               Inl e \<Rightarrow> fail_io e
             | Inr (wal, None) \<Rightarrow> return_io wal
             | Inr (wal, Some offset) \<Rightarrow>
                 catch_io (bind_io (truncateFile path offset) (\<lambda>_. return_io wal))
                   (\<lambda>e. fail_io (ErrorString ''truncate partial WAL tail: %w''))))"

section \<open>Reconciling the log with the snapshot\<close>

definition entriesAfter :: "LogEntry list \<Rightarrow> u64 \<Rightarrow> LogEntry list \<times> bool" where
  "entriesAfter entries index =
     (let out = filter (\<lambda>e. index < le_Index e) entries
      in (out, length out \<noteq> length entries))"

definition hasSnapshotBoundaryEntry :: "LogEntry list \<Rightarrow> Snapshot \<Rightarrow> bool" where
  "hasSnapshotBoundaryEntry entries snap =
     (case find (\<lambda>e. le_Index e = LastIncludedIndex snap) entries of
        Some e \<Rightarrow> le_Term e = LastIncludedTerm snap
      | None \<Rightarrow> LastIncludedIndex snap = 0 \<and> LastIncludedTerm snap = 0)"

definition reconcileWALWithSnapshot :: "walData \<Rightarrow> Snapshot \<Rightarrow> LogEntry list \<times> bool" where
  "reconcileWALWithSnapshot wal snap =
     (if wd_hasBase wal \<and> wd_baseIndex wal = LastIncludedIndex snap \<and>
         wd_baseTerm wal = LastIncludedTerm snap
      then entriesAfter (wd_entries wal) (LastIncludedIndex snap)
      else if hasSnapshotBoundaryEntry (wd_entries wal) snap
      then (fst (entriesAfter (wd_entries wal) (LastIncludedIndex snap)), True)
      else if wd_entries wal = [] \<and> \<not> wd_hasBase wal then ([], False)
      else ([], True))"

section \<open>The methods of the store\<close>

definition snapshotBaseLocked :: "Files \<Rightarrow> (u64 \<times> u64) io" where
  "snapshotBaseLocked f =
     bind_io (read_optional (sf_snapshot f) (store_struct Snapshot_fields) zero_Snapshot)
       (\<lambda>snap. return_io (LastIncludedIndex snap, LastIncludedTerm snap))"

definition Load :: "Files \<Rightarrow> (HardState \<times> LogEntry list \<times> Snapshot) io" where
  "Load f =
     bind_io (read_optional (sf_hardState f) (store_struct HardState_fields) zero_HardState) (\<lambda>hs.
     bind_io (read_optional (sf_snapshot f) (store_struct Snapshot_fields) zero_Snapshot) (\<lambda>snap.
     bind_io (readWAL (sf_wal f)) (\<lambda>wal.
       if LastIncludedIndex snap > 0 then
         (case reconcileWALWithSnapshot wal snap of (entries, rewrite) \<Rightarrow>
            if rewrite then
              bind_io (writeWALAtomic (sf_wal f) (LastIncludedIndex snap) (LastIncludedTerm snap) entries)
                (\<lambda>_. return_io (hs, entries, snap))
            else return_io (hs, entries, snap))
       else if wd_hasBase wal \<and> wd_baseIndex wal > 0 then
         fail_io (ErrorString ''WAL is based at snapshot index %d but snapshot is missing'')
       else return_io (hs, wd_entries wal, snap))))"

definition SaveHardState :: "Files \<Rightarrow> HardState \<Rightarrow> unit io" where
  "SaveHardState f hs = writeJSONAtomic (sf_hardState f) (HardState_json hs)"

definition SaveSnapshot :: "Files \<Rightarrow> Snapshot \<Rightarrow> unit io" where
  "SaveSnapshot f snap = writeJSONAtomic (sf_snapshot f) (Snapshot_json snap)"

text \<open>A missing log and an empty one count as newly created: they get a base record.\<close>

definition wal_created :: "Files \<Rightarrow> bool io" where
  "wal_created f =
     catch_io (bind_io (Stat_Size (sf_wal f)) (\<lambda>size. return_io (size = 0)))
       (\<lambda>e. if e = ErrNotExist then return_io True else fail_io e)"

definition append_file :: "path \<Rightarrow> string list \<Rightarrow> bool \<Rightarrow> unit io" where
  "append_file path pieces created =
     bind_io (OpenAppend path) (\<lambda>file.
     bind_io (write_all file pieces) (\<lambda>_.
     bind_io (close_on_error file (Sync file)) (\<lambda>_.
     bind_io (Close file) (\<lambda>_.
       if created then syncDir else return_io ()))))"

definition AppendEntries :: "Files \<Rightarrow> LogEntry list \<Rightarrow> unit io" where
  "AppendEntries f entries =
     (if entries = [] then return_io ()
      else
        bind_io (wal_created f) (\<lambda>created.
        bind_io (if created then snapshotBaseLocked f else return_io (0, 0)) (\<lambda>(baseIndex, baseTerm).
          append_file (sf_wal f)
            ((if created then [encodeWALBase baseIndex baseTerm] else []) @ map encodeWALEntry entries)
            created)))"

definition ReplaceEntries :: "Files \<Rightarrow> LogEntry list \<Rightarrow> unit io" where
  "ReplaceEntries f entries =
     bind_io (snapshotBaseLocked f) (\<lambda>(baseIndex, baseTerm).
       writeWALAtomic (sf_wal f) baseIndex baseTerm entries)"

text \<open>The interface \<open>Store\<close> of package raft on these methods.\<close>

definition err_of :: "(goerror + unit) \<times> fs \<Rightarrow> goerror option \<times> fs" where
  "err_of r = (case r of (Inl e, s) \<Rightarrow> (Some e, s) | (Inr _, s) \<Rightarrow> (None, s))"

definition FileStore :: "Files \<Rightarrow> fs Store" where
  "FileStore f = \<lparr>Store_Load = Load f,
     Store_SaveHardState = (\<lambda>hs s. err_of (SaveHardState f hs s)),
     Store_AppendEntries = (\<lambda>es s. err_of (AppendEntries f es s)),
     Store_ReplaceEntries = (\<lambda>es s. err_of (ReplaceEntries f es s)),
     Store_SaveSnapshot = (\<lambda>snap s. err_of (SaveSnapshot f snap s))\<rparr>"

end
