(* ===== verification/Storage_Recovery.thy ===== *)
theory Storage_Recovery
  imports Storage_WAL
begin

text \<open>
  What \<open>readWAL\<close> recovers: a log file that was written completely is read back as it was
  written, and one whose last write was torn is read back up to its last complete line.
\<close>

section \<open>Reading complete lines\<close>

definition wal_text :: "u64 \<Rightarrow> u64 \<Rightarrow> LogEntry list \<Rightarrow> string" where
  "wal_text i t es = encodeWALBase i t @ concat (map encodeWALEntry es)"

definition wal_of :: "u64 \<Rightarrow> u64 \<Rightarrow> LogEntry list \<Rightarrow> walData" where
  "wal_of i t es = \<lparr>wd_hasBase = True, wd_baseIndex = i, wd_baseTerm = t, wd_entries = es\<rparr>"

lemma wal_text_Nil: "wal_text i t [] = encodeWALBase i t"
  by (simp add: wal_text_def)

lemma wal_text_append: "wal_text i t (es @ fs) = wal_text i t es @ concat (map encodeWALEntry fs)"
  by (simp add: wal_text_def)

lemma newline_text [simp]: "newline \<notin> set (base_text i t)" "newline \<notin> set (entry_text e)"
  by (simp_all add: newline_def)

lemma read_loop_line:
  assumes "newline \<notin> set x" and "TrimSpace x = x" and "x \<noteq> []"
  shows "read_loop off (x @ newline # rest) wal =
    (case decodeWALLine x of
       Inl e \<Rightarrow> Inl (wal_error ''%w'')
     | Inr record \<Rightarrow>
         (case add_record record wal of
            Inl e \<Rightarrow> Inl e
          | Inr wal' \<Rightarrow> read_loop (off + Suc (length x)) rest wal'))"
proof -
  have "takeWhile (\<lambda>c. c \<noteq> newline) (x @ newline # rest) = x"
    using assms(1) by (subst takeWhile_append2) auto
  moreover have "drop (Suc (length x)) (x @ newline # rest) = rest" by (simp add: Suc_diff_le)
  ultimately show ?thesis using assms
    by (subst read_loop.simps) (simp only: Let_def, simp del: drop_append)
qed

lemma read_loop_base:
  "read_loop off (encodeWALBase i t @ rest) zero_walData =
     read_loop (off + length (encodeWALBase i t)) rest (wal_of i t [])"
  using read_loop_line [of "base_text i t" off rest zero_walData]
  by (simp add: encode_text newline_def decode_text add_record_def zero_walData_def wal_of_def)

lemma read_loop_entry:
  assumes "valid_Command (le_Command e)" and "contiguous i (es @ [e])"
  shows "read_loop off (encodeWALEntry e @ rest) (wal_of i t es) =
     read_loop (off + length (encodeWALEntry e)) rest (wal_of i t (es @ [e]))"
proof -
  have gt: "i < le_Index e" using contiguous_gt [OF assms(2), of e] by (simp add: u64_simps)
  have nz: "le_Index e \<noteq> 0" using gt by auto
  have first: "le_Index e = i + 1" if "es = []"
    using assms(2) that gt by (simp add: plus_one_eq_u64)
  have succ: "le_Index e = le_Index (last es) + 1" if "es \<noteq> []"
  proof -
    have "unat (le_Index e) = Suc (unat (le_Index (last es)))"
      using assms(2) that by (simp add: contiguous_append)
    then show ?thesis by (simp add: plus_one_eq_u64 less_u64_unat)
  qed
  have "add_record (Entry e) (wal_of i t es) = Inr (wal_of i t (es @ [e]))"
    using gt nz first succ by (auto simp: add_record_def wal_of_def not_le)
  then show ?thesis
    using read_loop_line [of "entry_text e" off rest "wal_of i t es"] assms(1)
    by (simp add: encode_text newline_def decode_text)
qed

lemma read_loop_entries:
  assumes "valid_entries fs" and "contiguous i (es @ fs)"
  shows "read_loop off (concat (map encodeWALEntry fs) @ rest) (wal_of i t es) =
     read_loop (off + length (concat (map encodeWALEntry fs))) rest (wal_of i t (es @ fs))"
  using assms
proof (induction fs arbitrary: es off)
  case (Cons f fs)
  have "contiguous i (es @ [f])" "contiguous i ((es @ [f]) @ fs)"
    using Cons.prems(2) by (auto simp: contiguous_append)
  with Cons show ?case
    by (simp add: valid_entries_def read_loop_entry add.assoc)
qed simp

lemma read_loop_Nil: "read_loop off [] wal = Inr (wal, None)"
  by (subst read_loop.simps) simp

lemma read_loop_tail:
  "newline \<notin> set x \<Longrightarrow> x \<noteq> [] \<Longrightarrow> read_loop off x wal = Inr (wal, Some off)"
  by (subst read_loop.simps) simp

lemma read_loop_wal_text:
  assumes "valid_entries es" and "contiguous i es" and "newline \<notin> set x"
  shows "read_loop 0 (wal_text i t es @ x) zero_walData =
    Inr (wal_of i t es, if x = [] then None else Some (length (wal_text i t es)))"
proof -
  have "read_loop 0 (wal_text i t es @ x) zero_walData =
      read_loop (length (wal_text i t es)) x (wal_of i t es)"
    using read_loop_base [of 0 i t "concat (map encodeWALEntry es) @ x"]
      read_loop_entries [of es i "[]"] assms(1,2)
    by (simp add: wal_text_def)
  then show ?thesis using assms(3) by (simp add: read_loop_Nil read_loop_tail)
qed

section \<open>Torn writes\<close>

lemma prefix_line:
  assumes "prefix x (y @ [c] @ z)" and "c \<notin> set y"
  shows "c \<notin> set x \<or> (\<exists>w. x = y @ c # w \<and> prefix w z)"
proof (cases "length x \<le> length y")
  case True
  then have "prefix x y" using assms(1) by (metis prefix_length_prefix append_Cons append_Nil
      prefix_def prefix_order.refl)
  then show ?thesis using assms(2) by (auto dest: set_mono_prefix)
next
  case False
  then have "prefix (y @ [c]) x" using assms(1)
    by (metis append.assoc length_append_singleton not_less_eq_eq prefixI prefix_length_prefix)
  then obtain w where w: "x = (y @ [c]) @ w" by (auto simp: prefix_def)
  with assms(1) have "prefix w z" by simp
  with w show ?thesis by auto
qed

lemma prefix_entries:
  assumes "prefix x (concat (map encodeWALEntry es))"
  obtains k z where "k \<le> length es" "x = concat (map encodeWALEntry (take k es)) @ z"
    "newline \<notin> set z"
proof -
  have "\<exists>k z. k \<le> length es \<and> x = concat (map encodeWALEntry (take k es)) @ z \<and> newline \<notin> set z"
    using assms
  proof (induction es arbitrary: x)
    case (Cons e es)
    then have "prefix x (entry_text e @ [newline] @ concat (map encodeWALEntry es))"
      by (simp add: encode_text(2) [of e] newline_def)
    from prefix_line [OF this newline_text(2)] show ?case
    proof (elim disjE exE conjE)
      fix w assume w: "x = entry_text e @ newline # w" "prefix w (concat (map encodeWALEntry es))"
      from Cons.IH [OF w(2)] obtain k z where "k \<le> length es"
        "w = concat (map encodeWALEntry (take k es)) @ z" "newline \<notin> set z" by blast
      then show ?thesis using w(1)
        by (intro exI [of _ "Suc k"] exI [of _ z]) (simp add: encode_text(2) [of e] newline_def)
    qed (rule exI [of _ 0], simp)
  qed simp
  then show thesis using that by blast
qed

lemma wal_text_torn:
  assumes "valid_entries (es @ fs)" and "contiguous i (es @ fs)"
    and "prefix (wal_text i t es) x" and "prefix x (wal_text i t (es @ fs))"
  obtains k off where "k \<le> length fs"
    "read_loop 0 x zero_walData = Inr (wal_of i t (es @ take k fs), off)"
    "(case off of None \<Rightarrow> x | Some n \<Rightarrow> take n x) = wal_text i t (es @ take k fs)"
proof -
  obtain y where x: "x = wal_text i t es @ y" using assms(3) by (auto simp: prefix_def)
  then have "prefix y (concat (map encodeWALEntry fs))"
    using assms(4) by (simp add: wal_text_append)
  then obtain k z where k: "k \<le> length fs" "y = concat (map encodeWALEntry (take k fs)) @ z"
    "newline \<notin> set z" by (rule prefix_entries)
  then have x': "x = wal_text i t (es @ take k fs) @ z" using x by (simp add: wal_text_append)
  have "valid_entries (es @ take k fs)" "contiguous i (es @ take k fs)"
    using assms(1,2) contiguous_take [of i "es @ fs" "length es + k"]
    by (auto simp: valid_entries_def list_all_iff dest: in_set_takeD)
  from read_loop_wal_text [OF this k(3), of t] show thesis
    unfolding x' [symmetric] by (rule that [OF k(1)]) (simp add: x')
qed

end
