(* ===== verification/Storage_Durability.thy ===== *)
theory Storage_Durability
  imports Storage_Recovery
begin

text \<open>
  What the store's methods leave on disk.  Replacing a file is atomic: whatever fails, each name
  keeps its old content or has the new one, now and after a power failure, and after a success only
  the new one is left.
\<close>

text \<open>The files outside \<open>X\<close> keep their content, and nothing new may come back for them.\<close>

definition keeps :: "path set \<Rightarrow> fs \<Rightarrow> fs \<Rightarrow> bool" where
  "keeps X s s' \<longleftrightarrow> fs_ok s' \<and>
     (\<forall>q. \<not> is_tmp q \<longrightarrow> q \<notin> X \<longrightarrow> visible s' q = visible s q \<and> holds s' q \<subseteq> holds s q \<and>
        (settled s q \<longrightarrow> settled s' q))"

lemma keeps_refl [simp]: "fs_ok s \<Longrightarrow> keeps X s s"
  by (simp add: keeps_def)

lemma keeps_trans [trans]: "keeps X s s1 \<Longrightarrow> keeps X s1 s2 \<Longrightarrow> keeps X s s2"
  unfolding keeps_def by (metis subset_trans)

lemma keeps_mono: "keeps X s s' \<Longrightarrow> X \<subseteq> Y \<Longrightarrow> keeps Y s s'"
  unfolding keeps_def by blast

lemma keeps_untouched: "fs_ok s' \<Longrightarrow> untouched X s s' \<Longrightarrow> keeps X s s'"
  by (simp add: keeps_def untouched_def)

lemma keepsD:
  assumes "keeps X s s'" and "\<not> is_tmp q" and "q \<notin> X"
  shows "visible s' q = visible s q" and "holds s' q \<subseteq> holds s q" and "settled s q \<Longrightarrow> settled s' q"
  using assms by (auto simp: keeps_def)

section \<open>Replacing a file is atomic\<close>

lemma syncDir_effect:
  assumes "fs_ok s" and "syncDir s = (r, s')"
  shows "fs_ok s' \<and> visible s' = visible s \<and> (\<forall>q. holds s' q \<subseteq> holds s q) \<and>
    (\<forall>q. settled s q \<longrightarrow> settled s' q) \<and> names s' = names s \<and> content s' = content s \<and> synced s' = synced s \<and> set (versions s') \<subseteq> set (versions s) \<and> (\<forall>x. r = Inr x \<longrightarrow> versions s' = [names s])"
  using assms(2) unfolding syncDir_def
proof (cases rule: bind_io_cases)
  case (err e)
  then show ?thesis using assms(1) quiet_calls(5) [of s] by simp
next
  case (go x s1)
  then have s1: "s1 = next_fault s" using quiet_calls(5) [of s] by simp
  obtain r2 s2 where sync: "SyncDir s1 = (r2, s2)" by fastforce
  have ok1: "fs_ok s1" using assms(1) by (simp add: s1)
  note eff = SyncDir_effect [OF ok1 sync]
  show ?thesis
  proof (cases r2)
    case (Inr u)
    then have "CloseDir s2 = (r, s')"
      using go(2) sync by (simp add: bind_io_def catch_io_def return_io_def)
    then have "s' = next_fault s2" using quiet_calls(6) [of s2] by simp
    then show ?thesis using eff Inr s1 fs_ok_next_fault [of s2] fs_okD(3) [OF ok1] by auto
  next
    case (Inl e)
    then obtain y k where "e = OSError y" "shd (faults s1) = Fault y k" using eff by auto
    moreover have "shd (faults s1) \<in> sset (faults s1)" by (rule shd_sset)
    ultimately have "y \<noteq> ''EINVAL'' \<and> y \<noteq> ''ENOTSUP''" using ok1 by (auto simp: fs_ok_def can_sync_dir_def)
    then have "r = Inl e \<and> s' = next_fault s2"
      using go(2) sync Inl \<open>e = OSError y\<close> quiet_calls(6) [of s2]
      by (cases "CloseDir s2") (auto simp: bind_io_def catch_io_def return_io_def fail_io_def
          split: sum.splits)
    then show ?thesis using eff Inl s1 fs_ok_next_fault [of s2] by auto
  qed
qed

lemma write_all_effect:
  assumes "fs_ok s" and "names s p = Some i" and "is_tmp p \<or> p \<in> X" and "write_all i xs s = (r, s')"
  shows "fs_ok s' \<and> untouched X s s' \<and> names s' = names s \<and> versions s' = versions s \<and>
    synced s' = synced s \<and>
    (\<exists>y. content s' = (content s)(i := content s i @ y) \<and> prefix y (concat xs) \<and>
       (r = Inr () \<longrightarrow> y = concat xs))"
  using assms
proof (induction xs arbitrary: s)
  case Nil
  then show ?case by (auto simp: return_io_def fun_eq_iff)
next
  case (Cons x xs)
  from Cons.prems(4) show ?case
    unfolding write_all.simps
  proof (cases rule: bind_io_cases)
    case (err e)
    then obtain s1 where "Write i x s = (Inl e, s1)" "s' = next_fault s1"
      using close_on_error_cases by blast
    with Write_effect [OF Cons.prems(1-3) this(1)] obtain y
      where "content s1 = (content s)(i := content s i @ y)" "prefix y x" by blast
    moreover have "prefix y (x @ concat xs)" using \<open>prefix y x\<close> by (simp add: prefix_prefix)
    ultimately show ?thesis
      using err(2) \<open>s' = next_fault s1\<close> Write_effect [OF Cons.prems(1-3) \<open>Write i x s = (Inl e, s1)\<close>]
      by auto
  next
    case (go u s1)
    then have "Write i x s = (Inr u, s1)" using close_on_error_cases by blast
    from Write_effect [OF Cons.prems(1-3) this]
    have w: "fs_ok s1" "untouched X s s1" "names s1 = names s" "versions s1 = versions s"
      "synced s1 = synced s" "content s1 = (content s)(i := content s i @ x)" by auto
    have "names s1 p = Some i" using w Cons.prems(2) by simp
    from Cons.IH [OF w(1) this Cons.prems(3) go(2)] obtain y
      where y: "content s' = (content s1)(i := content s1 i @ y)" "prefix y (concat xs)"
        "r = Inr () \<longrightarrow> y = concat xs"
        and s': "fs_ok s'" "untouched X s1 s'" "names s' = names s1" "versions s' = versions s1"
        "synced s' = synced s1" by blast
    have "content s' = (content s)(i := content s i @ x @ y)" using y(1) w(6) by simp
    then show ?thesis using y s' w untouched_trans [OF w(2) s'(2)] by fastforce
  qed
qed

text \<open>The outcome of replacing the file \<open>p\<close> by \<open>x\<close>.\<close>

definition replaced_by :: "path \<Rightarrow> string \<Rightarrow> fs \<Rightarrow> (goerror + 'a) \<times> fs \<Rightarrow> bool" where
  "replaced_by p x s out \<longleftrightarrow> (case out of (r, s') \<Rightarrow>
     keeps {p} s s' \<and>
     (case r of
        Inr _ \<Rightarrow> visible s' p = Some x \<and> settled s' p
      | Inl _ \<Rightarrow> visible s' p \<in> {visible s p, Some x} \<and> holds s' p \<subseteq> insert (Some x) (holds s p)))"

lemma is_tmp_suffix [simp]: "is_tmp (p @ ''.tmp'')"
  by (simp add: is_tmp_def suffix_def)

lemma replaced_by_failed:
  assumes "fs_ok s'" and "untouched {} s s'" and "\<not> is_tmp p"
  shows "replaced_by p x s (Inl e, s')"
  using assms by (auto simp: replaced_by_def untouched_def keeps_def)

lemma write_tmp_effect:
  assumes "fs_ok s" and "is_tmp t" and "write_tmp t xs s = (r, s')"
  shows "fs_ok s' \<and> untouched {} s s' \<and>
    (r = Inr () \<longrightarrow> (\<exists>i. names s' t = Some i \<and> content s' i = concat xs \<and> synced s' i = concat xs))"
  using assms(3) unfolding write_tmp_def
proof (cases rule: bind_io_cases)
  case (err e)
  then show ?thesis using OpenTrunc_tmp [OF assms(1,2) err(1)] by auto
next
  case (go i s1)
  note o = OpenTrunc_tmp [OF assms(1,2) go(1)]
  from go(2) show ?thesis
  proof (cases rule: bind_io_cases)
    case (err e)
    have "names s1 t = Some i" "fs_ok s1" using o by simp_all
    with write_all_effect [OF _ _ _ err(1), of t "{}"] assms(2)
    have "fs_ok s'" "untouched {} s1 s'" by simp_all
    then show ?thesis using o err(2) by (auto intro: untouched_trans)
  next
    case (go u s2)
    have w: "fs_ok s2" "untouched {} s s2" "names s2 t = Some i" "content s2 i = concat xs"
    proof -
      have "names s1 t = Some i" "fs_ok s1" "content s1 i = []" "untouched {} s s1" using o by simp_all
      with write_all_effect [OF _ _ _ go(1), of t "{}"] assms(2)
      show "fs_ok s2" "untouched {} s s2" "names s2 t = Some i" "content s2 i = concat xs"
        by (auto intro: untouched_trans)
    qed
    from go(2) show ?thesis
    proof (cases rule: bind_io_cases)
      case (err e)
      then obtain s3 where s3: "Sync i s2 = (Inl e, s3)" "s' = next_fault s3"
        using close_on_error_cases by blast
      then show ?thesis using err w Sync_effect [OF w(1) w(3) _ s3(1), of "{}"] assms(2)
        by (auto intro: untouched_trans)
    next
      case (go u s3)
      then have "Sync i s2 = (Inr u, s3)" using close_on_error_cases by blast
      from Sync_effect [OF w(1) w(3) _ this, of "{}"] assms(2)
      have "fs_ok s3" "untouched {} s s3" "names s3 t = Some i" "content s3 i = concat xs"
        "synced s3 i = concat xs" using w by (auto intro: untouched_trans)
      moreover have "s' = next_fault s3" using go(2) quiet_calls(4) [of i s3] by simp
      ultimately show ?thesis by auto
    qed
  qed
qed

lemma replace_file_effect:
  assumes "fs_ok s" and "\<not> is_tmp p"
  shows "replaced_by p (concat xs) s (replace_file p xs s)"
proof -
  let ?t = "p @ ''.tmp''"
  obtain r s' where run: "replace_file p xs s = (r, s')" by fastforce
  have "replaced_by p (concat xs) s (r, s')"
    using run unfolding replace_file_def
  proof (cases rule: bind_io_cases)
    case (err e)
    then show ?thesis using write_tmp_effect [OF assms(1) is_tmp_suffix err(1)]
      by (auto intro: replaced_by_failed [OF _ _ assms(2)])
  next
    case (go u s1)
    from write_tmp_effect [OF assms(1) is_tmp_suffix go(1)] obtain i
      where z: "fs_ok s1" "untouched {} s s1" "names s1 ?t = Some i" "content s1 i = concat xs"
        "synced s1 i = content s1 i" by auto
    from go(2) show ?thesis
    proof (cases rule: bind_io_cases)
      case (err e)
      from Rename_tmp [OF z(1) is_tmp_suffix assms(2) z(3,5) err(1)] show ?thesis
        using z(2) err(2) assms(2) by (auto simp: replaced_by_def untouched_def keeps_def)
    next
      case (go u s2)
      note n = Rename_tmp [OF z(1) is_tmp_suffix assms(2) z(3,5) go(1)]
      then have "fs_ok s2" by simp
      note d = syncDir_effect [OF this go(2)]
      have "keeps {p} s s1" "keeps {p} s1 s2" "keeps {p} s2 s'"
        using z(1) n d keeps_untouched [OF z(1) untouched_mono [OF z(2)], of "{p}"]
        by (simp_all add: keeps_untouched) (simp add: keeps_def)
      then have others: "keeps {p} s s'" by (blast intro: keeps_trans)
      show ?thesis
      proof (cases r)
        case (Inr v)
        then have vs: "versions s' = [names s2]" "content s' = content s2" "synced s' = synced s2"
          "names s' = names s2" using d by auto
        have i: "synced s2 i = content s2 i" "names s2 p = Some i" "content s2 i = concat xs"
          using n z by auto
        have "settled s' p"
          using vs i by (simp add: settled_def)
        moreover have "visible s' p = Some (concat xs)"
          using vs(2,4) i by (simp add: visible_names)
        ultimately show ?thesis using others Inr by (simp add: replaced_by_def)
      next
        case (Inl e)
        have "holds s' p \<subseteq> holds s2 p" "visible s' p = visible s2 p" using d by simp_all
        moreover have "holds s2 p = insert (Some (concat xs)) (holds s p)"
          using n z(2,4) assms(2) by (simp add: untouched_def)
        moreover have "visible s2 p = Some (concat xs)" using n z(4) by (simp add: visible_names)
        ultimately show ?thesis using others Inl by (simp add: replaced_by_def)
      qed
    qed
  qed
  then show ?thesis by (simp add: run)
qed

end
