(* ===== verification/Storage_Append.thy ===== *)
theory Storage_Append
  imports Storage_Durability
begin

text \<open>
  Reading the files of the store, and appending to its log: what the log file may hold after an
  append that succeeded, failed, or was cut short by a power failure.
\<close>

section \<open>Reading\<close>

text \<open>A computation that changes no file.\<close>

definition quiet :: "'a io \<Rightarrow> bool" where
  "quiet m \<longleftrightarrow> (\<forall>s. \<exists>k. snd (m s) = s\<lparr>faults := sdrop k (faults s)\<rparr>)"

lemma fs_ok_sdrop: "fs_ok s \<Longrightarrow> fs_ok (s\<lparr>faults := sdrop k (faults s)\<rparr>)"
proof (induction k arbitrary: s)
  case (Suc k)
  from Suc.IH [OF fs_ok_next_fault [OF Suc.prems]] show ?case by simp
qed simp

lemma quiet_simple [simp]: "quiet (return_io x)" "quiet (fail_io e)"
  unfolding quiet_def return_io_def fail_io_def by (auto intro!: exI [of _ 0])

lemma quiet_call [simp]: "quiet (ReadFile p)" "quiet (Stat_Size p)"
  unfolding quiet_def quiet_calls by (metis sdrop.simps)+

lemma quiet_trans:
  "s1 = s\<lparr>faults := sdrop k (faults s)\<rparr> \<Longrightarrow> s2 = s1\<lparr>faults := sdrop l (faults s1)\<rparr> \<Longrightarrow>
   s2 = s\<lparr>faults := sdrop (k + l) (faults s)\<rparr>"
  by (simp add: sdrop_add)

lemma quiet_bind:
  assumes "quiet m" and "\<And>x. quiet (f x)"
  shows "quiet (bind_io m f)"
  unfolding quiet_def
proof
  fix s
  obtain r s1 where m: "m s = (r, s1)" by fastforce
  obtain k where k: "s1 = s\<lparr>faults := sdrop k (faults s)\<rparr>"
    using assms(1) m by (metis quiet_def snd_conv)
  show "\<exists>k. snd (bind_io m f s) = s\<lparr>faults := sdrop k (faults s)\<rparr>"
  proof (cases r)
    case (Inl e)
    then show ?thesis using m k by (auto simp: bind_io_def)
  next
    case (Inr x)
    obtain l where "snd (f x s1) = s1\<lparr>faults := sdrop l (faults s1)\<rparr>"
      using assms(2) by (metis quiet_def)
    from quiet_trans [OF k this] show ?thesis using m Inr by (auto simp: bind_io_def)
  qed
qed

lemma quiet_catch:
  assumes "quiet m" and "\<And>e. quiet (h e)"
  shows "quiet (catch_io m h)"
  unfolding quiet_def
proof
  fix s
  obtain r s1 where m: "m s = (r, s1)" by fastforce
  obtain k where k: "s1 = s\<lparr>faults := sdrop k (faults s)\<rparr>"
    using assms(1) m by (metis quiet_def snd_conv)
  show "\<exists>k. snd (catch_io m h s) = s\<lparr>faults := sdrop k (faults s)\<rparr>"
  proof (cases r)
    case (Inr x)
    then show ?thesis using m k by (auto simp: catch_io_def)
  next
    case (Inl e)
    obtain l where "snd (h e s1) = s1\<lparr>faults := sdrop l (faults s1)\<rparr>"
      using assms(2) by (metis quiet_def)
    from quiet_trans [OF k this] show ?thesis using m Inl by (auto simp: catch_io_def)
  qed
qed

lemma quietD:
  assumes "quiet m" and "fs_ok s" and "m s = (r, s')"
  shows "fs_ok s'" and "names s' = names s" and "visible s' = visible s" and "holds s' = holds s"
    and "settled s' = settled s" and "keeps X s s'"
proof -
  obtain k where s': "s' = s\<lparr>faults := sdrop k (faults s)\<rparr>"
    using assms(1,3) by (metis quiet_def snd_conv)
  then show ok: "fs_ok s'" using fs_ok_sdrop [OF assms(2)] by simp
  show "names s' = names s" and v: "visible s' = visible s" and h: "holds s' = holds s"
    and t: "settled s' = settled s" by (simp_all add: s')
  show "keeps X s s'" using ok v h t by (simp add: keeps_def)
qed

text \<open>What the content of a file means: the document in it, or the log.  A missing file is the
  zero value.\<close>

definition document :: "'a setter \<Rightarrow> 'a \<Rightarrow> string option \<Rightarrow> 'a option" where
  "document st x c = (case c of None \<Rightarrow> Some x | Some text \<Rightarrow>
     (case unmarshal st text x of (y, ok) \<Rightarrow> if ok then Some y else None))"

abbreviation hard_of :: "string option \<Rightarrow> HardState option" where
  "hard_of \<equiv> document (store_struct HardState_fields) zero_HardState"

abbreviation snap_of :: "string option \<Rightarrow> Snapshot option" where
  "snap_of \<equiv> document (store_struct Snapshot_fields) zero_Snapshot"

definition wal_read :: "string option \<Rightarrow> walData option" where
  "wal_read c = (case c of None \<Rightarrow> Some zero_walData | Some text \<Rightarrow>
     (case read_loop 0 text zero_walData of Inl e \<Rightarrow> None | Inr (w, off) \<Rightarrow> Some w))"

lemma ReadFile_cases:
  assumes "ReadFile p s = (r, s')"
  obtains (found) x where "r = Inr x" "visible s p = Some x" "s' = next_fault s"
    | (missing) "r = Inl ErrNotExist" "visible s p = None" "s' = next_fault s"
    | (failed) e where "r = Inl (OSError e)" "s' = next_fault s"
  using assms unfolding ReadFile_def
  by (cases rule: call_cases) (auto simp: os_error_def fail_io_def visible_def split: option.splits)

lemma quiet_read_optional [simp]: "quiet (read_optional p st x)"
  unfolding read_optional_def readJSONFile_def
  by (intro quiet_catch quiet_bind) (auto split: prod.splits)

lemma read_optional_value:
  assumes "read_optional p st x s = (Inr y, s')"
  shows "document st x (visible s p) = Some y"
proof -
  obtain r s1 where read: "ReadFile p s = (r, s1)" by fastforce
  then show ?thesis
  proof (cases rule: ReadFile_cases)
    case (found d)
    then show ?thesis using assms read
      by (cases "unmarshal st d x")
        (auto simp: read_optional_def readJSONFile_def bind_io_def catch_io_def return_io_def
          fail_io_def document_def split: if_splits)
  next
    case missing
    then show ?thesis using assms read
      by (simp add: read_optional_def readJSONFile_def bind_io_def catch_io_def return_io_def
          document_def)
  next
    case (failed e)
    then show ?thesis using assms read
      by (simp add: read_optional_def readJSONFile_def bind_io_def catch_io_def fail_io_def)
  qed
qed

lemma quiet_snapshotBaseLocked [simp]: "quiet (snapshotBaseLocked f)"
  unfolding snapshotBaseLocked_def by (intro quiet_bind) auto

lemma quiet_wal_created [simp]: "quiet (wal_created f)"
  unfolding wal_created_def by (intro quiet_catch quiet_bind) auto

lemma wal_created_value:
  assumes "wal_created f s = (Inr b, s')"
  shows "b \<longleftrightarrow> visible s (sf_wal f) \<in> {None, Some []}"
proof -
  obtain r s1 where stat: "Stat_Size (sf_wal f) s = (r, s1)" by fastforce
  then show ?thesis
    unfolding Stat_Size_def
  proof (cases rule: call_cases)
    case ok
    then show ?thesis using assms stat
      by (auto simp: wal_created_def bind_io_def catch_io_def return_io_def visible_def
          split: option.splits)
  next
    case (fault e k)
    then show ?thesis using assms stat
      by (auto simp: wal_created_def bind_io_def catch_io_def fail_io_def os_error_def)
  qed
qed

lemma snapshotBaseLocked_value:
  assumes "snapshotBaseLocked f s = (Inr b, s')"
  obtains snap where "snap_of (visible s (sf_snapshot f)) = Some snap"
    "b = (LastIncludedIndex snap, LastIncludedTerm snap)"
  using assms unfolding snapshotBaseLocked_def
  by (cases rule: bind_io_cases) (auto simp: return_io_def dest!: read_optional_value)

section \<open>Appending\<close>

lemma keeps_syncDir: "fs_ok s \<Longrightarrow> syncDir s = (r, s') \<Longrightarrow> keeps X s s'"
  using syncDir_effect [of s r s'] by (simp add: keeps_def)

text \<open>The file after an append that succeeded or failed: \<open>y\<close> was appended to the file \<open>i\<close>.\<close>

definition appended_to :: "path \<Rightarrow> string \<Rightarrow> bool \<Rightarrow> fs \<Rightarrow> goerror + unit \<Rightarrow> fs \<Rightarrow> bool" where
  "appended_to p x created s r s' \<longleftrightarrow>
     (\<exists>i y. names s' p = Some i \<and> prefix y x \<and>
        content s' i = (case visible s p of None \<Rightarrow> [] | Some c \<Rightarrow> c) @ y \<and>
        (synced s' i = content s' i \<or>
         synced s' i = (case names s p of None \<Rightarrow> [] | Some j \<Rightarrow> synced s j)) \<and>
        (case names s p of None \<Rightarrow> True | Some j \<Rightarrow> j = i) \<and>
        set (versions s') \<subseteq> insert (names s') (set (versions s)) \<and>
        (r = Inr () \<longrightarrow> y = x \<and> synced s' i = content s' i \<and>
          (created \<longrightarrow> versions s' = [names s'])))"

lemma append_file_opened:
  assumes "fs_ok s" and "\<not> is_tmp p" and "OpenAppend p s = (Inr i, s1)"
  shows "keeps {p} s s1 \<and> appended_to p x created s (Inl e) s1 \<and> names s1 p = Some i"
proof -
  note o = OpenAppend_effect [OF assms(1,3)]
  then have k: "keeps {p} s s1" by (simp add: keeps_untouched)
  show ?thesis
  proof (cases "names s p")
    case None
    then show ?thesis using o k by (auto simp: appended_to_def visible_def)
  next
    case (Some j)
    then have s1: "s1 = next_fault s" and "names s1 p = Some i" using o by auto
    then have "i = j" using Some by simp
    then show ?thesis using k s1 Some by (auto simp: appended_to_def visible_def)
  qed
qed

lemma appended_to_error: "appended_to p x created s r s' \<Longrightarrow> appended_to p x created s (Inl e) s'"
  by (auto simp: appended_to_def)

lemma appended_to_faults [simp]: "appended_to p x created s r (s'\<lparr>faults := f\<rparr>) = appended_to p x created s r s'"
  by (simp add: appended_to_def)

lemma append_file_written:
  assumes "fs_ok s" and "\<not> is_tmp p" and "OpenAppend p s = (Inr i, s1)" and "write_all i xs s1 = (r, s2)"
  shows "keeps {p} s s2 \<and> appended_to p (concat xs) created s (Inl e) s2 \<and> names s2 p = Some i \<and>
    (r = Inr () \<longrightarrow> content s2 i = (case visible s p of None \<Rightarrow> [] | Some c \<Rightarrow> c) @ concat xs)"
proof -
  have o: "keeps {p} s s1" "names s1 p = Some i" "appended_to p [] created s (Inl e) s1"
    using append_file_opened [OF assms(1-3)] by auto
  then have "fs_ok s1" by (simp add: keeps_def)
  from write_all_effect [OF this o(2) _ assms(4), of "{p}"] obtain y where
    w: "fs_ok s2" "untouched {p} s1 s2" "names s2 = names s1" "versions s2 = versions s1"
      "synced s2 = synced s1" "content s2 = (content s1)(i := content s1 i @ y)"
      "prefix y (concat xs)" "r = Inr () \<longrightarrow> y = concat xs" by auto
  have "keeps {p} s s2" using o(1) keeps_untouched [OF w(1,2)] by (rule keeps_trans)
  moreover have c: "content s1 i = (case visible s p of None \<Rightarrow> [] | Some c \<Rightarrow> c)"
    using o(2,3) by (auto simp: appended_to_def)
  moreover have "appended_to p (concat xs) created s (Inl e) s2"
  proof -
    have "synced s1 i = content s1 i \<and> names s p = None \<or>
        synced s1 i = (case names s p of None \<Rightarrow> [] | Some j \<Rightarrow> synced s j)"
      "case names s p of None \<Rightarrow> True | Some j \<Rightarrow> j = i"
      "set (versions s1) \<subseteq> insert (names s1) (set (versions s))"
      using OpenAppend_effect [OF assms(1,3)] by (cases "names s p"; auto)+
    then show ?thesis using w o(2) c unfolding appended_to_def
      by (intro exI [of _ i] exI [of _ y]) (auto simp: visible_def split: option.splits)
  qed
  ultimately show ?thesis using w o(2) by auto
qed

lemma append_file_effect:
  assumes "fs_ok s" and "\<not> is_tmp p" and "append_file p xs created s = (r, s')"
  shows "keeps {p} s s' \<and> (visible s' p = visible s p \<and> holds s' p = holds s p \<and> (\<exists>e. r = Inl e) \<or>
    appended_to p (concat xs) created s r s')"
  using assms(3) unfolding append_file_def
proof (cases rule: bind_io_cases)
  case (err e)
  then show ?thesis using OpenAppend_effect [OF assms(1) err(1)] by (auto simp: keeps_untouched)
next
  case (go i s1)
  note opened = go(1)
  from go(2) show ?thesis
  proof (cases rule: bind_io_cases)
    case (err e)
    then show ?thesis using append_file_written [OF assms(1,2) opened err(1)] by auto
  next
    case (go u s2)
    note w = append_file_written [OF assms(1,2) opened go(1), of created "OSError []"]
    then have k: "keeps {p} s s2" and ok: "fs_ok s2" and n: "names s2 p = Some i"
      by (auto simp: keeps_def)
    from go(2) show ?thesis
    proof (cases rule: bind_io_cases)
      case (err e)
      then obtain s3 where s3: "Sync i s2 = (Inl e, s3)" "s' = next_fault s3"
        using close_on_error_cases by blast
      from Sync_effect [OF ok n _ s3(1), of "{p}"]
      have "keeps {p} s2 s3" "names s3 = names s2" "versions s3 = versions s2" "content s3 = content s2"
        "synced s3 = synced s2" by (simp_all add: keeps_untouched)
      then show ?thesis using w k err(2) s3(2)
        by (auto simp: appended_to_def keeps_def)
    next
      case (go v s3)
      then have "Sync i s2 = (Inr v, s3)" using close_on_error_cases by blast
      from Sync_effect [OF ok n _ this, of "{p}"]
      have y: "keeps {p} s2 s3" "names s3 = names s2" "versions s3 = versions s2" "content s3 = content s2"
        "synced s3 = (synced s2)(i := content s2 i)" by (simp_all add: keeps_untouched)
      have k3: "keeps {p} s s3" using k y(1) by (rule keeps_trans)
      have a3: "appended_to p (concat xs) False s (Inr ()) s3"
        using w n y by (auto simp: appended_to_def)
      from go(2) show ?thesis
      proof (cases rule: bind_io_cases)
        case (err e)
        then have "s' = next_fault s3" using quiet_calls(4) [of i s3] by simp
        then show ?thesis using k3 a3 err(2) by (auto simp: keeps_def appended_to_def)
      next
        case (go z s4)
        then have s4: "s4 = next_fault s3" using quiet_calls(4) [of i s3] by simp
        then have k4: "keeps {p} s s4" "fs_ok s4" using k3 by (auto simp: keeps_def)
        have a4: "appended_to p (concat xs) False s (Inr ()) s4" using a3 by (simp add: s4)
        show ?thesis
        proof (cases created)
          case False
          then show ?thesis using go(2) a4 k4(1) by (simp add: return_io_def)
        next
          case True
          then have d: "syncDir s4 = (r, s')" using go(2) by simp
          have "keeps {p} s s'" using k4(1) keeps_syncDir [OF k4(2) d] by (rule keeps_trans)
          moreover have "names s' = names s4" "content s' = content s4" "synced s' = synced s4"
            "r = Inr () \<longrightarrow> versions s' = [names s4]"
            using syncDir_effect [OF k4(2) d] by auto
          moreover have "set (versions s') \<subseteq> insert (names s4) (set (versions s))"
            using syncDir_effect [OF k4(2) d] a4 by (force simp: appended_to_def)
          ultimately show ?thesis using a4 by (auto simp: appended_to_def)
        qed
      qed
    qed
  qed
qed

abbreviation old_text :: "string option \<Rightarrow> string" where
  "old_text c \<equiv> (case c of None \<Rightarrow> [] | Some x \<Rightarrow> x)"

lemma append_file_ok:
  assumes "fs_ok s" and "\<not> is_tmp p" and "settled s p" and "visible s p = None \<longrightarrow> created"
    and "append_file p xs created s = (Inr (), s')"
  shows "settled s' p \<and> visible s' p = Some (old_text (visible s p) @ concat xs)"
proof -
  from append_file_effect [OF assms(1,2,5)] obtain i where
    i: "names s' p = Some i" "content s' i = old_text (visible s p) @ concat xs"
      "synced s' i = content s' i" "case names s p of None \<Rightarrow> True | Some j \<Rightarrow> j = i"
      "set (versions s') \<subseteq> insert (names s') (set (versions s))" "created \<longrightarrow> versions s' = [names s']"
    by (auto simp: appended_to_def)
  have "settled s' p"
  proof (cases "names s p")
    case None
    then have "versions s' = [names s']" using assms(4) i(6) by (simp add: visible_def)
    then show ?thesis using i(1,3) by (simp add: settled_def)
  next
    case (Some j)
    then have "j = i" using i(4) by simp
    then have "d p = names s' p" if "d \<in> set (versions s)" for d
      using assms(3) i(1) Some that by (simp add: settled_def)
    then show ?thesis using i(1,3,5) by (auto simp: settled_def)
  qed
  then show ?thesis using i by (simp add: visible_names)
qed

lemma survives_append: "survives x (x @ y) z \<longleftrightarrow> (\<exists>w. z = x @ w \<and> prefix w y)"
  by (auto simp: survives_def prefix_def)

lemma append_file_failed:
  assumes "fs_ok s" and "\<not> is_tmp p" and "settled s p"
    and "append_file p xs created s = (Inl e, s')" and "c \<in> holds s' p"
  shows "c = visible s p \<or> (\<exists>y. c = Some (old_text (visible s p) @ y) \<and> prefix y (concat xs))"
proof -
  consider "holds s' p = holds s p" | "appended_to p (concat xs) created s (Inl e) s'"
    using append_file_effect [OF assms(1,2,4)] by blast
  then show ?thesis
  proof cases
    case 1
    then show ?thesis using assms(5) settled_holds [OF assms(1,3)] by simp
  next
    case 2
    then obtain i y where
      i: "names s' p = Some i" "prefix y (concat xs)" "content s' i = old_text (visible s p) @ y"
        "synced s' i = content s' i \<or>
          synced s' i = (case names s p of None \<Rightarrow> [] | Some j \<Rightarrow> synced s j)"
        "case names s p of None \<Rightarrow> True | Some j \<Rightarrow> j = i"
        "set (versions s') \<subseteq> insert (names s') (set (versions s))"
      by (auto simp: appended_to_def)
    have old: "(case names s p of None \<Rightarrow> [] | Some j \<Rightarrow> synced s j) = old_text (visible s p)"
      using assms(3) by (auto simp: settled_def visible_def split: option.splits)
    obtain d where d: "d \<in> set (versions s')" "may_hold s' (d p) c" using assms(5) by (auto simp: holds_def)
    have "d p = Some i \<or> d p = None \<and> visible s p = None"
    proof (cases "d = names s'")
      case False
      then have "d p = names s p" using d(1) i(6) assms(3) by (auto simp: settled_def)
      then show ?thesis using i(5) by (cases "names s p") (auto simp: visible_def)
    qed (simp add: i(1))
    then show ?thesis
    proof
      assume "d p = Some i"
      then obtain x where x: "c = Some x" "survives (synced s' i) (content s' i) x"
        using d(2) by (auto split: option.splits)
      from i(4) show ?thesis
      proof
        assume "synced s' i = content s' i"
        then show ?thesis using x i(2,3) by auto
      next
        assume "synced s' i = (case names s p of None \<Rightarrow> [] | Some j \<Rightarrow> synced s j)"
        then have "survives (old_text (visible s p)) (old_text (visible s p) @ y) x"
          using x(2) i(3) old by simp
        then obtain w where "x = old_text (visible s p) @ w" "prefix w y"
          unfolding survives_append by blast
        then show ?thesis using x(1) prefix_order.trans [OF _ i(2)] by blast
      qed
    qed (use d(2) in simp)
  qed
qed

section \<open>The log file\<close>

definition files_ok :: "Files \<Rightarrow> bool" where
  "files_ok f \<longleftrightarrow> distinct [sf_hardState f, sf_wal f, sf_snapshot f] \<and>
     list_all (\<lambda>p. \<not> is_tmp p) [sf_hardState f, sf_wal f, sf_snapshot f]"

text \<open>The disk holds this log, and a power failure does not change it.  A log that was never
  written to is based at the snapshot.\<close>

definition log_file :: "Files \<Rightarrow> fs \<Rightarrow> u64 \<Rightarrow> u64 \<Rightarrow> LogEntry list \<Rightarrow> bool" where
  "log_file f s i t log \<longleftrightarrow>
     files_ok f \<and> fs_ok s \<and> settled s (sf_wal f) \<and> valid_entries log \<and> contiguous i log \<and>
     (visible s (sf_wal f) = Some (wal_text i t log) \<or>
      log = [] \<and> visible s (sf_wal f) \<in> {None, Some []} \<and>
      map_option (\<lambda>snap. (LastIncludedIndex snap, LastIncludedTerm snap))
        (snap_of (visible s (sf_snapshot f))) = Some (i, t))"

lemma wal_read_torn:
  assumes "valid_entries (es @ fs)" and "contiguous i (es @ fs)" and "prefix y (concat (map encodeWALEntry fs))"
  shows "\<exists>k \<le> length fs. wal_read (Some (wal_text i t es @ y)) = Some (wal_of i t (es @ take k fs))"
proof -
  have "prefix (wal_text i t es) (wal_text i t es @ y)"
    "prefix (wal_text i t es @ y) (wal_text i t (es @ fs))"
    using assms(3) by (simp_all add: wal_text_append)
  then obtain k off where
    "k \<le> length fs" "read_loop 0 (wal_text i t es @ y) zero_walData = Inr (wal_of i t (es @ take k fs), off)"
    by (rule wal_text_torn [OF assms(1,2)])
  then show ?thesis by (auto simp: wal_read_def)
qed

lemma wal_read_text:
  assumes "valid_entries es" and "contiguous i es"
  shows "wal_read (Some (wal_text i t es)) = Some (wal_of i t es)"
  using wal_read_torn [of es "[]" i "[]" t] assms by simp

text \<open>A new log, torn before or after its base record was complete.\<close>

lemma wal_read_new:
  assumes "valid_entries es" and "contiguous i es" and "prefix x (wal_text i t es)"
  shows "wal_read (Some x) = Some zero_walData \<and> newline \<notin> set x \<or>
    (\<exists>y. x = wal_text i t [] @ y \<and> prefix y (concat (map encodeWALEntry es)))"
proof -
  have "prefix x (base_text i t @ [newline] @ concat (map encodeWALEntry es))"
    using assms(3) by (simp add: wal_text_def encode_text(1) newline_def)
  from prefix_line [OF this newline_text(1)] show ?thesis
  proof
    assume "newline \<notin> set x"
    then show ?thesis by (cases "x = []") (simp_all add: wal_read_def read_loop_Nil read_loop_tail)
  next
    assume "\<exists>w. x = base_text i t @ newline # w \<and> prefix w (concat (map encodeWALEntry es))"
    then show ?thesis by (auto simp: wal_text_def encode_text(1) newline_def)
  qed
qed

lemma AppendEntries_keeps:
  assumes "files_ok f" and "fs_ok s" and "AppendEntries f es s = (r, s')"
  shows "keeps {sf_wal f} s s'"
proof (cases "es = []")
  case True
  then show ?thesis using assms(2,3) by (simp add: AppendEntries_def return_io_def)
next
  case False
  have nt: "\<not> is_tmp (sf_wal f)" using assms(1) by (simp add: files_ok_def)
  have "bind_io (wal_created f) (\<lambda>created.
      bind_io (if created then snapshotBaseLocked f else return_io (0, 0)) (\<lambda>(baseIndex, baseTerm).
        append_file (sf_wal f) ((if created then [encodeWALBase baseIndex baseTerm] else [])
          @ map encodeWALEntry es) created)) s = (r, s')"
    using assms(3) False by (simp add: AppendEntries_def)
  then show ?thesis
  proof (cases rule: bind_io_cases)
    case (err e)
    then show ?thesis using quietD(6) [OF quiet_wal_created assms(2)] by blast
  next
    case (go created s1)
    have k1: "keeps {sf_wal f} s s1" and ok1: "fs_ok s1"
      using quietD [OF quiet_wal_created assms(2) go(1)] by auto
    have q: "quiet (if created then snapshotBaseLocked f else return_io (0, 0))" by simp
    from go(2) show ?thesis
    proof (cases rule: bind_io_cases)
      case (err e)
      then show ?thesis using quietD(6) [OF q ok1] k1 keeps_trans by blast
    next
      case (go b s2)
      have k2: "keeps {sf_wal f} s1 s2" and ok2: "fs_ok s2" using quietD [OF q ok1 go(1)] by auto
      have "keeps {sf_wal f} s2 s'"
        using append_file_effect [OF ok2 nt] go(2) by (cases b) auto
      then show ?thesis using k1 k2 keeps_trans by blast
    qed
  qed
qed

text \<open>The three ways an append goes: it fails before the file is opened, it continues a written
  log, or it starts a new one with a base record.\<close>

lemma AppendEntries_cases:
  assumes "files_ok f" and "fs_ok s" and "AppendEntries f es s = (r, s')" and "es \<noteq> []"
  obtains (early) e where "r = Inl e" "holds s' (sf_wal f) = holds s (sf_wal f)"
    | (old) s1 where "visible s (sf_wal f) \<notin> {None, Some []}" "keeps {} s s1"
        "append_file (sf_wal f) (map encodeWALEntry es) False s1 = (r, s')"
    | (new) s1 snap where "visible s (sf_wal f) \<in> {None, Some []}" "keeps {} s s1"
        "snap_of (visible s (sf_snapshot f)) = Some snap"
        "append_file (sf_wal f) (encodeWALBase (LastIncludedIndex snap) (LastIncludedTerm snap)
           # map encodeWALEntry es) True s1 = (r, s')"
proof -
  have "bind_io (wal_created f) (\<lambda>created.
      bind_io (if created then snapshotBaseLocked f else return_io (0, 0)) (\<lambda>(baseIndex, baseTerm).
        append_file (sf_wal f) ((if created then [encodeWALBase baseIndex baseTerm] else [])
          @ map encodeWALEntry es) created)) s = (r, s')"
    using assms(3,4) by (simp add: AppendEntries_def)
  then show thesis
  proof (cases rule: bind_io_cases)
    case (err e)
    then show thesis using early quietD(4) [OF quiet_wal_created assms(2)] by metis
  next
    case (go created s1)
    note q = quietD [OF quiet_wal_created assms(2) go(1)]
    have cr: "created \<longleftrightarrow> visible s (sf_wal f) \<in> {None, Some []}" by (rule wal_created_value [OF go(1)])
    show thesis
    proof (cases created)
      case False
      then have "append_file (sf_wal f) (map encodeWALEntry es) False s1 = (r, s')"
        using go(2) by (simp add: bind_io_def return_io_def)
      then show thesis using old cr False q(6) by blast
    next
      case True
      with go(2) have "bind_io (snapshotBaseLocked f) (\<lambda>(baseIndex, baseTerm).
        append_file (sf_wal f) (encodeWALBase baseIndex baseTerm # map encodeWALEntry es) True) s1 = (r, s')"
        by simp
      then show thesis
      proof (cases rule: bind_io_cases)
        case (err e)
        then show thesis using early quietD(4) [OF quiet_snapshotBaseLocked q(1)] q(4) by metis
      next
        case (go b s2)
        from snapshotBaseLocked_value [OF go(1)] obtain snap where
          snap: "snap_of (visible s (sf_snapshot f)) = Some snap"
          "b = (LastIncludedIndex snap, LastIncludedTerm snap)" using q(3) by metis
        have "keeps {} s s2"
          using q(6) quietD(6) [OF quiet_snapshotBaseLocked q(1) go(1)] by (rule keeps_trans)
        then show thesis using new True cr snap go(2) by simp
      qed
    qed
  qed
qed

lemma wal_text_not_Nil [simp]: "wal_text i t es \<noteq> []"
  by (simp add: wal_text_def encode_text(1))

lemma log_fileD:
  assumes "log_file f s i t log"
  shows "files_ok f" and "fs_ok s" and "settled s (sf_wal f)" and "\<not> is_tmp (sf_wal f)"
    and "\<not> is_tmp (sf_snapshot f)" and "sf_snapshot f \<noteq> sf_wal f"
    and "holds s (sf_wal f) = {visible s (sf_wal f)}"
  using assms settled_holds by (auto simp: log_file_def files_ok_def)

lemma log_file_read:
  assumes "log_file f s i t log"
  shows "\<exists>w. wal_read (visible s (sf_wal f)) = Some w \<and> wd_entries w = log"
  using assms wal_read_text [of log i t]
  by (auto simp: log_file_def wal_of_def wal_read_def zero_walData_def read_loop_Nil)

lemma AppendEntries_ok:
  assumes "log_file f s i t log" and "valid_entries es" and "contiguous i (log @ es)"
    and "AppendEntries f es s = (Inr (), s')"
  shows "log_file f s' i t (log @ es)"
proof (cases "es = []")
  case True
  then show ?thesis using assms(1,4) by (simp add: AppendEntries_def return_io_def)
next
  case False
  note l = log_fileD [OF assms(1)]
  have valid: "valid_entries (log @ es)" using assms(1,2) by (simp add: log_file_def valid_entries_def)
  have "fs_ok s'" using AppendEntries_keeps [OF l(1,2) assms(4)] by (simp add: keeps_def)
  moreover have "settled s' (sf_wal f) \<and> visible s' (sf_wal f) = Some (wal_text i t (log @ es))"
    using l(1,2) assms(4) False
  proof (cases rule: AppendEntries_cases)
    case (old s1)
    have s1: "fs_ok s1" "settled s1 (sf_wal f)" "visible s1 (sf_wal f) = visible s (sf_wal f)"
      using old(2) l(3,4) by (auto simp: keeps_def)
    moreover have "visible s (sf_wal f) = Some (wal_text i t log)"
      using old(1) assms(1) by (auto simp: log_file_def)
    ultimately show ?thesis using append_file_ok [OF s1(1) l(4) s1(2) _ old(3)]
      by (simp add: wal_text_append)
  next
    case (new s1 snap)
    have s1: "fs_ok s1" "settled s1 (sf_wal f)" "visible s1 (sf_wal f) = visible s (sf_wal f)"
      using new(2) l(3,4) by (auto simp: keeps_def)
    moreover have "log = []" "i = LastIncludedIndex snap" "t = LastIncludedTerm snap"
      using new(1,3) assms(1) by (auto simp: log_file_def)
    ultimately show ?thesis using append_file_ok [OF s1(1) l(4) s1(2) _ new(4)] new(1)
      by (auto simp: wal_text_def)
  qed simp
  ultimately show ?thesis using l(1) valid assms(3) by (simp add: log_file_def)
qed

text \<open>What the log file may hold after an append, whether it succeeded or not.\<close>

lemma AppendEntries_content:
  assumes "log_file f s i t log" and "valid_entries es" and "contiguous i (log @ es)"
    and "AppendEntries f es s = (r, s')" and "c \<in> holds s' (sf_wal f)"
  obtains (same) "c = visible s (sf_wal f)"
    | (grown) y where "c = Some (wal_text i t log @ y)" "prefix y (concat (map encodeWALEntry es))"
    | (new) x where "log = []" "c = Some x" "prefix x (wal_text i t es)"
proof -
  note l = log_fileD [OF assms(1)]
  show thesis
  proof (cases "es = []")
    case True
    then show thesis using assms(4,5) l(7) same by (simp add: AppendEntries_def return_io_def)
  next
    case False
    show thesis
    proof (cases r)
      case (Inr u)
      then have "log_file f s' i t (log @ es)" using AppendEntries_ok [OF assms(1-3)] assms(4) by simp
      then have "c = Some (wal_text i t (log @ es))"
        using assms(5) log_fileD(7) False by (auto simp: log_file_def)
      then show thesis using grown [of "concat (map encodeWALEntry es)"] by (simp add: wal_text_append)
    next
      case (Inl e)
      from l(1,2) assms(4) False show thesis
      proof (cases rule: AppendEntries_cases)
        case (early e')
        then show thesis using same assms(5) l(7) by simp
      next
        case (old s1)
        have s1: "fs_ok s1" "settled s1 (sf_wal f)" "visible s1 (sf_wal f) = visible s (sf_wal f)"
          using old(2) l(3,4) by (auto simp: keeps_def)
        have "visible s (sf_wal f) = Some (wal_text i t log)"
          using old(1) assms(1) by (auto simp: log_file_def)
        then show thesis
          using append_file_failed [OF s1(1) l(4) s1(2) old(3) [unfolded Inl] assms(5)] s1(3) same grown
          by auto
      next
        case (new s1 snap)
        have s1: "fs_ok s1" "settled s1 (sf_wal f)" "visible s1 (sf_wal f) = visible s (sf_wal f)"
          using new(2) l(3,4) by (auto simp: keeps_def)
        have "log = []" "i = LastIncludedIndex snap" "t = LastIncludedTerm snap"
          using new(1,3) assms(1) by (auto simp: log_file_def)
        then show thesis
          using append_file_failed [OF s1(1) l(4) s1(2) new(4) [unfolded Inl] assms(5)] s1(3) new(1)
            same that(3) by (auto simp: wal_text_def)
      qed
    qed
  qed
qed

lemma AppendEntries_read:
  assumes "log_file f s i t log" and "valid_entries es" and "contiguous i (log @ es)"
    and "AppendEntries f es s = (r, s')" and "c \<in> holds s' (sf_wal f)"
  shows "\<exists>k \<le> length es. \<exists>w. wal_read c = Some w \<and> wd_entries w = log @ take k es"
  using assms
proof (cases rule: AppendEntries_content)
  case same
  then show ?thesis using log_file_read [OF assms(1)] by (intro exI [of _ 0]) simp
next
  case (grown y)
  have "valid_entries (log @ es)" using assms(1,2) by (simp add: log_file_def valid_entries_def)
  from wal_read_torn [OF this assms(3) grown(2), of t] show ?thesis
    using grown(1) by (auto simp: wal_of_def)
next
  case (new x)
  then consider "wal_read c = Some zero_walData"
    | y where "c = Some (wal_text i t [] @ y)" "prefix y (concat (map encodeWALEntry es))"
    using wal_read_new [OF assms(2) _ new(3)] assms(3) by auto
  then show ?thesis
  proof cases
    case 1
    then show ?thesis using new(1) by (intro exI [of _ 0]) (simp add: zero_walData_def)
  next
    case (2 y)
    then show ?thesis using wal_read_torn [of "[]" es i y t] assms(2,3) new(1)
      by (auto simp: wal_of_def)
  qed
qed

end
