(* ===== verification/Storage_Load.thy ===== *)
theory Storage_Load
  imports Storage_Append
begin

text \<open>
  Opening the store: \<open>Load\<close> cuts a torn line off the log, reconciles the log with the snapshot, and
  leaves a log file that can be appended to.  On a disk without faults every method succeeds.
\<close>

section \<open>Cutting a torn line off\<close>

lemma Truncate_effect:
  assumes "fs_ok s" and "names s p = Some i" and "Truncate i n s = (r, s')"
  shows "fs_ok s' \<and> untouched {p} s s' \<and> names s' = names s \<and> versions s' = versions s \<and> synced s' = synced s \<and>
    content s' i = (case r of Inr _ \<Rightarrow> take n (content s i) | Inl _ \<Rightarrow> content s i)"
  using assms(3) unfolding Truncate_def
proof (cases rule: call_cases)
  case ok
  have f: "fs_ok (next_fault s)" using assms(1) by simp
  have "only_at {p} (next_fault s) i" using f assms(2) by (intro only_at_name) auto
  from only_at_update(1) [OF this fs_okD(1) [OF f], of "take n (content s i)"]
  have "untouched {p} s ((next_fault s)\<lparr>content := (content (next_fault s))(i := take n (content s i))\<rparr>)"
    by (simp add: untouched_def)
  then show ?thesis using ok assms(1) by auto
next
  case (fault e k)
  then show ?thesis using assms(1) by (auto simp: os_error_def fail_io_def)
qed

lemma truncateFile_effect:
  assumes "fs_ok s" and "\<not> is_tmp p" and "visible s p = Some x" and "truncateFile p n s = (r, s')"
  shows "keeps {p} s s' \<and> (r = Inr () \<longrightarrow> settled s' p \<and> visible s' p = Some (take n x))"
  using assms(4) unfolding truncateFile_def
proof (cases rule: bind_io_cases)
  case (err e)
  then show ?thesis using assms(1) quiet_calls(3) [of p s] by (auto simp: keeps_def)
next
  case (go i s1)
  then have s1: "s1 = next_fault s" using quiet_calls(3) [of p s] by simp
  have i: "names s p = Some i"
    using go(1) unfolding OpenWrite_def
    by (cases rule: call_cases) (auto simp: os_error_def fail_io_def split: option.splits)
  then have x: "content s i = x" using assms(3) by (simp add: visible_def)
  have k1: "keeps {p} s s1" "fs_ok s1" "names s1 p = Some i" "content s1 i = x"
    using assms(1) i x by (simp_all add: s1 keeps_def)
  from go(2) show ?thesis
  proof (cases rule: bind_io_cases)
    case (err e)
    then obtain s2 where s2: "Truncate i n s1 = (Inl e, s2)" "s' = next_fault s2"
      using close_on_error_cases by blast
    from Truncate_effect [OF k1(2,3) s2(1)] have "keeps {p} s1 s2" by (simp add: keeps_untouched)
    from keeps_trans [OF k1(1) this] show ?thesis using s2(2) err(2) by (auto simp: keeps_def)
  next
    case (go u s2)
    then have "Truncate i n s1 = (Inr u, s2)" using close_on_error_cases by blast
    from Truncate_effect [OF k1(2,3) this]
    have k2: "keeps {p} s1 s2" "fs_ok s2" "names s2 p = Some i" "content s2 i = take n x"
      using k1(3,4) by (simp_all add: keeps_untouched)
    from go(2) show ?thesis
    proof (cases rule: bind_io_cases)
      case (err e)
      then obtain s3 where s3: "Sync i s2 = (Inl e, s3)" "s' = next_fault s3"
        using close_on_error_cases by blast
      from Sync_effect [OF k2(2,3) _ s3(1), of "{p}"] have "keeps {p} s2 s3"
        by (simp add: keeps_untouched)
      from keeps_trans [OF keeps_trans [OF k1(1) k2(1)] this] show ?thesis
        using s3(2) err(2) by (auto simp: keeps_def)
    next
      case (go v s3)
      then have "Sync i s2 = (Inr v, s3)" using close_on_error_cases by blast
      from Sync_effect [OF k2(2,3) _ this, of "{p}"]
      have k3: "keeps {p} s2 s3" "fs_ok s3" "names s3 p = Some i" "content s3 i = take n x"
        "synced s3 i = take n x" using k2(3,4) by (simp_all add: keeps_untouched)
      have k: "keeps {p} s s3" using keeps_trans [OF keeps_trans [OF k1(1) k2(1)] k3(1)] .
      from go(2) show ?thesis
      proof (cases rule: bind_io_cases)
        case (err e)
        then have "s' = next_fault s3" using quiet_calls(4) [of i s3] by simp
        then show ?thesis using k err(2) by (auto simp: keeps_def)
      next
        case (go w s4)
        then have s4: "s4 = next_fault s3" using quiet_calls(4) [of i s3] by simp
        then have "fs_ok s4" "keeps {p} s s4" using k by (auto simp: keeps_def)
        then have "keeps {p} s s'" using keeps_syncDir [OF _ go(2)] keeps_trans by blast
        moreover have "r = Inr () \<longrightarrow> settled s' p \<and> visible s' p = Some (take n x)"
          using syncDir_effect [OF \<open>fs_ok s4\<close> go(2)] k3 s4
          by (auto simp: settled_def visible_names)
        ultimately show ?thesis by blast
      qed
    qed
  qed
qed

text \<open>The log file after it was read: cut back to whole lines.\<close>

definition wal_cut :: "string option \<Rightarrow> string option" where
  "wal_cut c = (case c of None \<Rightarrow> None | Some x \<Rightarrow>
     (case read_loop 0 x zero_walData of Inr (w, Some n) \<Rightarrow> Some (take n x) | _ \<Rightarrow> Some x))"

lemma readWAL_effect:
  assumes "fs_ok s" and "\<not> is_tmp p" and "readWAL p s = (r, s')"
  shows "keeps {p} s s'"
    and "r = Inr w \<Longrightarrow> wal_read (visible s p) = Some w \<and> visible s' p = wal_cut (visible s p) \<and>
      (settled s p \<longrightarrow> settled s' p)"
proof -
  obtain r1 s1 where read: "ReadFile p s = (r1, s1)" by fastforce
  have "keeps {p} s s' \<and> (\<forall>w. r = Inr w \<longrightarrow> wal_read (visible s p) = Some w \<and>
      visible s' p = wal_cut (visible s p) \<and> (settled s p \<longrightarrow> settled s' p))"
    using read
  proof (cases rule: ReadFile_cases)
    case missing
    then show ?thesis using assms read
      by (auto simp: readWAL_def bind_io_def catch_io_def return_io_def wal_read_def wal_cut_def keeps_def)
  next
    case (failed e)
    then show ?thesis using assms read
      by (auto simp: readWAL_def bind_io_def catch_io_def fail_io_def keeps_def)
  next
    case (found x)
    have ok1: "fs_ok s1" "keeps {p} s s1" "visible s1 p = Some x"
      using found assms(1) by (auto simp: keeps_def)
    show ?thesis
    proof (cases "read_loop 0 x zero_walData")
      case (Inl e)
      then show ?thesis using assms(3) read found(1) ok1
        by (auto simp: readWAL_def bind_io_def catch_io_def fail_io_def return_io_def keeps_def)
    next
      case (Inr wo)
      then obtain w off where wo: "read_loop 0 x zero_walData = Inr (w, off)" by (cases wo) auto
      show ?thesis
      proof (cases off)
        case None
        then show ?thesis using assms(3) read found ok1 wo
          by (auto simp: readWAL_def bind_io_def catch_io_def return_io_def wal_read_def wal_cut_def)
      next
        case (Some n)
        obtain r2 s2 where tr: "truncateFile p n s1 = (r2, s2)" by fastforce
        from truncateFile_effect [OF ok1(1) assms(2) ok1(3) tr]
        have "keeps {p} s s2" "r2 = Inr () \<longrightarrow> settled s2 p \<and> visible s2 p = Some (take n x)"
          using keeps_trans [OF ok1(2)] by auto
        then show ?thesis using assms(3) read found(1,2) wo Some tr
          by (cases r2) (auto simp: readWAL_def bind_io_def catch_io_def return_io_def fail_io_def
              wal_read_def wal_cut_def)
      qed
    qed
  qed
  then show "keeps {p} s s'" and "r = Inr w \<Longrightarrow> wal_read (visible s p) = Some w \<and>
      visible s' p = wal_cut (visible s p) \<and> (settled s p \<longrightarrow> settled s' p)" by auto
qed

section \<open>Loading\<close>

lemma writeWALAtomic_effect:
  "fs_ok s \<Longrightarrow> \<not> is_tmp p \<Longrightarrow> replaced_by p (wal_text i t es) s (writeWALAtomic p i t es s)"
  using replace_file_effect [of s p "encodeWALBase i t # map encodeWALEntry es"]
  by (simp add: writeWALAtomic_def wal_text_def)

text \<open>The log that \<open>Load\<close> returns for the records it read.\<close>

definition loaded_log :: "walData \<Rightarrow> Snapshot \<Rightarrow> LogEntry list" where
  "loaded_log wal snap =
     (if LastIncludedIndex snap > 0 then fst (reconcileWALWithSnapshot wal snap) else wd_entries wal)"

definition must_rewrite :: "walData \<Rightarrow> Snapshot \<Rightarrow> bool" where
  "must_rewrite wal snap \<longleftrightarrow> LastIncludedIndex snap > 0 \<and> snd (reconcileWALWithSnapshot wal snap)"

definition load_result :: "Files \<Rightarrow> fs \<Rightarrow> fs \<Rightarrow> HardState \<Rightarrow> LogEntry list \<Rightarrow> Snapshot \<Rightarrow> bool" where
  "load_result f s s' h es snap \<longleftrightarrow>
      hard_of (visible s (sf_hardState f)) = Some h \<and> snap_of (visible s (sf_snapshot f)) = Some snap \<and>
      (\<exists>wal. wal_read (visible s (sf_wal f)) = Some wal \<and> es = loaded_log wal snap \<and>
         (LastIncludedIndex snap = 0 \<longrightarrow> \<not> (wd_hasBase wal \<and> wd_baseIndex wal > 0)) \<and>
         visible s' (sf_wal f) = (if must_rewrite wal snap
           then Some (wal_text (LastIncludedIndex snap) (LastIncludedTerm snap) es)
           else wal_cut (visible s (sf_wal f))) \<and>
         (settled s (sf_wal f) \<longrightarrow> settled s' (sf_wal f)))"

lemma Load_effect:
  assumes "files_ok f" and "fs_ok s" and "Load f s = (r, s')"
  shows "keeps {sf_wal f} s s'"
    and "r = Inr (h, es, snap) \<Longrightarrow> load_result f s s' h es snap"
proof -
  have nt: "\<not> is_tmp (sf_wal f)" using assms(1) by (simp add: files_ok_def)
  have "keeps {sf_wal f} s s' \<and> (\<forall>h es snap. r = Inr (h, es, snap) \<longrightarrow> load_result f s s' h es snap)"
    using assms(3) unfolding Load_def
  proof (cases rule: bind_io_cases)
    case (err e)
    then show ?thesis using quietD(6) [OF quiet_read_optional assms(2) err(1)] by blast
  next
    case (go h s1)
    note q1 = quietD [OF quiet_read_optional assms(2) go(1)]
    note h = read_optional_value [OF go(1)]
    from go(2) show ?thesis
    proof (cases rule: bind_io_cases)
      case (err e)
      then show ?thesis
        using keeps_trans [OF q1(6) quietD(6) [OF quiet_read_optional q1(1) err(1)]] by blast
    next
      case (go snap s2)
      note q2 = quietD [OF quiet_read_optional q1(1) go(1)]
      have k2: "keeps {sf_wal f} s s2" using keeps_trans [OF q1(6) q2(6)] .
      have snap: "snap_of (visible s (sf_snapshot f)) = Some snap"
        using read_optional_value [OF go(1)] q1(3) by simp
      from go(2) show ?thesis
      proof (cases rule: bind_io_cases)
        case (err e)
        then show ?thesis using keeps_trans [OF k2 readWAL_effect(1) [OF q2(1) nt err(1)]] by blast
      next
        case (go wal s3)
        have k3: "keeps {sf_wal f} s s3"
          using keeps_trans [OF k2 readWAL_effect(1) [OF q2(1) nt go(1)]] .
        then have ok3: "fs_ok s3" by (simp add: keeps_def)
        have w: "wal_read (visible s (sf_wal f)) = Some wal"
          "visible s3 (sf_wal f) = wal_cut (visible s (sf_wal f))"
          "settled s (sf_wal f) \<longrightarrow> settled s3 (sf_wal f)"
          using readWAL_effect(2) [OF q2(1) nt go(1) refl] q1 q2 by auto
        note rewritten = writeWALAtomic_effect [OF ok3 nt, of "LastIncludedIndex snap"
            "LastIncludedTerm snap" "loaded_log wal snap"]
        show ?thesis
        proof (cases "must_rewrite wal snap")
          case False
          then show ?thesis using go(2) k3 h snap w
            by (auto simp: load_result_def must_rewrite_def loaded_log_def return_io_def fail_io_def
                split: prod.splits if_splits)
        next
          case True
          then have "bind_io (writeWALAtomic (sf_wal f) (LastIncludedIndex snap) (LastIncludedTerm snap)
              (loaded_log wal snap)) (\<lambda>_. return_io (h, loaded_log wal snap, snap)) s3 = (r, s')"
            using go(2) by (auto simp: must_rewrite_def loaded_log_def split: prod.splits)
          then show ?thesis
          proof (cases rule: bind_io_cases)
            case (err e)
            then have "keeps {sf_wal f} s3 s'" using rewritten by (simp add: replaced_by_def)
            then show ?thesis using k3 err(2) keeps_trans by blast
          next
            case (go u s4)
            then have "s' = s4" and r: "r = Inr (h, loaded_log wal snap, snap)"
              by (simp_all add: return_io_def)
            then have rp: "replaced_by (sf_wal f) (wal_text (LastIncludedIndex snap) (LastIncludedTerm snap)
                (loaded_log wal snap)) s3 (Inr u, s')"
              using rewritten go(1) by simp
            then have "keeps {sf_wal f} s s'" using k3 keeps_trans by (auto simp: replaced_by_def)
            moreover have "settled s' (sf_wal f)" "visible s' (sf_wal f) =
                Some (wal_text (LastIncludedIndex snap) (LastIncludedTerm snap) (loaded_log wal snap))"
              using rp by (simp_all add: replaced_by_def)
            ultimately show ?thesis using True r h snap w(1) by (auto simp: load_result_def must_rewrite_def)
          qed
        qed
      qed
    qed
  qed
  then show "keeps {sf_wal f} s s'"
    and "r = Inr (h, es, snap) \<Longrightarrow> load_result f s s' h es snap" by blast+
qed

text \<open>The log file of a process that stopped at some point of writing the entries \<open>es\<close>.\<close>

definition wal_content :: "u64 \<Rightarrow> u64 \<Rightarrow> LogEntry list \<Rightarrow> string option \<Rightarrow> bool" where
  "wal_content i t es c \<longleftrightarrow> (case c of None \<Rightarrow> True | Some x \<Rightarrow> prefix x (wal_text i t es))"

lemma wal_content_cases:
  assumes "valid_entries es" and "contiguous i es" and "wal_content i t es c"
  obtains (empty) "wal_read c = Some zero_walData" "wal_cut c \<in> {None, Some []}" "c \<noteq> Some (wal_text i t es)"
    | (log) k where "k \<le> length es" "wal_read c = Some (wal_of i t (take k es))"
        "wal_cut c = Some (wal_text i t (take k es))" "c = Some (wal_text i t es) \<longrightarrow> k = length es"
proof (cases c)
  case None
  then show thesis by (intro empty) (simp_all add: wal_read_def wal_cut_def)
next
  case (Some x)
  then have p: "prefix x (wal_text i t es)" using assms(3) by (simp add: wal_content_def)
  show thesis
  proof (cases "newline \<in> set x")
    case False
    moreover have "newline \<in> set (wal_text i t es)"
      by (simp add: wal_text_def encode_text(1) newline_def)
    ultimately show thesis using Some
      by (cases "x = []") (auto intro!: empty simp: wal_read_def wal_cut_def read_loop_Nil read_loop_tail)
  next
    case True
    with wal_read_new [OF assms(1,2) p] obtain y where
      y: "x = wal_text i t [] @ y" "prefix y (concat (map encodeWALEntry es))" by blast
    have "prefix (wal_text i t []) x" using y(1) by simp
    then obtain k off where k: "k \<le> length es"
      "read_loop 0 x zero_walData = Inr (wal_of i t (take k es), off)"
      "(case off of None \<Rightarrow> x | Some n \<Rightarrow> take n x) = wal_text i t (take k es)"
      by (rule wal_text_torn [of "[]" es, unfolded append_Nil, OF assms(1,2) _ p])
    show thesis
    proof (rule log [of k])
      show "k \<le> length es" by (rule k(1))
      show "wal_read c = Some (wal_of i t (take k es))" using k(2) by (simp add: Some wal_read_def)
      show "wal_cut c = Some (wal_text i t (take k es))"
        using k(2,3) by (auto simp: Some wal_cut_def split: option.splits)
      show "c = Some (wal_text i t es) \<longrightarrow> k = length es"
      proof
        assume "c = Some (wal_text i t es)"
        then have "wal_read c = Some (wal_of i t es)" using wal_read_text [OF assms(1,2)] by simp
        then have "take k es = es" using k(2) by (simp add: Some wal_read_def wal_of_def)
        then show "k = length es" using k(1) by (metis length_take min.absorb2)
      qed
    qed
  qed
qed

lemma reconcile_same_base:
  assumes "contiguous (LastIncludedIndex snap) es"
  shows "reconcileWALWithSnapshot (wal_of (LastIncludedIndex snap) (LastIncludedTerm snap) es) snap = (es, False)"
proof -
  have "filter (\<lambda>e. LastIncludedIndex snap < le_Index e) es = es"
    using contiguous_gt [OF assms] by (auto simp: filter_id_conv u64_simps)
  then show ?thesis by (simp add: reconcileWALWithSnapshot_def wal_of_def entriesAfter_def)
qed

lemma reconcile_contiguous:
  assumes "contiguous i es" and "LastIncludedIndex snap > 0"
  shows "contiguous (LastIncludedIndex snap) (fst (reconcileWALWithSnapshot (wal_of i t es) snap))"
proof -
  let ?l = "LastIncludedIndex snap"
  have *: "contiguous ?l (filter (\<lambda>e. ?l < le_Index e) es)" if "i \<le> ?l"
  proof (cases "unat ?l - unat i \<le> length es")
    case True
    moreover have "unat ?l = unat i + (unat ?l - unat i)" using that by (simp add: word_le_nat_alt)
    ultimately show ?thesis using contiguous_drop [OF assms(1)] contiguous_filter_gt [OF assms(1)] by metis
  next
    case False
    then show ?thesis using contiguous_filter_gt [OF assms(1), of ?l] by simp
  qed
  have "i \<le> ?l" if b: "hasSnapshotBoundaryEntry es snap"
  proof -
    obtain e where "find (\<lambda>e. le_Index e = ?l) es = Some e"
      using b assms(2)
      by (cases "find (\<lambda>e. le_Index e = ?l) es") (auto simp: hasSnapshotBoundaryEntry_def)
    then have "e \<in> set es" "le_Index e = ?l" by (auto simp: find_Some_iff in_set_conv_nth)
    then show ?thesis using contiguous_gt [OF assms(1)] by (force simp: word_le_nat_alt)
  qed
  moreover have "i \<le> ?l" if "i = ?l" using that by simp
  ultimately show ?thesis using *
    by (auto simp: Let_def reconcileWALWithSnapshot_def entriesAfter_def wal_of_def)
qed

lemma reconcile_valid:
  "valid_entries es \<Longrightarrow> valid_entries (fst (reconcileWALWithSnapshot (wal_of i t es) snap))"
  by (auto simp: Let_def reconcileWALWithSnapshot_def entriesAfter_def valid_entries_def wal_of_def list_all_iff)

lemma valid_entries_take: "valid_entries es \<Longrightarrow> valid_entries (take k es)"
  by (auto simp: valid_entries_def list_all_iff dest: in_set_takeD)

text \<open>After a restart the disk holds exactly the log that was loaded, based at the snapshot, and
  appending to it is durable again.\<close>

lemma Load_log_file:
  assumes "files_ok f" and "fs_ok s" and "settled s (sf_wal f)" and "valid_entries es" and "contiguous i es"
    and "wal_content i t es (visible s (sf_wal f))" and "Load f s = (Inr (h, log, snap), s')"
  shows "\<exists>t'. (0 < LastIncludedIndex snap \<longrightarrow> t' = LastIncludedTerm snap) \<and>
    log_file f s' (LastIncludedIndex snap) t' log"
proof -
  let ?l = "LastIncludedIndex snap" and ?w = "sf_wal f"
  note k = Load_effect(1) [OF assms(1,2,7)]
  from Load_effect(2) [OF assms(1,2,7) refl] obtain wal where
    w: "wal_read (visible s ?w) = Some wal" "log = loaded_log wal snap"
      "?l = 0 \<longrightarrow> \<not> (wd_hasBase wal \<and> wd_baseIndex wal > 0)"
      "visible s' ?w = (if must_rewrite wal snap then Some (wal_text ?l (LastIncludedTerm snap) log)
         else wal_cut (visible s ?w))" "settled s' ?w"
      "snap_of (visible s (sf_snapshot f)) = Some snap"
    using assms(3) by (auto simp: load_result_def)
  have "visible s' (sf_snapshot f) = visible s (sf_snapshot f)" "fs_ok s'"
    using k assms(1) by (auto simp: keeps_def files_ok_def)
  with w(5,6) have *: "log_file f s' ?l t' log \<longleftrightarrow> valid_entries log \<and> contiguous ?l log \<and>
      (visible s' ?w = Some (wal_text ?l t' log) \<or>
       log = [] \<and> visible s' ?w \<in> {None, Some []} \<and> t' = LastIncludedTerm snap)" for t'
    using assms(1) by (auto simp: log_file_def)
  from assms(4,5,6) show ?thesis
  proof (cases rule: wal_content_cases)
    case empty
    then have z: "wal = zero_walData" using w(1) by simp
    then have "log = [] \<and> \<not> must_rewrite wal snap"
      using w(2) by (auto simp: loaded_log_def must_rewrite_def reconcileWALWithSnapshot_def
          zero_walData_def hasSnapshotBoundaryEntry_def)
    then show ?thesis using * [of "LastIncludedTerm snap"] w(4) empty(2) by (auto simp: valid_entries_def)
  next
    case (log n)
    then have z: "wal = wal_of i t (take n es)" using w(1) by simp
    have c: "contiguous i (take n es)" "valid_entries (take n es)"
      using assms(4,5) by (simp_all add: contiguous_take valid_entries_take)
    show ?thesis
    proof (cases "?l = 0")
      case True
      then have "i = 0" using w(3) z by (auto simp: wal_of_def word_gt_0)
      moreover have "log = take n es" "\<not> must_rewrite wal snap"
        using w(2) z True by (simp_all add: loaded_log_def must_rewrite_def wal_of_def)
      ultimately show ?thesis using * [of t] w(4) log(3) c True by auto
    next
      case False
      then have l: "0 < ?l" by (simp add: word_gt_0)
      have log': "log = fst (reconcileWALWithSnapshot wal snap)" using w(2) l by (simp add: loaded_log_def)
      have "valid_entries log" "contiguous ?l log"
        using reconcile_contiguous [OF c(1) l] reconcile_valid [OF c(2)] by (simp_all add: log' z)
      moreover have "visible s' ?w = Some (wal_text ?l (LastIncludedTerm snap) log)"
      proof (cases "must_rewrite wal snap")
        case False
        then have "\<not> snd (reconcileWALWithSnapshot wal snap)" using l by (simp add: must_rewrite_def)
        then have "i = ?l" "t = LastIncludedTerm snap"
          by (auto simp: z reconcileWALWithSnapshot_def wal_of_def split: if_splits)
        then show ?thesis using w(4) log(3) False reconcile_same_base [of snap "take n es"] c(1)
          by (simp add: log' z)
      qed (simp add: w(4))
      ultimately show ?thesis using * [of "LastIncludedTerm snap"] by blast
    qed
  qed
qed

lemma AppendEntries_wal_content:
  assumes "log_file f s i t log" and "valid_entries es" and "contiguous i (log @ es)"
    and "AppendEntries f es s = (r, s')" and "c \<in> holds s' (sf_wal f)"
  shows "wal_content i t (log @ es) c"
  using assms
proof (cases rule: AppendEntries_content)
  case same
  then show ?thesis using assms(1) by (auto simp: log_file_def wal_content_def wal_text_append)
next
  case (grown y)
  then show ?thesis by (simp add: wal_content_def wal_text_append)
next
  case (new x)
  then show ?thesis by (simp add: wal_content_def)
qed

section \<open>A disk without faults\<close>

definition healthy :: "fs \<Rightarrow> bool" where
  "healthy s \<longleftrightarrow> faults s = sconst No_fault"

lemma healthy_call: "healthy s \<Longrightarrow> call h m s = m s"
  by (cases s) (simp add: healthy_def call_def)

text \<open>The computation succeeds, and the disk stays without faults.\<close>

definition succeeds :: "'a io \<Rightarrow> fs \<Rightarrow> bool" where
  "succeeds m s \<longleftrightarrow> (\<exists>x s'. m s = (Inr x, s') \<and> healthy s')"

lemma succeeds_bind:
  assumes "succeeds m s" and "\<And>x s'. m s = (Inr x, s') \<Longrightarrow> healthy s' \<Longrightarrow> succeeds (f x) s'"
  shows "succeeds (bind_io m f) s"
  using assms by (fastforce simp: succeeds_def bind_io_def)

lemma succeeds_catch: "succeeds m s \<Longrightarrow> succeeds (catch_io m h) s"
  by (auto simp: succeeds_def catch_io_def)

lemma succeeds_close_on_error: "succeeds m s \<Longrightarrow> succeeds (close_on_error i m) s"
  unfolding close_on_error_def by (rule succeeds_catch)

lemma succeeds_calls:
  assumes "healthy s"
  shows "succeeds (return_io x) s" and "succeeds (OpenTrunc p) s" and "succeeds (OpenAppend p) s"
    and "succeeds (Write i d) s" and "succeeds (Sync i) s" and "succeeds (Close i) s"
    and "succeeds (Truncate i n) s" and "succeeds OpenDir s" and "succeeds SyncDir s" and "succeeds CloseDir s"
    and "names s p = Some j \<Longrightarrow> succeeds (Rename p q) s" and "names s p = Some j \<Longrightarrow> succeeds (OpenWrite p) s"
  using assms
  by (auto simp: succeeds_def healthy_call return_io_def OpenTrunc_def OpenAppend_def Write_def Sync_def
      Close_def Truncate_def OpenDir_def SyncDir_def CloseDir_def Rename_def OpenWrite_def create_def
      set_names_def append_content_def healthy_def split: option.splits)

lemma succeeds_syncDir: "healthy s \<Longrightarrow> succeeds syncDir s"
  unfolding syncDir_def
  by (intro succeeds_bind succeeds_catch succeeds_calls) (auto intro: succeeds_calls)

lemma succeeds_write_all: "healthy s \<Longrightarrow> succeeds (write_all i xs) s"
proof (induction xs arbitrary: s)
  case Nil
  then show ?case by (simp add: succeeds_calls)
next
  case (Cons x xs)
  then show ?case
    by (auto intro!: succeeds_bind succeeds_close_on_error succeeds_calls)
qed

lemma succeeds_write_tmp: "healthy s \<Longrightarrow> succeeds (write_tmp t xs) s"
  unfolding write_tmp_def
  by (intro succeeds_bind succeeds_close_on_error succeeds_calls succeeds_write_all)

lemma succeeds_replace_file:
  assumes "healthy s" and "fs_ok s"
  shows "succeeds (replace_file p xs) s"
  unfolding replace_file_def
proof (rule succeeds_bind [OF succeeds_write_tmp [OF assms(1)]])
  fix u s1 assume run: "write_tmp (p @ ''.tmp'') xs s = (Inr u, s1)" and h: "healthy s1"
  then obtain i where "names s1 (p @ ''.tmp'') = Some i"
    using write_tmp_effect [OF assms(2) is_tmp_suffix run] by auto
  then show "succeeds (bind_io (Rename (p @ ''.tmp'') p) (\<lambda>_. syncDir)) s1"
    using h by (intro succeeds_bind succeeds_calls succeeds_syncDir)
qed

lemma succeeds_truncateFile:
  assumes "healthy s" and "names s p = Some i"
  shows "succeeds (truncateFile p n) s"
  unfolding truncateFile_def using assms
  by (intro succeeds_bind succeeds_close_on_error succeeds_calls succeeds_syncDir)

lemma succeeds_append_file: "healthy s \<Longrightarrow> succeeds (append_file p xs created) s"
  unfolding append_file_def
  by (intro succeeds_bind succeeds_close_on_error succeeds_calls succeeds_write_all)
    (auto intro: succeeds_calls succeeds_syncDir)

lemma healthy_ReadFile:
  "healthy s \<Longrightarrow> ReadFile p s = (case visible s p of None \<Rightarrow> (Inl ErrNotExist, s) | Some x \<Rightarrow> (Inr x, s))"
  by (simp add: ReadFile_def healthy_call visible_def split: option.splits)

lemma healthy_read_optional:
  "healthy s \<Longrightarrow> document st x (visible s p) = Some y \<Longrightarrow> read_optional p st x s = (Inr y, s)"
  by (cases "visible s p")
    (auto simp: read_optional_def readJSONFile_def healthy_ReadFile bind_io_def catch_io_def
      return_io_def document_def split: prod.splits if_splits)

lemma succeeds_readWAL:
  assumes "healthy s" and "wal_read (visible s p) = Some w"
  shows "succeeds (readWAL p) s"
proof (cases "visible s p")
  case None
  then show ?thesis using assms(1)
    by (simp add: readWAL_def healthy_ReadFile bind_io_def catch_io_def return_io_def succeeds_def)
next
  case (Some x)
  then obtain off where w: "read_loop 0 x zero_walData = Inr (w, off)"
    using assms(2) by (auto simp: wal_read_def split: sum.splits)
  obtain i where "names s p = Some i" using Some by (auto simp: visible_def)
  note tr = succeeds_truncateFile [OF assms(1) this]
  show ?thesis
  proof (cases off)
    case None
    then show ?thesis using assms(1) Some w
      by (simp add: readWAL_def healthy_ReadFile bind_io_def catch_io_def return_io_def succeeds_def)
  next
    case (Some n)
    from tr [of n] show ?thesis using assms(1) \<open>visible s p = Some x\<close> w Some
      by (auto simp: readWAL_def healthy_ReadFile bind_io_def catch_io_def return_io_def succeeds_def)
  qed
qed

lemma succeeds_Load:
  assumes "healthy s" and "files_ok f" and "fs_ok s" and "hard_of (visible s (sf_hardState f)) = Some h"
    and "snap_of (visible s (sf_snapshot f)) = Some snap" and "wal_read (visible s (sf_wal f)) = Some w"
    and "LastIncludedIndex snap = 0 \<Longrightarrow> wd_hasBase w \<Longrightarrow> wd_baseIndex w = 0"
  shows "succeeds (Load f) s"
proof -
  have nt: "\<not> is_tmp (sf_wal f)" using assms(2) by (simp add: files_ok_def)
  obtain w' s1 where read: "readWAL (sf_wal f) s = (Inr w', s1)" and h1: "healthy s1"
    using succeeds_readWAL [OF assms(1,6)] by (auto simp: succeeds_def)
  have w': "w' = w" using readWAL_effect(2) [OF assms(3) nt read refl] assms(6) by simp
  have ok1: "fs_ok s1" using readWAL_effect(1) [OF assms(3) nt read] by (simp add: keeps_def)
  have rewritten: "succeeds (writeWALAtomic (sf_wal f) i t es) s1" for i t es
    unfolding writeWALAtomic_def by (rule succeeds_replace_file [OF h1 ok1])
  let ?M = "if LastIncludedIndex snap > 0 then
         (case reconcileWALWithSnapshot w snap of (entries, rewrite) \<Rightarrow>
            if rewrite then
              bind_io (writeWALAtomic (sf_wal f) (LastIncludedIndex snap) (LastIncludedTerm snap) entries)
                (\<lambda>_. return_io (h, entries, snap))
            else return_io (h, entries, snap))
       else if wd_hasBase w \<and> wd_baseIndex w > 0 then
         fail_io (ErrorString ''WAL is based at snapshot index %d but snapshot is missing'')
       else return_io (h, wd_entries w, snap)"
  have run: "Load f s = ?M s1"
    using assms(1) read w' healthy_read_optional [OF assms(1,4)] healthy_read_optional [OF assms(1,5)]
    by (simp add: Load_def bind_io_def)
  have "succeeds (bind_io (writeWALAtomic (sf_wal f) i t es) (\<lambda>_. return_io v)) s1" for i t es v
    by (rule succeeds_bind [OF rewritten]) (simp add: succeeds_calls)
  then have "succeeds ?M s1"
    using assms(7) h1 by (auto simp: succeeds_calls word_gt_0 split: prod.splits)
  then show ?thesis by (simp only: succeeds_def run)
qed

lemma succeeds_AppendEntries:
  assumes "healthy s" and "snap_of (visible s (sf_snapshot f)) = Some snap"
  shows "succeeds (AppendEntries f es) s"
proof -
  have "succeeds (wal_created f) s"
    using assms(1)
    by (auto simp: wal_created_def succeeds_def Stat_Size_def healthy_call bind_io_def catch_io_def
        return_io_def split: option.splits)
  then obtain c s1 where c: "wal_created f s = (Inr c, s1)" "healthy s1" by (auto simp: succeeds_def)
  obtain k where "s1 = s\<lparr>faults := sdrop k (faults s)\<rparr>"
    using quiet_wal_created c(1) by (metis quiet_def snd_conv)
  then have v: "visible s1 = visible s" by simp
  have "succeeds (snapshotBaseLocked f) s1"
    unfolding snapshotBaseLocked_def
    using healthy_read_optional [OF c(2), of _ _ "sf_snapshot f" snap] assms(2) v
    by (intro succeeds_bind) (auto simp: succeeds_def return_io_def c(2))
  then have "succeeds (if c then snapshotBaseLocked f else return_io (0, 0)) s1"
    by (simp add: succeeds_calls c(2))
  then show ?thesis
    unfolding AppendEntries_def using c assms(1) \<open>succeeds (wal_created f) s\<close>
    by (auto intro!: succeeds_bind succeeds_append_file succeeds_calls simp: succeeds_calls split: prod.splits)
qed

end
