(* ===== verification/Storage_Store.thy ===== *)
theory Storage_Store
  imports Storage_Load Store_Contract
begin

text \<open>
  The store as package raft uses it: replacing the documents and the log, and the contract of the
  hard state, discharged for the files.
\<close>

section \<open>The contract of the hard state\<close>

lemma HardState_document:
  "valid_utf8 (hs_VotedFor h) \<Longrightarrow> hard_of (Some (marshal (HardState_json h))) = Some h"
  by (simp add: document_def HardState_roundtrip)

lemma Snapshot_document: "valid_Snapshot snap \<Longrightarrow> snap_of (Some (marshal (Snapshot_json snap))) = Some snap"
  by (simp add: document_def Snapshot_roundtrip)

lemma save_effects:
  assumes "files_ok f" and "fs_ok s"
  shows "replaced_by (sf_hardState f) (marshal (HardState_json h)) s (SaveHardState f h s)"
    and "replaced_by (sf_snapshot f) (marshal (Snapshot_json snap)) s (SaveSnapshot f snap s)"
  using assms replace_file_effect [of s "sf_hardState f" "[marshal (HardState_json h)]"]
    replace_file_effect [of s "sf_snapshot f" "[marshal (Snapshot_json snap)]"]
  by (simp_all add: SaveHardState_def SaveSnapshot_def writeJSONAtomic_def files_ok_def)

lemma ReplaceEntries_effect:
  assumes "files_ok f" and "fs_ok s" and "ReplaceEntries f es s = (r, s')"
  shows "keeps {sf_wal f} s s'"
    and "holds s' (sf_wal f) \<subseteq> holds s (sf_wal f) \<and> r \<noteq> Inr () \<or>
      (\<exists>snap. snap_of (visible s (sf_snapshot f)) = Some snap \<and>
         replaced_by (sf_wal f) (wal_text (LastIncludedIndex snap) (LastIncludedTerm snap) es) s (r, s'))"
proof -
  have nt: "\<not> is_tmp (sf_wal f)" using assms(1) by (simp add: files_ok_def)
  have "keeps {sf_wal f} s s' \<and> (holds s' (sf_wal f) \<subseteq> holds s (sf_wal f) \<and> r \<noteq> Inr () \<or>
      (\<exists>snap. snap_of (visible s (sf_snapshot f)) = Some snap \<and>
         replaced_by (sf_wal f) (wal_text (LastIncludedIndex snap) (LastIncludedTerm snap) es) s (r, s')))"
    using assms(3) unfolding ReplaceEntries_def
  proof (cases rule: bind_io_cases)
    case (err e)
    then show ?thesis using quietD(4,6) [OF quiet_snapshotBaseLocked assms(2) err(1)] by simp
  next
    case (go b s1)
    note q = quietD [OF quiet_snapshotBaseLocked assms(2) go(1)]
    from snapshotBaseLocked_value [OF go(1)] obtain snap where
      snap: "snap_of (visible s (sf_snapshot f)) = Some snap"
        "b = (LastIncludedIndex snap, LastIncludedTerm snap)" .
    then have rb: "replaced_by (sf_wal f) (wal_text (LastIncludedIndex snap) (LastIncludedTerm snap) es) s1 (r, s')"
      using writeWALAtomic_effect [OF q(1) nt, of "LastIncludedIndex snap" "LastIncludedTerm snap" es] go(2)
      by simp
    have k: "keeps {sf_wal f} s s'" using rb keeps_trans [OF q(6)] by (auto simp: replaced_by_def)
    have "replaced_by (sf_wal f) (wal_text (LastIncludedIndex snap) (LastIncludedTerm snap) es) s (r, s')"
      using rb k q(3,4) by (cases r) (simp_all add: replaced_by_def)
    then show ?thesis using k snap(1) by blast
  qed
  then show "keeps {sf_wal f} s s'"
    and "holds s' (sf_wal f) \<subseteq> holds s (sf_wal f) \<and> r \<noteq> Inr () \<or>
      (\<exists>snap. snap_of (visible s (sf_snapshot f)) = Some snap \<and>
         replaced_by (sf_wal f) (wal_text (LastIncludedIndex snap) (LastIncludedTerm snap) es) s (r, s'))"
    by blast+
qed

lemma ReplaceEntries_holds:
  assumes "files_ok f" and "fs_ok s" and "ReplaceEntries f es s = (r, s')"
    and "snap_of (visible s (sf_snapshot f)) = Some snap" and "c \<in> holds s' (sf_wal f)"
  shows "c = Some (wal_text (LastIncludedIndex snap) (LastIncludedTerm snap) es) \<or>
    r \<noteq> Inr () \<and> c \<in> holds s (sf_wal f)"
proof (cases "holds s' (sf_wal f) \<subseteq> holds s (sf_wal f) \<and> r \<noteq> Inr ()")
  case True
  then show ?thesis using assms(5) by blast
next
  case False
  then have rb: "replaced_by (sf_wal f) (wal_text (LastIncludedIndex snap) (LastIncludedTerm snap) es) s (r, s')"
    using ReplaceEntries_effect(2) [OF assms(1-3)] assms(4) by auto
  have "fs_ok s'" using ReplaceEntries_effect(1) [OF assms(1-3)] by (simp add: keeps_def)
  then show ?thesis using rb assms(5) settled_holds [of s' "sf_wal f"]
    by (cases r) (auto simp: replaced_by_def)
qed

definition store_ok :: "Files \<Rightarrow> fs \<Rightarrow> bool" where
  "store_ok f s \<longleftrightarrow> files_ok f \<and> fs_ok s"

definition possible_hard_states :: "Files \<Rightarrow> fs \<Rightarrow> HardState set" where
  "possible_hard_states f s = {h. \<exists>c \<in> holds s (sf_hardState f). hard_of c = Some h}"

definition power_failure :: "fs \<Rightarrow> fs \<Rightarrow> bool" where
  "power_failure s s' \<longleftrightarrow> crash s s' \<and> can_sync_dir s'"

lemma err_of_None: "err_of x = (None, s') \<longleftrightarrow> x = (Inr (), s')"
  by (auto simp: err_of_def split: prod.splits sum.splits)

lemma err_of_Some: "err_of x = (Some e, s') \<longleftrightarrow> x = (Inl e, s')"
  by (auto simp: err_of_def split: prod.splits sum.splits)

lemma err_of_state: "err_of (m s) = (r, s') \<Longrightarrow> \<exists>r'. m s = (r', s')"
  by (cases "m s") (auto simp: err_of_def split: sum.splits)

lemma possible_keeps:
  assumes "store_ok f s" and "keeps X s s'" and "sf_hardState f \<notin> X"
  shows "store_ok f s' \<and> possible_hard_states f s' \<subseteq> possible_hard_states f s"
  using keepsD(2) [OF assms(2) _ assms(3)] assms(1,2)
  by (auto simp: store_ok_def possible_hard_states_def keeps_def files_ok_def)

interpretation file_store: hard_state_store "FileStore f" "store_ok f" "possible_hard_states f"
  power_failure valid_utf8 for f
proof
  show "valid_utf8 ''''" by simp
next
  fix st st' :: fs and h :: HardState and e
  assume ok: "store_ok f st" and valid: "valid_utf8 (hs_VotedFor h)"
  then have fok: "files_ok f" "fs_ok st" by (simp_all add: store_ok_def)
  note r = save_effects(1) [OF fok, of h]
  show "store_ok f st' \<and> possible_hard_states f st' = {h}"
    if "Store_SaveHardState (FileStore f) h st = (None, st')"
  proof -
    have "SaveHardState f h st = (Inr (), st')" using that by (simp add: FileStore_def err_of_None)
    then have "keeps {sf_hardState f} st st'" "settled st' (sf_hardState f)"
      "visible st' (sf_hardState f) = Some (marshal (HardState_json h))"
      using r by (simp_all add: replaced_by_def)
    then show ?thesis using fok settled_holds [of st' "sf_hardState f"] HardState_document [OF valid]
      by (auto simp: store_ok_def possible_hard_states_def keeps_def)
  qed
  show "store_ok f st' \<and> possible_hard_states f st' \<subseteq> insert h (possible_hard_states f st)"
    if "Store_SaveHardState (FileStore f) h st = (Some e, st')"
  proof -
    have "SaveHardState f h st = (Inl e, st')" using that by (simp add: FileStore_def err_of_Some)
    then have "keeps {sf_hardState f} st st'"
      "holds st' (sf_hardState f) \<subseteq> insert (Some (marshal (HardState_json h))) (holds st (sf_hardState f))"
      using r by (simp_all add: replaced_by_def)
    then show ?thesis using fok HardState_document [OF valid]
      by (auto simp: store_ok_def possible_hard_states_def keeps_def)
  qed
next
  fix st st' :: fs and es r
  assume ok: "store_ok f st"
  then have fok: "files_ok f" "fs_ok st" and ne: "sf_hardState f \<noteq> sf_wal f" "sf_hardState f \<noteq> sf_snapshot f"
    by (simp_all add: store_ok_def files_ok_def)
  show "store_ok f st' \<and> possible_hard_states f st' \<subseteq> possible_hard_states f st"
    if run: "Store_AppendEntries (FileStore f) es st = (r, st')"
  proof -
    obtain r' where "AppendEntries f es st = (r', st')"
      using run err_of_state [of "AppendEntries f es" st r st'] by (auto simp: FileStore_def)
    from possible_keeps [OF ok AppendEntries_keeps [OF fok this]] show ?thesis using ne by simp
  qed
  show "store_ok f st' \<and> possible_hard_states f st' \<subseteq> possible_hard_states f st"
    if run: "Store_ReplaceEntries (FileStore f) es st = (r, st')"
  proof -
    obtain r' where "ReplaceEntries f es st = (r', st')"
      using run err_of_state [of "ReplaceEntries f es" st r st'] by (auto simp: FileStore_def)
    from possible_keeps [OF ok ReplaceEntries_effect(1) [OF fok this]] show ?thesis using ne by simp
  qed
next
  fix st st' :: fs and snap r
  assume ok: "store_ok f st" and run: "Store_SaveSnapshot (FileStore f) snap st = (r, st')"
  then have fok: "files_ok f" "fs_ok st" and ne: "sf_hardState f \<noteq> sf_snapshot f"
    by (simp_all add: store_ok_def files_ok_def)
  obtain r' where "SaveSnapshot f snap st = (r', st')"
    using run err_of_state [of "SaveSnapshot f snap" st r st'] by (auto simp: FileStore_def)
  then have "keeps {sf_snapshot f} st st'"
    using save_effects(2) [OF fok, of snap] by (simp add: replaced_by_def)
  from possible_keeps [OF ok this] show "store_ok f st' \<and> possible_hard_states f st' \<subseteq> possible_hard_states f st"
    using ne by simp
next
  fix st st' :: fs and l
  assume ok: "store_ok f st" and run: "Store_Load (FileStore f) st = (l, st')"
  then have fok: "files_ok f" "fs_ok st" and ne: "sf_hardState f \<noteq> sf_wal f"
    by (simp_all add: store_ok_def files_ok_def)
  have "Load f st = (l, st')" using run by (simp add: FileStore_def)
  from possible_keeps [OF ok Load_effect(1) [OF fok this]]
  show "store_ok f st' \<and> possible_hard_states f st' \<subseteq> possible_hard_states f st" using ne by simp
next
  fix st st' :: fs and h :: HardState and log snap
  assume ok: "store_ok f st" and run: "Store_Load (FileStore f) st = (Inr (h, log, snap), st')"
  then have fok: "files_ok f" "fs_ok st" by (simp_all add: store_ok_def)
  have "Load f st = (Inr (h, log, snap), st')" using run by (simp add: FileStore_def)
  from Load_effect(2) [OF fok this refl] have "hard_of (visible st (sf_hardState f)) = Some h"
    by (simp add: load_result_def)
  then show "h \<in> possible_hard_states f st"
    using visible_holds [OF fok(2), of "sf_hardState f"] by (auto simp: possible_hard_states_def)
next
  fix st st' :: fs
  assume ok: "store_ok f st" and crash: "power_failure st st'"
  then have c: "fs_ok st'" "settled st' (sf_hardState f)" "visible st' (sf_hardState f) \<in> holds st (sf_hardState f)"
    using crash_effect [of st st'] by (auto simp: store_ok_def power_failure_def)
  then show "store_ok f st' \<and> possible_hard_states f st' \<subseteq> possible_hard_states f st"
    using ok settled_holds [OF c(1,2)] by (auto simp: store_ok_def possible_hard_states_def)
qed

end
