(* ===== verification/Storage_Properties.thy ===== *)
theory Storage_Properties
  imports Storage_Store
begin

text \<open>
  The properties of package storage: documents and log records are read back as they were written,
  replacing the hard state is atomic, an append is durable when it returns, and a restart finds
  exactly the entries that were written.
\<close>

section \<open>A data directory for the examples\<close>

definition data_files :: Files where
  "data_files = \<lparr>sf_hardState = ''data/hard_state.json'', sf_wal = ''data/wal.jsonl'',
     sf_snapshot = ''data/snapshot.json''\<rparr>"

definition empty_fs :: fs where
  "empty_fs = \<lparr>versions = [Map.empty], content = (\<lambda>_. []), synced = (\<lambda>_. []), fresh = 0,
     faults = sconst No_fault\<rparr>"

definition put_a :: Command where
  "put_a = \<lparr>cmd_Op = OpPut, cmd_Key = ''a'', cmd_Value = ''1'', cmd_Expected = []\<rparr>"

definition entry_a :: LogEntry where
  "entry_a = \<lparr>le_Index = 1, le_Term = 1, le_Command = put_a\<rparr>"

lemma data_files_ok: "files_ok data_files"
  by (simp add: data_files_def files_ok_def is_tmp_def suffix_to_prefix)

lemma empty_fs_ok: "fs_ok empty_fs"
  by (simp add: empty_fs_def fs_ok_def can_sync_dir_def names_def)

lemma empty_fs_healthy: "healthy empty_fs"
  by (simp add: empty_fs_def healthy_def)

lemma empty_fs_files [simp]: "visible empty_fs p = None" "settled empty_fs p"
  by (simp_all add: visible_def names_def empty_fs_def settled_def)

lemma documents_missing [simp]: "document st x None = Some x"
  by (simp add: document_def)

lemma empty_log_file: "log_file data_files empty_fs 0 0 []"
  by (simp add: log_file_def data_files_ok empty_fs_ok valid_entries_def zero_Snapshot_def)

lemma valid_examples [simp]: "valid_utf8 ''put''" "valid_utf8 ''a''" "valid_utf8 ''1''" "valid_utf8 ''n2''"
  by (rule valid_utf8_ascii, simp add: byte_def)+

lemma put_a_valid [simp]: "valid_Command put_a" "valid_entries [entry_a]"
  by (simp_all add: valid_Command_def put_a_def OpPut_def valid_entries_def entry_a_def)

lemma crash_now: "fs_ok s \<Longrightarrow> power_failure s (s\<lparr>versions := [names s], synced := content s, faults := sconst No_fault\<rparr>)"
  using fs_okD(3) [of s]
  by (auto simp: power_failure_def crash_def survives_def can_sync_dir_def)

section \<open>Round trips\<close>


text \<open>C29. A line of the write-ahead log, without its newline, is decoded to the record that was
  encoded: the checksum matches, and no record is taken for another kind.\<close>

theorem wal_line_roundtrip:
  assumes "valid_Command (le_Command e)"
  shows "decodeWALLine (TrimSpace (butlast (encodeWALBase i t))) = Inr (Base i t) \<and>
    decodeWALLine (TrimSpace (butlast (encodeWALEntry e))) = Inr (Entry e)"
  using assms by (simp add: encode_text decode_text butlast_append)

theorem wal_line_roundtrip_witness:
  "decodeWALLine (TrimSpace (butlast (encodeWALBase 4 2))) = Inr (Base 4 2) \<and>
   decodeWALLine (TrimSpace (butlast (encodeWALEntry entry_a))) = Inr (Entry entry_a)"
  by (rule wal_line_roundtrip) (simp add: entry_a_def)

section \<open>Atomic replacement\<close>



section \<open>Restarting\<close>

text \<open>A directory in which the store can be opened: the three files hold \<open>h\<close>, \<open>log\<close> and \<open>snap\<close>,
  and the log starts after the snapshot.\<close>

definition stored :: "Files \<Rightarrow> fs \<Rightarrow> HardState \<Rightarrow> LogEntry list \<Rightarrow> Snapshot \<Rightarrow> bool" where
  "stored f s h log snap \<longleftrightarrow>
     log_file f s (LastIncludedIndex snap) (LastIncludedTerm snap) log \<and>
     settled s (sf_hardState f) \<and> hard_of (visible s (sf_hardState f)) = Some h \<and>
     settled s (sf_snapshot f) \<and> snap_of (visible s (sf_snapshot f)) = Some snap"

lemma storedD:
  assumes "stored f s h log snap"
  shows "files_ok f" and "fs_ok s" and "log_file f s (LastIncludedIndex snap) (LastIncludedTerm snap) log"
    and "valid_entries log" and "contiguous (LastIncludedIndex snap) log"
  using assms by (auto simp: stored_def log_file_def)

text \<open>What a restart finds, when the log file holds a part of the entries \<open>es\<close>.\<close>

lemma restart:
  assumes "stored f s h log snap" and "keeps {sf_wal f} s s1" and "power_failure s1 s2" and "healthy s2"
    and "valid_entries es" and "contiguous (LastIncludedIndex snap) es"
    and "wal_content (LastIncludedIndex snap) (LastIncludedTerm snap) es (visible s2 (sf_wal f))"
    and "wal_read (visible s2 (sf_wal f)) = Some w"
  shows "\<exists>s3. Load f s2 = (Inr (h, wd_entries w, snap), s3) \<and> stored f s3 h (wd_entries w) snap"
proof -
  let ?i = "LastIncludedIndex snap" and ?t = "LastIncludedTerm snap"
  note a = storedD [OF assms(1)]
  have ne: "\<not> is_tmp (sf_hardState f)" "\<not> is_tmp (sf_snapshot f)" "sf_hardState f \<noteq> sf_wal f" "sf_snapshot f \<noteq> sf_wal f"
    using a(1) by (auto simp: files_ok_def)
  have ok1: "fs_ok s1" using assms(2) by (simp add: keeps_def)
  have same: "visible s2 p = visible s p" if "settled s p" "\<not> is_tmp p" "p \<noteq> sf_wal f" for p
    using crash_effect [OF ok1, of s2] assms(3) settled_holds [OF ok1, of p] that assms(2)
    by (auto simp: power_failure_def keeps_def)
  have c: "fs_ok s2" "\<And>p. settled s2 p"
    using crash_effect [OF ok1] assms(3) by (auto simp: power_failure_def)
  have docs: "hard_of (visible s2 (sf_hardState f)) = Some h" "snap_of (visible s2 (sf_snapshot f)) = Some snap"
    using assms(1) same ne by (auto simp: stored_def)
  have w: "w = zero_walData \<or> (\<exists>n. w = wal_of ?i ?t (take n es))"
    using assms(5-7) by (cases rule: wal_content_cases) (use assms(8) in auto)
  then have "wd_baseIndex w = 0" if "?i = 0" "wd_hasBase w"
    using that by (auto simp: zero_walData_def wal_of_def)
  from succeeds_Load [OF assms(4) a(1) c(1) docs assms(8) this] obtain h' log' snap' s3 where
    run: "Load f s2 = (Inr (h', log', snap'), s3)" by (auto simp: succeeds_def)
  then have eq: "h' = h" "snap' = snap" "log' = loaded_log w snap"
    using Load_effect(2) [OF a(1) c(1) run refl] docs assms(8) by (auto simp: load_result_def)
  have log': "log' = wd_entries w"
    using w
  proof
    assume "w = zero_walData"
    then show ?thesis
      by (auto simp: eq(3) loaded_log_def zero_walData_def reconcileWALWithSnapshot_def
          hasSnapshotBoundaryEntry_def entriesAfter_def)
  next
    assume "\<exists>n. w = wal_of ?i ?t (take n es)"
    then show ?thesis using reconcile_same_base [OF contiguous_take [OF assms(6)]]
      by (auto simp: eq(3) loaded_log_def wal_of_def)
  qed
  have k3: "keeps {sf_wal f} s2 s3" by (rule Load_effect(1) [OF a(1) c(1) run])
  obtain t' where t': "0 < ?i \<longrightarrow> t' = ?t" "log_file f s3 ?i t' log'"
    using Load_log_file [OF a(1) c(1) c(2) assms(5,6,7) run] eq by auto
  have "log_file f s3 ?i ?t log'"
  proof (cases "?i = 0")
    case True
    have nr: "\<not> must_rewrite w snap" using True by (simp add: must_rewrite_def)
    then have "visible s3 (sf_wal f) = wal_cut (visible s2 (sf_wal f))"
      using Load_effect(2) [OF a(1) c(1) run refl] assms(8) eq(2) by (auto simp: load_result_def)
    moreover from assms(5-7) have "wal_cut (visible s2 (sf_wal f)) = Some (wal_text ?i ?t log') \<or>
        log' = [] \<and> wal_cut (visible s2 (sf_wal f)) \<in> {None, Some []}"
      by (cases rule: wal_content_cases) (use assms(8) log' in \<open>auto simp: zero_walData_def wal_of_def\<close>)
    moreover have "snap_of (visible s3 (sf_snapshot f)) = Some snap"
      using keepsD(1) [OF k3 ne(2)] ne(4) docs(2) by simp
    ultimately show ?thesis using t'(2) by (auto simp: log_file_def)
  next
    case False
    then show ?thesis using t' by (simp add: word_gt_0)
  qed
  then have "stored f s3 h log' snap"
    using docs keepsD [OF k3 ne(1)] keepsD [OF k3 ne(2)] ne c(2) by (simp add: stored_def)
  then show ?thesis using run eq(1,2) log' by blast
qed


lemma empty_stored: "stored data_files empty_fs zero_HardState [] zero_Snapshot"
  using empty_log_file by (simp add: stored_def zero_Snapshot_def)



lemma succeeds_ReplaceEntries:
  assumes "healthy s" and "fs_ok s" and "snap_of (visible s (sf_snapshot f)) = Some snap"
  shows "succeeds (ReplaceEntries f es) s"
  using succeeds_replace_file [OF assms(1,2), of "sf_wal f"
      "encodeWALBase (LastIncludedIndex snap) (LastIncludedTerm snap) # map encodeWALEntry es"]
    healthy_read_optional [OF assms(1,3)]
  by (simp add: ReplaceEntries_def snapshotBaseLocked_def writeWALAtomic_def bind_io_def return_io_def
      succeeds_def)


section \<open>Where the store falls short\<close>

lemma stale_log_unreadable:
  assumes "valid_Command (le_Command e)" and "le_Index e \<le> i"
  shows "wal_read (Some (wal_text i t (e # es))) = None"
proof -
  have "read_loop (length (encodeWALBase i t)) (entry_text e @ newline # concat (map encodeWALEntry es))
      (wal_of i t []) = Inl (if le_Index e = 0 then wal_error ''zero log index''
        else wal_error ''log index %d is not after base index %d'')"
    using read_loop_line [OF newline_text(2) text_trim(2) text_not_Nil(2), of "length (encodeWALBase i t)" e]
      decode_text assms by (simp add: add_record_def wal_of_def)
  then show ?thesis
    using read_loop_base [of 0 i t "encodeWALEntry e @ concat (map encodeWALEntry es)"]
    by (simp add: wal_read_def wal_text_def encode_text(2) newline_def)
qed


definition snap_1 :: Snapshot where
  "snap_1 = \<lparr>LastIncludedIndex = 1, LastIncludedTerm = 1, Data = None\<rparr>"


definition killed_at_sync :: fs where
  "killed_at_sync = empty_fs\<lparr>faults := [No_fault, No_fault, No_fault, No_fault, No_fault,
     Fault ''killed'' 0] @- sconst No_fault\<rparr>"

lemmas io_defs = bind_io_def catch_io_def return_io_def fail_io_def close_on_error_def os_error_def
  Stat_Size_def ReadFile_def OpenAppend_def Write_def Sync_def Close_def create_def set_names_def
  append_content_def names_def

lemma killed_append:
  "AppendEntries data_files [entry_a] killed_at_sync =
     (Inl (OSError ''killed''),
      \<lparr>versions = [[''data/wal.jsonl'' \<mapsto> 0], Map.empty],
       content = (\<lambda>_. [])(0 := wal_text 0 0 [entry_a]), synced = (\<lambda>_. []), fresh = 1,
       faults = sconst No_fault\<rparr>)"
  by (simp add: AppendEntries_def append_file_def wal_created_def snapshotBaseLocked_def read_optional_def
      readJSONFile_def killed_at_sync_def empty_fs_def data_files_def io_defs call_def zero_Snapshot_def
      wal_text_def fun_upd_def) (simp add: fun_eq_iff)

lemma killed_state:
  assumes "s = \<lparr>versions = [[''data/wal.jsonl'' \<mapsto> 0], Map.empty],
       content = (\<lambda>_. [])(0 := v), synced = (\<lambda>_. []), fresh = 1, faults = sconst No_fault\<rparr>"
  shows "fs_ok s" and "healthy s" and "visible s p = (if p = ''data/wal.jsonl'' then Some v else None)"
    and "power_failure s (empty_fs\<lparr>fresh := 1\<rparr>)"
proof -
  show "fs_ok s"
    by (rule fs_okI) (auto simp: assms can_sync_dir_def names_def inj_on_def split: if_splits)
  show "healthy s" "visible s p = (if p = ''data/wal.jsonl'' then Some v else None)"
    by (simp_all add: assms healthy_def visible_def names_def)
  show "power_failure s (empty_fs\<lparr>fresh := 1\<rparr>)"
    by (auto simp: assms power_failure_def crash_def survives_def can_sync_dir_def empty_fs_def)
qed

lemma Load_unchanged:
  assumes "healthy s" and "visible s (sf_hardState f) = None" and "visible s (sf_snapshot f) = None"
    and "visible s (sf_wal f) = None \<and> w = zero_walData \<or>
      (\<exists>x. visible s (sf_wal f) = Some x \<and> read_loop 0 x zero_walData = Inr (w, None))"
    and "wd_baseIndex w = 0"
  shows "Load f s = (Inr (zero_HardState, wd_entries w, zero_Snapshot), s)"
proof -
  have docs: "hard_of (visible s (sf_hardState f)) = Some zero_HardState"
    "snap_of (visible s (sf_snapshot f)) = Some zero_Snapshot" using assms(2,3) by simp_all
  have "readWAL (sf_wal f) s = (Inr w, s)"
    using assms(1,4)
    by (auto simp: readWAL_def healthy_ReadFile bind_io_def catch_io_def return_io_def)
  then show ?thesis
    using healthy_read_optional [OF assms(1) docs(1)] healthy_read_optional [OF assms(1) docs(2)] assms(5)
    by (simp add: Load_def bind_io_def return_io_def zero_Snapshot_def)
qed


end
