(* ===== verification/Raft_Safety.thy ===== *)
theory Raft_Safety
  imports Raft_Cluster Raft_Run Storage_Properties
begin

text \<open>
  Election safety of a cluster whose nodes store their votes with package storage: the theorem of
  \<open>Raft_Cluster\<close> for the files of \<open>internal/storage/wal.go\<close>.
\<close>

section \<open>Reachable clusters\<close>

context hard_state_store
begin

lemma cluster_reachable_ok:
  assumes "(cluster_step S M power_failure members)\<^sup>*\<^sup>* c0 c" and "cluster_init ok possible storable members c0"
    and "finite members" and "\<forall>i \<in> members. storable i"
  shows "cluster_ok ok possible storable members c"
  using assms(1)
proof (induction rule: rtranclp_induct)
  case base
  show ?case using assms(2) by (rule cluster_init_ok)
next
  case (step a b)
  then show ?case using cluster_step_ok assms(3,4) by blast
qed

lemma leaders_unique:
  assumes "cluster_ok ok possible storable members c" and "finite members"
    and "up c i = Some p" and "up c j = Some q" and "role (pnode p) = Leader" and "role (pnode q) = Leader"
    and "currentTerm (pnode p) = currentTerm (pnode q)"
  shows "i = j"
proof -
  have "(currentTerm (pnode p), i) \<in> elected c" "(currentTerm (pnode q), j) \<in> elected c"
    using cluster_ok_member [OF assms(1,3)] cluster_ok_member [OF assms(1,4)] assms(3-6) by (simp_all add: member_ok_def)
  then show ?thesis using elected_unique [OF assms(2,1)] assms(7) by metis
qed

end

section \<open>Properties\<close>


section \<open>Witness: a node elects itself\<close>

definition ex_cluster :: "(fs, KVStateMachine) cluster" where
  "ex_cluster = \<lparr>up = Map.empty, disk = (\<lambda>_. empty_fs), granted = {}, elected = {}\<rparr>"

lemma ex_cluster_init: "cluster_init (store_ok data_files) (possible_hard_states data_files) valid_utf8 {''a''} ex_cluster"
proof -
  have "possible_hard_states data_files empty_fs = {zero_HardState}"
    using settled_holds [OF empty_fs_ok, of "sf_hardState data_files"] by (auto simp: possible_hard_states_def)
  then show ?thesis
    by (simp add: cluster_init_def ex_cluster_def store_ok_def data_files_ok empty_fs_ok zero_HardState_def)
qed

lemma ex_load:
  obtains s1 where "Store_Load (FileStore data_files) empty_fs = (Inr (zero_HardState, [], zero_Snapshot), s1)"
    "healthy s1" "fs_ok s1" "visible s1 (sf_snapshot data_files) = None"
proof -
  have "succeeds (Load data_files) empty_fs"
    by (rule succeeds_Load [OF empty_fs_healthy data_files_ok empty_fs_ok, of zero_HardState zero_Snapshot zero_walData])
      (simp_all add: zero_walData_def wal_read_def)
  then obtain h es sn s1 where run: "Load data_files empty_fs = (Inr (h, es, sn), s1)" "healthy s1" by (auto simp: succeeds_def)
  note eff = Load_effect [OF data_files_ok empty_fs_ok run(1)]
  have "h = zero_HardState" "sn = zero_Snapshot" "es = []"
    using eff(2) [OF refl] by (auto simp: load_result_def loaded_log_def zero_walData_def zero_Snapshot_def wal_read_def)
  moreover have "fs_ok s1" "visible s1 (sf_snapshot data_files) = None"
    using eff(1) keepsD(1) [OF eff(1), of "sf_snapshot data_files"] data_files_ok by (auto simp: keeps_def files_ok_def)
  ultimately show thesis using that [of s1] run by (simp add: FileStore_def)
qed

lemma ex_save:
  assumes "healthy s" and "fs_ok s" and "visible s (sf_snapshot data_files) = None"
  obtains s1 where "Store_SaveHardState (FileStore data_files) hs s = (None, s1)" "healthy s1"
    "visible s1 (sf_snapshot data_files) = None"
proof -
  obtain u s1 where run: "SaveHardState data_files hs s = (Inr u, s1)" "healthy s1"
    using succeeds_replace_file [OF assms(1,2)] unfolding SaveHardState_def writeJSONAtomic_def by (auto simp: succeeds_def)
  have f: "\<not> is_tmp (sf_hardState data_files)" "\<not> is_tmp (sf_snapshot data_files)"
    "sf_snapshot data_files \<noteq> sf_hardState data_files"
    using data_files_ok by (auto simp: files_ok_def)
  have "keeps {sf_hardState data_files} s s1"
    using replace_file_effect [OF assms(2) f(1)] run(1) unfolding SaveHardState_def writeJSONAtomic_def
    by (metis (mono_tags, lifting) case_prod_conv replaced_by_def)
  then have "visible s1 (sf_snapshot data_files) = None" using keepsD(1) f(2,3) assms(3) by (metis singletonD)
  then show thesis using that [of s1] run by (simp add: FileStore_def err_of_def)
qed

lemma ex_append:
  assumes "healthy s" and "visible s (sf_snapshot data_files) = None"
  obtains s1 where "Store_AppendEntries (FileStore data_files) es s = (None, s1)"
  using succeeds_AppendEntries [OF assms(1), of data_files zero_Snapshot es] assms(2)
  by (auto simp: succeeds_def FileStore_def err_of_def)

definition ex_first :: "fs \<Rightarrow> (fs, KVStateMachine) node" where
  "ex_first s = resetElectionLocked (boot_node (normalizeConfig ex_single_config) zero_HardState [] zero_Snapshot 0 0
     (sconst 0) (sconst 0) s NewKVStateMachine)"

lemma ex_first_stands:
  assumes "Store_SaveHardState (FileStore data_files) \<lparr>hs_CurrentTerm = 1, hs_VotedFor = ''a'', hs_CommitIndex = 0\<rparr> s = (None, s1)"
  shows "startElection_begin (FileStore data_files) (ex_first s) =
    (Some \<lparr>rv_Term = 1, rv_CandidateID = ''a'', rv_LastLogIndex = 0, rv_LastLogTerm = 0\<rparr>,
     (ex_first s)\<lparr>role := Candidate, currentTerm := 1, votedFor := ''a'', store := s1\<rparr>)"
  using assms by (simp add: ex_first_def ex_eval ex_run_defs)

lemma ex_first_wins:
  assumes "Store_AppendEntries (FileStore data_files) [ex_entry 1 1] s1 = (None, s2)"
  shows "\<exists>n. becomeLeader (FileStore data_files) 1
    ((ex_first s)\<lparr>role := Candidate, currentTerm := 1, votedFor := ''a'', store := s1\<rparr>) = (True, n)"
  using assms by (simp add: ex_first_def becomeLeader_def leader_fields_def noop_entry_def lastIndexLocked_def lastIndex_def
      ex_entry_def ex_run_defs)



end
