(* ===== verification/Go_Base64.thy ===== *)
theory Go_Base64
  imports Go_Encoding
begin

text \<open>
  Slices in JSON, as \<open>encoding/json\<close> treats them: an array for a slice, and for a byte slice the
  standard base64 encoding of its bytes (\<open>base64.StdEncoding\<close>).  A nil slice and an empty one are
  both the empty list; the encoder writes the form of an empty one, since the program builds every
  slice it sends with \<open>make\<close>, \<open>json.Marshal\<close> or slicing.
\<close>

section \<open>Base64\<close>

definition b64_digit :: "nat \<Rightarrow> char" where
  "b64_digit n =
     (if n < 26 then char_of (65 + n) else if n < 52 then char_of (71 + n)
      else if n < 62 then char_of (n - 4) else if n = 62 then CHR ''+'' else CHR ''/'')"

definition b64_value :: "char \<Rightarrow> nat option" where
  "b64_value c =
     (let b = byte c in
      if 65 \<le> b \<and> b \<le> 90 then Some (b - 65)
      else if 97 \<le> b \<and> b \<le> 122 then Some (b - 71)
      else if 48 \<le> b \<and> b \<le> 57 then Some (b + 4)
      else if c = CHR ''+'' then Some 62
      else if c = CHR ''/'' then Some 63
      else None)"

fun b64_encode :: "string \<Rightarrow> string" where
  "b64_encode [] = []"
| "b64_encode [a] = [b64_digit (byte a div 4), b64_digit (byte a mod 4 * 16), CHR ''='', CHR ''='']"
| "b64_encode [a, b] =
     [b64_digit (byte a div 4), b64_digit (byte a mod 4 * 16 + byte b div 16), b64_digit (byte b mod 16 * 4), CHR ''='']"
| "b64_encode (a # b # c # s) =
     [b64_digit (byte a div 4), b64_digit (byte a mod 4 * 16 + byte b div 16),
      b64_digit (byte b mod 16 * 4 + byte c div 64), b64_digit (byte c mod 64)] @ b64_encode s"

text \<open>Four digits at a time; padding only at the end.  The bits the padding leaves unused are not
  looked at.\<close>

fun b64_quads :: "string \<Rightarrow> string option" where
  "b64_quads [] = Some []"
| "b64_quads (a # b # c # d # s) =
     (case (b64_value a, b64_value b) of
        (Some w, Some x) \<Rightarrow>
          if c = CHR ''='' then
            (if d = CHR ''='' \<and> s = [] then Some [char_of (w * 4 + x div 16)] else None)
          else (case b64_value c of
            None \<Rightarrow> None
          | Some y \<Rightarrow>
              if d = CHR ''='' then
                (if s = [] then Some [char_of (w * 4 + x div 16), char_of (x mod 16 * 16 + y div 4)] else None)
              else (case b64_value d of
                None \<Rightarrow> None
              | Some z \<Rightarrow>
                  map_option (\<lambda>t. char_of (w * 4 + x div 16) # char_of (x mod 16 * 16 + y div 4) #
                      char_of (y mod 4 * 64 + z) # t) (b64_quads s)))
      | _ \<Rightarrow> None)"
| "b64_quads _ = None"

text \<open>Newlines are skipped.\<close>

definition b64_decode :: "string \<Rightarrow> string option" where
  "b64_decode s = b64_quads (filter (\<lambda>c. c \<noteq> CHR 0x0A \<and> c \<noteq> CHR 0x0D) s)"

section \<open>Slices\<close>

text \<open>An element that was there before is stored into, as \<open>json.Unmarshal\<close> does; a new one starts
  from the zero value.\<close>

fun store_elements :: "'e \<Rightarrow> 'e setter \<Rightarrow> json list \<Rightarrow> 'e list \<Rightarrow> 'e list \<times> bool" where
  "store_elements zero st [] old = ([], True)"
| "store_elements zero st (j # js) old =
     (case st j (case old of [] \<Rightarrow> zero | x # _ \<Rightarrow> x) of (y, ok) \<Rightarrow>
        (case store_elements zero st js (tl old) of (ys, ok') \<Rightarrow> (y # ys, ok \<and> ok')))"

definition store_slice :: "'e \<Rightarrow> 'e setter \<Rightarrow> 'e list setter" where
  "store_slice zero st j old =
     (case j of JNull \<Rightarrow> ([], True) | JArray js \<Rightarrow> store_elements zero st js old | _ \<Rightarrow> (old, False))"

definition store_u8 :: "char setter" where
  "store_u8 j x =
     (case j of
        JNumber t \<Rightarrow> (case parse_uint 8 t of Some n \<Rightarrow> (char_of n, True) | None \<Rightarrow> (x, False))
      | JNull \<Rightarrow> (x, True)
      | _ \<Rightarrow> (x, False))"

definition store_bytes :: "string setter" where
  "store_bytes j old =
     (case j of
        JString s \<Rightarrow> (case b64_decode s of Some b \<Rightarrow> (b, True) | None \<Rightarrow> (old, False))
      | _ \<Rightarrow> store_slice (char_of (0 :: nat)) store_u8 j old)"

definition json_bytes :: "string \<Rightarrow> json" where
  "json_bytes b = JString (b64_encode b)"

text \<open>Storing into a field of a struct.\<close>

definition in_field :: "('a \<Rightarrow> 'f) \<Rightarrow> ('f \<Rightarrow> 'a \<Rightarrow> 'a) \<Rightarrow> 'f setter \<Rightarrow> 'a setter" where
  "in_field get upd st j x = (case st j (get x) of (f, ok) \<Rightarrow> (upd f x, ok))"

section \<open>Decoding inverts encoding\<close>

lemma b64_digit_range: "n < 64 \<Longrightarrow> byte (b64_digit n) < 128 \<and> 43 \<le> byte (b64_digit n)"
  by (auto simp: b64_digit_def byte_char_of byte_def [of "CHR ''+''"] byte_def [of "CHR ''/''"])

lemma b64_value_digit: "n < 64 \<Longrightarrow> b64_value (b64_digit n) = Some n"
  by (auto simp: b64_digit_def b64_value_def byte_char_of Let_def byte_def [of "CHR ''+''"] byte_def [of "CHR ''/''"])

lemma b64_value_pad: "b64_value CHR ''='' = None"
  by (simp add: b64_value_def byte_def)

lemma b64_digit_not_pad: "n < 64 \<Longrightarrow> b64_digit n \<noteq> CHR ''=''"
  using b64_value_digit b64_value_pad by (metis option.distinct(1))

lemma b64_parts:
  "byte a div 4 < 64" "byte a mod 4 * 16 < 64" "byte a mod 4 * 16 + byte b div 16 < 64"
  "byte b mod 16 * 4 < 64" "byte b mod 16 * 4 + byte c div 64 < 64" "byte c mod 64 < 64"
  using byte_less [of a] byte_less [of b] byte_less [of c] by linarith+

lemma b64_small:
  "byte b div 16 div 16 = 0" "byte b div 16 mod 16 = byte b div 16" "byte c div 64 div 4 = 0" "byte c div 64 mod 4 = byte c div 64"
  using byte_less [of b] byte_less [of c] by simp_all

lemma b64_quads_encode: "b64_quads (b64_encode s) = Some s"
proof (induction s rule: b64_encode.induct)
  case (2 a)
  then show ?case by (simp add: b64_value_digit b64_parts)
next
  case (3 a b)
  then show ?case by (simp add: b64_value_digit b64_parts b64_digit_not_pad b64_small)
next
  case (4 a b c s)
  then show ?case by (simp add: b64_value_digit b64_parts b64_digit_not_pad b64_small)
qed simp

lemma b64_encode_chars: "c \<in> set (b64_encode s) \<Longrightarrow> byte c < 128 \<and> 43 \<le> byte c"
  by (induction s rule: b64_encode.induct)
    (use b64_digit_range b64_parts in \<open>fastforce simp: byte_def [of "CHR ''=''"]\<close>)+

lemma b64_roundtrip: "b64_decode (b64_encode s) = Some s"
proof -
  have "filter (\<lambda>c. c \<noteq> CHR 0x0A \<and> c \<noteq> CHR 0x0D) (b64_encode s) = b64_encode s"
    using b64_encode_chars [of _ s] by (force simp: filter_id_conv byte_def)
  then show ?thesis by (simp add: b64_decode_def b64_quads_encode)
qed

lemma store_json_bytes [simp]: "store_bytes (json_bytes b) old = (b, True)"
  by (simp add: store_bytes_def json_bytes_def b64_roundtrip)

lemma wf_json_bytes [simp]: "wf_json (json_bytes b)"
  using b64_encode_chars [of _ b] by (auto simp: json_bytes_def intro: valid_utf8_ascii)

lemma depth_json_bytes [simp]: "json_depth (json_bytes b) = 0"
  by (simp add: json_bytes_def)

lemma store_elements_map:
  assumes "\<And>x. x \<in> set xs \<Longrightarrow> st (enc x) zero = (x, True)"
  shows "store_elements zero st (map enc xs) [] = (xs, True)"
  using assms by (induction xs) auto

end
