(* ===== verification/Api_Messages.thy ===== *)
theory Api_Messages
  imports Storage_Codec Go_Base64
begin

text \<open>
  The messages of the two gRPC services and their codec (\<open>api/rpc.go\<close>).

  A Go struct with JSON tags is a record together with the list of its tagged fields, each with the
  member it is written as and how that member is read; \<open>json.Marshal\<close> and \<open>json.Unmarshal\<close> of the
  codec follow that list.  The structs \<open>LogEntry\<close>, \<open>RequestVoteRequest\<close> and so on of package api have
  the prefix \<open>api_\<close> here, to tell them from those of packages raft and storage.
\<close>

section \<open>Structs with tags\<close>

type_synonym 'a field = "string \<times> ('a \<Rightarrow> json option) \<times> 'a setter"

record 'a msg =
  msg_fields :: "'a field list"
  msg_zero :: 'a

text \<open>The document of a value: a field that is empty and has the option \<open>omitempty\<close> is left out.\<close>

definition msg_json :: "'a msg \<Rightarrow> 'a \<Rightarrow> json" where
  "msg_json m x = JObject (List.map_filter (\<lambda>(k, enc, _). map_option (Pair k) (enc x)) (msg_fields m))"

definition msg_store :: "'a msg \<Rightarrow> 'a setter" where
  "msg_store m = store_struct (map (\<lambda>(k, _, st). (k, st)) (msg_fields m))"

definition string_field :: "string \<Rightarrow> ('a \<Rightarrow> string) \<Rightarrow> ((string \<Rightarrow> string) \<Rightarrow> 'a \<Rightarrow> 'a) \<Rightarrow> 'a field" where
  "string_field k get upd = (k, \<lambda>x. Some (JString (get x)), store_string (\<lambda>s. upd (\<lambda>_. s)))"

definition string_opt :: "string \<Rightarrow> ('a \<Rightarrow> string) \<Rightarrow> ((string \<Rightarrow> string) \<Rightarrow> 'a \<Rightarrow> 'a) \<Rightarrow> 'a field" where
  "string_opt k get upd =
     (k, \<lambda>x. if get x = '''' then None else Some (JString (get x)), store_string (\<lambda>s. upd (\<lambda>_. s)))"

definition bool_field :: "string \<Rightarrow> ('a \<Rightarrow> bool) \<Rightarrow> ((bool \<Rightarrow> bool) \<Rightarrow> 'a \<Rightarrow> 'a) \<Rightarrow> 'a field" where
  "bool_field k get upd = (k, \<lambda>x. Some (JBool (get x)), store_bool (\<lambda>b. upd (\<lambda>_. b)))"

definition u64_field :: "string \<Rightarrow> ('a \<Rightarrow> u64) \<Rightarrow> ((u64 \<Rightarrow> u64) \<Rightarrow> 'a \<Rightarrow> 'a) \<Rightarrow> 'a field" where
  "u64_field k get upd = (k, \<lambda>x. Some (json_u64 (get x)), store_u64 (\<lambda>w. upd (\<lambda>_. w)))"

definition u64_opt :: "string \<Rightarrow> ('a \<Rightarrow> u64) \<Rightarrow> ((u64 \<Rightarrow> u64) \<Rightarrow> 'a \<Rightarrow> 'a) \<Rightarrow> 'a field" where
  "u64_opt k get upd =
     (k, \<lambda>x. if get x = 0 then None else Some (json_u64 (get x)), store_u64 (\<lambda>w. upd (\<lambda>_. w)))"

definition bytes_field :: "string \<Rightarrow> ('a \<Rightarrow> string) \<Rightarrow> ((string \<Rightarrow> string) \<Rightarrow> 'a \<Rightarrow> 'a) \<Rightarrow> 'a field" where
  "bytes_field k get upd = (k, \<lambda>x. Some (json_bytes (get x)), in_field get (\<lambda>b. upd (\<lambda>_. b)) store_bytes)"

text \<open>A map that is nil and one that is empty are the same here, too: the option leaves out both.\<close>

definition map_opt :: "string \<Rightarrow> ('a \<Rightarrow> smap) \<Rightarrow> ((smap \<Rightarrow> smap) \<Rightarrow> 'a \<Rightarrow> 'a) \<Rightarrow> 'a field" where
  "map_opt k get upd =
     (k, \<lambda>x. if get x = fmempty then None else Some (json_map (Some (get x))),
      in_field (\<lambda>x. Some (get x)) (\<lambda>m. upd (\<lambda>_. case m of None \<Rightarrow> fmempty | Some m' \<Rightarrow> m')) store_map)"

definition slice_field :: "string \<Rightarrow> 'e msg \<Rightarrow> ('a \<Rightarrow> 'e list) \<Rightarrow> (('e list \<Rightarrow> 'e list) \<Rightarrow> 'a \<Rightarrow> 'a) \<Rightarrow> 'a field" where
  "slice_field k m get upd =
     (k, \<lambda>x. Some (JArray (map (msg_json m) (get x))),
      in_field get (\<lambda>es. upd (\<lambda>_. es)) (store_slice (msg_zero m) (msg_store m)))"

section \<open>The codec\<close>

definition codec_Marshal :: "'a msg \<Rightarrow> 'a \<Rightarrow> string" where
  "codec_Marshal m x = marshal (msg_json m x)"

text \<open>Unmarshalling into a new value.\<close>

definition codec_Unmarshal :: "'a msg \<Rightarrow> string \<Rightarrow> goerror + 'a" where
  "codec_Unmarshal m data =
     (case unmarshal (msg_store m) data (msg_zero m) of (x, ok) \<Rightarrow> if ok then Inr x else Inl JSONError)"

section \<open>The messages\<close>

record PutRequest =
  pq_Key :: string
  pq_Value :: string

definition PutRequest_msg :: "PutRequest msg" where
  "PutRequest_msg = \<lparr>msg_fields =
       [string_field ''key'' pq_Key pq_Key_update,
        string_field ''value'' pq_Value pq_Value_update],
     msg_zero = \<lparr>pq_Key = '''', pq_Value = ''''\<rparr>\<rparr>"

record PutResponse =
  pr_OK :: bool
  pr_Error :: string
  pr_LeaderID :: string
  pr_LeaderAddress :: string

definition PutResponse_msg :: "PutResponse msg" where
  "PutResponse_msg = \<lparr>msg_fields =
       [bool_field ''ok'' pr_OK pr_OK_update,
        string_opt ''error'' pr_Error pr_Error_update,
        string_opt ''leader_id'' pr_LeaderID pr_LeaderID_update,
        string_opt ''leader_address'' pr_LeaderAddress pr_LeaderAddress_update],
     msg_zero = \<lparr>pr_OK = False, pr_Error = '''', pr_LeaderID = '''', pr_LeaderAddress = ''''\<rparr>\<rparr>"

record GetRequest =
  gq_Key :: string

definition GetRequest_msg :: "GetRequest msg" where
  "GetRequest_msg = \<lparr>msg_fields =
       [string_field ''key'' gq_Key gq_Key_update],
     msg_zero = \<lparr>gq_Key = ''''\<rparr>\<rparr>"

record GetResponse =
  gr_OK :: bool
  gr_Found :: bool
  gr_Value :: string
  gr_Error :: string
  gr_LeaderID :: string
  gr_LeaderAddress :: string

definition GetResponse_msg :: "GetResponse msg" where
  "GetResponse_msg = \<lparr>msg_fields =
       [bool_field ''ok'' gr_OK gr_OK_update,
        bool_field ''found'' gr_Found gr_Found_update,
        string_opt ''value'' gr_Value gr_Value_update,
        string_opt ''error'' gr_Error gr_Error_update,
        string_opt ''leader_id'' gr_LeaderID gr_LeaderID_update,
        string_opt ''leader_address'' gr_LeaderAddress gr_LeaderAddress_update],
     msg_zero = \<lparr>gr_OK = False, gr_Found = False, gr_Value = '''', gr_Error = '''', gr_LeaderID = '''',
       gr_LeaderAddress = ''''\<rparr>\<rparr>"

record DeleteRequest =
  dq_Key :: string

definition DeleteRequest_msg :: "DeleteRequest msg" where
  "DeleteRequest_msg = \<lparr>msg_fields =
       [string_field ''key'' dq_Key dq_Key_update],
     msg_zero = \<lparr>dq_Key = ''''\<rparr>\<rparr>"

record DeleteResponse =
  dr_OK :: bool
  dr_Found :: bool
  dr_PreviousValue :: string
  dr_Error :: string
  dr_LeaderID :: string
  dr_LeaderAddress :: string

definition DeleteResponse_msg :: "DeleteResponse msg" where
  "DeleteResponse_msg = \<lparr>msg_fields =
       [bool_field ''ok'' dr_OK dr_OK_update,
        bool_field ''found'' dr_Found dr_Found_update,
        string_opt ''previous_value'' dr_PreviousValue dr_PreviousValue_update,
        string_opt ''error'' dr_Error dr_Error_update,
        string_opt ''leader_id'' dr_LeaderID dr_LeaderID_update,
        string_opt ''leader_address'' dr_LeaderAddress dr_LeaderAddress_update],
     msg_zero = \<lparr>dr_OK = False, dr_Found = False, dr_PreviousValue = '''', dr_Error = '''', dr_LeaderID = '''',
       dr_LeaderAddress = ''''\<rparr>\<rparr>"

record CASRequest =
  cq_Key :: string
  cq_Expected :: string
  cq_Value :: string

definition CASRequest_msg :: "CASRequest msg" where
  "CASRequest_msg = \<lparr>msg_fields =
       [string_field ''key'' cq_Key cq_Key_update,
        string_field ''expected'' cq_Expected cq_Expected_update,
        string_field ''value'' cq_Value cq_Value_update],
     msg_zero = \<lparr>cq_Key = '''', cq_Expected = '''', cq_Value = ''''\<rparr>\<rparr>"

record CASResponse =
  cr_OK :: bool
  cr_Swapped :: bool
  cr_Found :: bool
  cr_CurrentValue :: string
  cr_Error :: string
  cr_LeaderID :: string
  cr_LeaderAddress :: string

definition CASResponse_msg :: "CASResponse msg" where
  "CASResponse_msg = \<lparr>msg_fields =
       [bool_field ''ok'' cr_OK cr_OK_update,
        bool_field ''swapped'' cr_Swapped cr_Swapped_update,
        bool_field ''found'' cr_Found cr_Found_update,
        string_opt ''current_value'' cr_CurrentValue cr_CurrentValue_update,
        string_opt ''error'' cr_Error cr_Error_update,
        string_opt ''leader_id'' cr_LeaderID cr_LeaderID_update,
        string_opt ''leader_address'' cr_LeaderAddress cr_LeaderAddress_update],
     msg_zero = \<lparr>cr_OK = False, cr_Swapped = False, cr_Found = False, cr_CurrentValue = '''', cr_Error = '''',
       cr_LeaderID = '''', cr_LeaderAddress = ''''\<rparr>\<rparr>"

record StatusResponse =
  sr_NodeID :: string
  sr_State :: string
  sr_Term :: u64
  sr_LeaderID :: string
  sr_LeaderAddress :: string
  sr_CommitIndex :: u64
  sr_LastApplied :: u64
  sr_LastLogIndex :: u64
  sr_SnapshotIndex :: u64
  sr_Peers :: smap

definition StatusResponse_msg :: "StatusResponse msg" where
  "StatusResponse_msg = \<lparr>msg_fields =
       [string_field ''node_id'' sr_NodeID sr_NodeID_update,
        string_field ''state'' sr_State sr_State_update,
        u64_field ''term'' sr_Term sr_Term_update,
        string_opt ''leader_id'' sr_LeaderID sr_LeaderID_update,
        string_opt ''leader_address'' sr_LeaderAddress sr_LeaderAddress_update,
        u64_field ''commit_index'' sr_CommitIndex sr_CommitIndex_update,
        u64_field ''last_applied'' sr_LastApplied sr_LastApplied_update,
        u64_field ''last_log_index'' sr_LastLogIndex sr_LastLogIndex_update,
        u64_field ''snapshot_index'' sr_SnapshotIndex sr_SnapshotIndex_update,
        map_opt ''peers'' sr_Peers sr_Peers_update],
     msg_zero = \<lparr>sr_NodeID = '''', sr_State = '''', sr_Term = 0, sr_LeaderID = '''', sr_LeaderAddress = '''',
       sr_CommitIndex = 0, sr_LastApplied = 0, sr_LastLogIndex = 0, sr_SnapshotIndex = 0, sr_Peers = fmempty\<rparr>\<rparr>"

record api_LogEntry =
  al_Index :: u64
  al_Term :: u64
  al_Command :: string

definition api_LogEntry_msg :: "api_LogEntry msg" where
  "api_LogEntry_msg = \<lparr>msg_fields =
       [u64_field ''index'' al_Index al_Index_update,
        u64_field ''term'' al_Term al_Term_update,
        bytes_field ''command'' al_Command al_Command_update],
     msg_zero = \<lparr>al_Index = 0, al_Term = 0, al_Command = []\<rparr>\<rparr>"

record api_RequestVoteRequest =
  av_Term :: u64
  av_CandidateID :: string
  av_LastLogIndex :: u64
  av_LastLogTerm :: u64

definition api_RequestVoteRequest_msg :: "api_RequestVoteRequest msg" where
  "api_RequestVoteRequest_msg = \<lparr>msg_fields =
       [u64_field ''term'' av_Term av_Term_update,
        string_field ''candidate_id'' av_CandidateID av_CandidateID_update,
        u64_field ''last_log_index'' av_LastLogIndex av_LastLogIndex_update,
        u64_field ''last_log_term'' av_LastLogTerm av_LastLogTerm_update],
     msg_zero = \<lparr>av_Term = 0, av_CandidateID = '''', av_LastLogIndex = 0, av_LastLogTerm = 0\<rparr>\<rparr>"

record api_RequestVoteResponse =
  avr_Term :: u64
  avr_VoteGranted :: bool

definition api_RequestVoteResponse_msg :: "api_RequestVoteResponse msg" where
  "api_RequestVoteResponse_msg = \<lparr>msg_fields =
       [u64_field ''term'' avr_Term avr_Term_update,
        bool_field ''vote_granted'' avr_VoteGranted avr_VoteGranted_update],
     msg_zero = \<lparr>avr_Term = 0, avr_VoteGranted = False\<rparr>\<rparr>"

record api_AppendEntriesRequest =
  aa_Term :: u64
  aa_LeaderID :: string
  aa_PrevLogIndex :: u64
  aa_PrevLogTerm :: u64
  aa_Entries :: "api_LogEntry list"
  aa_LeaderCommit :: u64

definition api_AppendEntriesRequest_msg :: "api_AppendEntriesRequest msg" where
  "api_AppendEntriesRequest_msg = \<lparr>msg_fields =
       [u64_field ''term'' aa_Term aa_Term_update,
        string_field ''leader_id'' aa_LeaderID aa_LeaderID_update,
        u64_field ''prev_log_index'' aa_PrevLogIndex aa_PrevLogIndex_update,
        u64_field ''prev_log_term'' aa_PrevLogTerm aa_PrevLogTerm_update,
        slice_field ''entries'' api_LogEntry_msg aa_Entries aa_Entries_update,
        u64_field ''leader_commit'' aa_LeaderCommit aa_LeaderCommit_update],
     msg_zero = \<lparr>aa_Term = 0, aa_LeaderID = '''', aa_PrevLogIndex = 0, aa_PrevLogTerm = 0, aa_Entries = [],
       aa_LeaderCommit = 0\<rparr>\<rparr>"

record api_AppendEntriesResponse =
  aar_Term :: u64
  aar_Success :: bool
  aar_ConflictIndex :: u64
  aar_MatchIndex :: u64

definition api_AppendEntriesResponse_msg :: "api_AppendEntriesResponse msg" where
  "api_AppendEntriesResponse_msg = \<lparr>msg_fields =
       [u64_field ''term'' aar_Term aar_Term_update,
        bool_field ''success'' aar_Success aar_Success_update,
        u64_opt ''conflict_index'' aar_ConflictIndex aar_ConflictIndex_update,
        u64_opt ''match_index'' aar_MatchIndex aar_MatchIndex_update],
     msg_zero = \<lparr>aar_Term = 0, aar_Success = False, aar_ConflictIndex = 0, aar_MatchIndex = 0\<rparr>\<rparr>"

record api_InstallSnapshotRequest =
  ai_Term :: u64
  ai_LeaderID :: string
  ai_LastIncludedIndex :: u64
  ai_LastIncludedTerm :: u64
  ai_Offset :: u64
  ai_Data :: string
  ai_Done :: bool

definition api_InstallSnapshotRequest_msg :: "api_InstallSnapshotRequest msg" where
  "api_InstallSnapshotRequest_msg = \<lparr>msg_fields =
       [u64_field ''term'' ai_Term ai_Term_update,
        string_field ''leader_id'' ai_LeaderID ai_LeaderID_update,
        u64_field ''last_included_index'' ai_LastIncludedIndex ai_LastIncludedIndex_update,
        u64_field ''last_included_term'' ai_LastIncludedTerm ai_LastIncludedTerm_update,
        u64_field ''offset'' ai_Offset ai_Offset_update,
        bytes_field ''data'' ai_Data ai_Data_update,
        bool_field ''done'' ai_Done ai_Done_update],
     msg_zero = \<lparr>ai_Term = 0, ai_LeaderID = '''', ai_LastIncludedIndex = 0, ai_LastIncludedTerm = 0, ai_Offset = 0,
       ai_Data = [], ai_Done = False\<rparr>\<rparr>"

record api_InstallSnapshotResponse =
  air_Term :: u64
  air_Success :: bool
  air_BytesReceived :: u64

definition api_InstallSnapshotResponse_msg :: "api_InstallSnapshotResponse msg" where
  "api_InstallSnapshotResponse_msg = \<lparr>msg_fields =
       [u64_field ''term'' air_Term air_Term_update,
        bool_field ''success'' air_Success air_Success_update,
        u64_opt ''bytes_received'' air_BytesReceived air_BytesReceived_update],
     msg_zero = \<lparr>air_Term = 0, air_Success = False, air_BytesReceived = 0\<rparr>\<rparr>"

text \<open>\<open>StatusRequest\<close> has no fields.\<close>

definition StatusRequest_msg :: "unit msg" where
  "StatusRequest_msg = \<lparr>msg_fields = [], msg_zero = ()\<rparr>"

section \<open>What every message keeps\<close>

text \<open>The contract of a message: what is written is read back, and its document is not nested
  deeper than the parser goes.\<close>

locale json_message =
  fixes m :: "'a msg"
  assumes stores: "msg_store m (msg_json m x) (msg_zero m) = (x, True)"
    and depth: "json_depth (msg_json m x) \<le> 3"
begin

lemma codec_roundtrip:
  assumes "wf_json (msg_json m x)"
  shows "codec_Unmarshal m (codec_Marshal m x) = Inr x"
  using parse_print [OF assms] depth [of x]
  by (simp add: codec_Unmarshal_def codec_Marshal_def unmarshal_def marshal_def maxNestingDepth_def stores)

end

lemma fold_api_names [simp]:
  "fold_name ''bytes_received'' = ''BYTES_RECEIVED''"
  "fold_name ''candidate_id'' = ''CANDIDATE_ID''"
  "fold_name ''conflict_index'' = ''CONFLICT_INDEX''"
  "fold_name ''current_value'' = ''CURRENT_VALUE''"
  "fold_name ''done'' = ''DONE''"
  "fold_name ''entries'' = ''ENTRIES''"
  "fold_name ''error'' = ''ERROR''"
  "fold_name ''found'' = ''FOUND''"
  "fold_name ''last_applied'' = ''LAST_APPLIED''"
  "fold_name ''last_log_index'' = ''LAST_LOG_INDEX''"
  "fold_name ''last_log_term'' = ''LAST_LOG_TERM''"
  "fold_name ''leader_address'' = ''LEADER_ADDRESS''"
  "fold_name ''leader_commit'' = ''LEADER_COMMIT''"
  "fold_name ''leader_id'' = ''LEADER_ID''"
  "fold_name ''match_index'' = ''MATCH_INDEX''"
  "fold_name ''node_id'' = ''NODE_ID''"
  "fold_name ''offset'' = ''OFFSET''"
  "fold_name ''ok'' = ''OK''"
  "fold_name ''peers'' = ''PEERS''"
  "fold_name ''prev_log_index'' = ''PREV_LOG_INDEX''"
  "fold_name ''prev_log_term'' = ''PREV_LOG_TERM''"
  "fold_name ''previous_value'' = ''PREVIOUS_VALUE''"
  "fold_name ''snapshot_index'' = ''SNAPSHOT_INDEX''"
  "fold_name ''state'' = ''STATE''"
  "fold_name ''success'' = ''SUCCESS''"
  "fold_name ''swapped'' = ''SWAPPED''"
  "fold_name ''vote_granted'' = ''VOTE_GRANTED''"
  by code_simp+

lemma valid_api_names [simp]:
  "valid_utf8 ''bytes_received''"
  "valid_utf8 ''candidate_id''"
  "valid_utf8 ''conflict_index''"
  "valid_utf8 ''current_value''"
  "valid_utf8 ''done''"
  "valid_utf8 ''entries''"
  "valid_utf8 ''error''"
  "valid_utf8 ''found''"
  "valid_utf8 ''last_applied''"
  "valid_utf8 ''last_log_index''"
  "valid_utf8 ''last_log_term''"
  "valid_utf8 ''leader_address''"
  "valid_utf8 ''leader_commit''"
  "valid_utf8 ''leader_id''"
  "valid_utf8 ''match_index''"
  "valid_utf8 ''node_id''"
  "valid_utf8 ''offset''"
  "valid_utf8 ''ok''"
  "valid_utf8 ''peers''"
  "valid_utf8 ''prev_log_index''"
  "valid_utf8 ''prev_log_term''"
  "valid_utf8 ''previous_value''"
  "valid_utf8 ''snapshot_index''"
  "valid_utf8 ''state''"
  "valid_utf8 ''success''"
  "valid_utf8 ''swapped''"
  "valid_utf8 ''vote_granted''"
  by (rule valid_utf8_ascii, simp add: byte_def)+

lemmas field_defs = store_struct_def string_field_def string_opt_def bool_field_def u64_field_def u64_opt_def
  bytes_field_def map_opt_def slice_field_def in_field_def List.map_filter_simps

lemmas message_defs = msg_store_def msg_json_def field_defs

lemma store_bool_json [simp]: "store_bool upd (JBool b) x = (upd b x, True)"
  by (simp add: store_bool_def)

lemma store_map_json_empty: "store_map (json_map (Some d)) (Some fmempty) = (Some d, True)"
  using store_map_json [of "Some d"] by (simp add: store_map_def json_map_def)

lemma depth_json_map: "json_depth (json_map m) \<le> 1"
proof (cases m)
  case (Some d)
  have "json_depth (JObject (map (\<lambda>(k, v). (k, JString v)) (sorted_list_of_fmap d))) \<le> Suc 0"
    by (rule depth_JObject_le) auto
  then show ?thesis using Some by (simp add: json_map_def)
qed (simp add: json_map_def)

lemma depth_members:
  assumes "\<And>k enc st j. (k, enc, st) \<in> set (msg_fields m) \<Longrightarrow> enc x = Some j \<Longrightarrow> json_depth j \<le> n"
  shows "json_depth (msg_json m x) \<le> Suc n"
  unfolding msg_json_def
  by (rule depth_JObject_le) (use assms in \<open>fastforce simp: List.map_filter_def\<close>)

lemma message_flat:
  assumes "\<And>x k enc st j. (k, enc, st) \<in> set (msg_fields m) \<Longrightarrow> enc x = Some j \<Longrightarrow> json_depth j \<le> 1"
  shows "json_depth (msg_json m x) \<le> 2"
  using depth_members [of m x 1] assms by (simp add: numeral_2_eq_2)

interpretation pq: json_message PutRequest_msg
  by unfold_locales (auto simp: message_defs PutRequest_msg_def split: if_splits)

interpretation pr: json_message PutResponse_msg
  by unfold_locales (auto simp: message_defs PutResponse_msg_def split: if_splits)

interpretation gq: json_message GetRequest_msg
  by unfold_locales (auto simp: message_defs GetRequest_msg_def split: if_splits)

interpretation gr: json_message GetResponse_msg
  by unfold_locales (auto simp: message_defs GetResponse_msg_def split: if_splits)

interpretation dq: json_message DeleteRequest_msg
  by unfold_locales (auto simp: message_defs DeleteRequest_msg_def split: if_splits)

interpretation dr: json_message DeleteResponse_msg
  by unfold_locales (auto simp: message_defs DeleteResponse_msg_def split: if_splits)

interpretation cq: json_message CASRequest_msg
  by unfold_locales (auto simp: message_defs CASRequest_msg_def split: if_splits)

interpretation cr: json_message CASResponse_msg
  by unfold_locales (auto simp: message_defs CASResponse_msg_def split: if_splits)

interpretation sr: json_message StatusResponse_msg
proof
  fix x
  show "msg_store StatusResponse_msg (msg_json StatusResponse_msg x) (msg_zero StatusResponse_msg) = (x, True)"
    by (simp add: message_defs StatusResponse_msg_def store_map_json_empty split: option.split)
  have "json_depth j \<le> 1" if "(k, enc, st) \<in> set (msg_fields StatusResponse_msg)" "enc x = Some j" for x k enc st j
    using that depth_json_map
    by (auto simp: StatusResponse_msg_def string_field_def string_opt_def u64_field_def map_opt_def split: if_splits)
  then show "json_depth (msg_json StatusResponse_msg x) \<le> 3" using message_flat [of StatusResponse_msg x] by fastforce
qed

interpretation al: json_message api_LogEntry_msg
  by unfold_locales (auto simp: message_defs api_LogEntry_msg_def split: if_splits)

interpretation av: json_message api_RequestVoteRequest_msg
  by unfold_locales (auto simp: message_defs api_RequestVoteRequest_msg_def split: if_splits)

interpretation avr: json_message api_RequestVoteResponse_msg
  by unfold_locales (auto simp: message_defs api_RequestVoteResponse_msg_def split: if_splits)

lemma depth_api_LogEntry: "json_depth (msg_json api_LogEntry_msg e) \<le> 1"
  by (simp add: message_defs api_LogEntry_msg_def)

interpretation aa: json_message api_AppendEntriesRequest_msg
proof
  fix x
  have "store_elements (msg_zero api_LogEntry_msg) (msg_store api_LogEntry_msg) (map (msg_json api_LogEntry_msg) es) [] = (es, True)" for es
    by (rule store_elements_map) (rule al.stores)
  then have es: "store_slice (msg_zero api_LogEntry_msg) (msg_store api_LogEntry_msg) (JArray (map (msg_json api_LogEntry_msg) es)) [] = (es, True)" for es
    by (simp add: store_slice_def)
  show "msg_store api_AppendEntriesRequest_msg (msg_json api_AppendEntriesRequest_msg x) (msg_zero api_AppendEntriesRequest_msg) = (x, True)"
    unfolding msg_store_def [of api_AppendEntriesRequest_msg] msg_json_def [of api_AppendEntriesRequest_msg]
    by (simp add: field_defs api_AppendEntriesRequest_msg_def es)
  have arr: "json_depth (JArray (map (msg_json api_LogEntry_msg) es)) \<le> 2" for es
    using depth_api_LogEntry by (auto intro!: Max.boundedI)
  have "json_depth j \<le> 2" if "(k, enc, st) \<in> set (msg_fields api_AppendEntriesRequest_msg)" "enc x = Some j" for k enc st j
    using that arr [of "aa_Entries x"] unfolding api_AppendEntriesRequest_msg_def slice_field_def u64_field_def string_field_def
    by (auto simp del: json_depth.simps(1,2))
  from depth_members [OF this] show "json_depth (msg_json api_AppendEntriesRequest_msg x) \<le> 3" by fastforce
qed

interpretation aar: json_message api_AppendEntriesResponse_msg
  by unfold_locales (auto simp: message_defs api_AppendEntriesResponse_msg_def split: if_splits)

interpretation ai: json_message api_InstallSnapshotRequest_msg
  by unfold_locales (auto simp: message_defs api_InstallSnapshotRequest_msg_def split: if_splits)

interpretation air: json_message api_InstallSnapshotResponse_msg
  by unfold_locales (auto simp: message_defs api_InstallSnapshotResponse_msg_def split: if_splits)

interpretation st: json_message StatusRequest_msg
  by unfold_locales (simp_all add: message_defs StatusRequest_msg_def)

text \<open>A message can be written and read back when its strings are valid UTF-8; byte slices may
  hold anything.\<close>

lemma wf_peer_messages [simp]:
  "wf_json (msg_json api_LogEntry_msg e)"
  "wf_json (msg_json api_RequestVoteRequest_msg v) \<longleftrightarrow> valid_utf8 (av_CandidateID v)"
  "wf_json (msg_json api_RequestVoteResponse_msg vr)"
  "wf_json (msg_json api_AppendEntriesRequest_msg a) \<longleftrightarrow> valid_utf8 (aa_LeaderID a)"
  "wf_json (msg_json api_AppendEntriesResponse_msg ar)"
  "wf_json (msg_json api_InstallSnapshotRequest_msg i) \<longleftrightarrow> valid_utf8 (ai_LeaderID i)"
  "wf_json (msg_json api_InstallSnapshotResponse_msg ir)"
  by (simp_all add: message_defs api_LogEntry_msg_def api_RequestVoteRequest_msg_def api_RequestVoteResponse_msg_def
      api_AppendEntriesRequest_msg_def api_AppendEntriesResponse_msg_def api_InstallSnapshotRequest_msg_def
      api_InstallSnapshotResponse_msg_def list_all_iff)

lemma wf_client_messages [simp]:
  "wf_json (msg_json PutRequest_msg pq) \<longleftrightarrow> valid_utf8 (pq_Key pq) \<and> valid_utf8 (pq_Value pq)"
  "wf_json (msg_json PutResponse_msg pr) \<longleftrightarrow>
     valid_utf8 (pr_Error pr) \<and> valid_utf8 (pr_LeaderID pr) \<and> valid_utf8 (pr_LeaderAddress pr)"
  "wf_json (msg_json GetRequest_msg gq) \<longleftrightarrow> valid_utf8 (gq_Key gq)"
  "wf_json (msg_json GetResponse_msg gr) \<longleftrightarrow> valid_utf8 (gr_Value gr) \<and>
     valid_utf8 (gr_Error gr) \<and> valid_utf8 (gr_LeaderID gr) \<and> valid_utf8 (gr_LeaderAddress gr)"
  "wf_json (msg_json DeleteRequest_msg dq) \<longleftrightarrow> valid_utf8 (dq_Key dq)"
  "wf_json (msg_json DeleteResponse_msg dr) \<longleftrightarrow> valid_utf8 (dr_PreviousValue dr) \<and>
     valid_utf8 (dr_Error dr) \<and> valid_utf8 (dr_LeaderID dr) \<and> valid_utf8 (dr_LeaderAddress dr)"
  "wf_json (msg_json CASRequest_msg cq) \<longleftrightarrow>
     valid_utf8 (cq_Key cq) \<and> valid_utf8 (cq_Expected cq) \<and> valid_utf8 (cq_Value cq)"
  "wf_json (msg_json CASResponse_msg cr) \<longleftrightarrow> valid_utf8 (cr_CurrentValue cr) \<and>
     valid_utf8 (cr_Error cr) \<and> valid_utf8 (cr_LeaderID cr) \<and> valid_utf8 (cr_LeaderAddress cr)"
  by (auto simp add: message_defs PutRequest_msg_def PutResponse_msg_def GetRequest_msg_def GetResponse_msg_def
      DeleteRequest_msg_def DeleteResponse_msg_def CASRequest_msg_def CASResponse_msg_def)

end
