(* ===== verification/Api_RPC.thy ===== *)
theory Api_RPC
  imports Api_Messages
begin

text \<open>
  Remote calls (\<open>api/rpc.go\<close>): the handlers that are registered with a gRPC server, the client stubs,
  and what a call comes to.

  gRPC itself is a parameter.  A connection takes the name of a method and the bytes of the request
  to the bytes of the response or an error, and changes the state of the server it leads to.  What
  the program relies on is in \<open>delivers\<close>: the handler registered for the method runs at most once, on
  the bytes that were sent; a response is the one it gave; and after an error it may have run or not.
\<close>

section \<open>Serving\<close>

type_synonym ('req, 'resp, 's) rpc_method = "'req \<Rightarrow> 's \<Rightarrow> (goerror + 'resp) \<times> 's"

text \<open>\<open>decoded\<close> is what decoding the request gave; the server of this program has no interceptor.\<close>

definition unaryHandler :: "('req, 'resp, 's) rpc_method \<Rightarrow> (goerror + 'req) \<Rightarrow>
    ('req \<Rightarrow> ('req, 'resp, 's) rpc_method \<Rightarrow> 's \<Rightarrow> (goerror + 'resp) \<times> 's) option \<Rightarrow> 's \<Rightarrow> (goerror + 'resp) \<times> 's" where
  "unaryHandler fn decoded interceptor s =
     (case decoded of
        Inl err \<Rightarrow> (Inl err, s)
      | Inr req \<Rightarrow>
          (case interceptor of
             None \<Rightarrow> fn req s
           | Some icpt \<Rightarrow> icpt req (\<lambda>request. fn request) s))"

type_synonym 's handler = "string \<Rightarrow> 's \<Rightarrow> (goerror + string) \<times> 's"

text \<open>A registered method: the codec of the content subtype \<open>json\<close> around its handler.\<close>

definition served :: "'req msg \<Rightarrow> 'resp msg \<Rightarrow> ('req, 'resp, 's) rpc_method \<Rightarrow> 's handler" where
  "served mq mr fn data s =
     (case unaryHandler fn (codec_Unmarshal mq data) None s of
        (Inl err, s1) \<Rightarrow> (Inl err, s1)
      | (Inr resp, s1) \<Rightarrow> (Inr (codec_Marshal mr resp), s1))"

type_synonym 's ServiceDesc = "(string \<times> 's handler) list"

record 's KVServiceServer =
  KV_Put :: "(PutRequest, PutResponse, 's) rpc_method"
  KV_Get :: "(GetRequest, GetResponse, 's) rpc_method"
  KV_Delete :: "(DeleteRequest, DeleteResponse, 's) rpc_method"
  KV_CAS :: "(CASRequest, CASResponse, 's) rpc_method"
  KV_Status :: "(unit, StatusResponse, 's) rpc_method"

definition RegisterKVServiceServer :: "'s KVServiceServer \<Rightarrow> 's ServiceDesc" where
  "RegisterKVServiceServer service =
     [(''/raftkv.v1.KV/Put'', served PutRequest_msg PutResponse_msg (KV_Put service)),
      (''/raftkv.v1.KV/Get'', served GetRequest_msg GetResponse_msg (KV_Get service)),
      (''/raftkv.v1.KV/Delete'', served DeleteRequest_msg DeleteResponse_msg (KV_Delete service)),
      (''/raftkv.v1.KV/CAS'', served CASRequest_msg CASResponse_msg (KV_CAS service)),
      (''/raftkv.v1.KV/Status'', served StatusRequest_msg StatusResponse_msg (KV_Status service))]"

record 's RaftPeerServiceServer =
  Peer_RequestVote :: "(api_RequestVoteRequest, api_RequestVoteResponse, 's) rpc_method"
  Peer_AppendEntries :: "(api_AppendEntriesRequest, api_AppendEntriesResponse, 's) rpc_method"
  Peer_InstallSnapshot :: "(api_InstallSnapshotRequest, api_InstallSnapshotResponse, 's) rpc_method"

definition RegisterRaftPeerServiceServer :: "'s RaftPeerServiceServer \<Rightarrow> 's ServiceDesc" where
  "RegisterRaftPeerServiceServer service =
     [(''/raftkv.v1.RaftPeer/RequestVote'',
         served api_RequestVoteRequest_msg api_RequestVoteResponse_msg (Peer_RequestVote service)),
      (''/raftkv.v1.RaftPeer/AppendEntries'',
         served api_AppendEntriesRequest_msg api_AppendEntriesResponse_msg (Peer_AppendEntries service)),
      (''/raftkv.v1.RaftPeer/InstallSnapshot'',
         served api_InstallSnapshotRequest_msg api_InstallSnapshotResponse_msg (Peer_InstallSnapshot service))]"

section \<open>Calling\<close>

type_synonym 's conn = "string \<Rightarrow> string \<Rightarrow> 's \<Rightarrow> (goerror + string) \<times> 's"

definition invoke :: "'req msg \<Rightarrow> 'resp msg \<Rightarrow> 's conn \<Rightarrow> string \<Rightarrow> 'req \<Rightarrow> 's \<Rightarrow> (goerror + 'resp) \<times> 's" where
  "invoke mq mr conn method req s =
     (case conn method (codec_Marshal mq req) s of
        (Inl err, s1) \<Rightarrow> (Inl err, s1)
      | (Inr data, s1) \<Rightarrow> (codec_Unmarshal mr data, s1))"

definition KVClient_Put :: "'s conn \<Rightarrow> PutRequest \<Rightarrow> 's \<Rightarrow> (goerror + PutResponse) \<times> 's" where
  "KVClient_Put conn = invoke PutRequest_msg PutResponse_msg conn ''/raftkv.v1.KV/Put''"

definition KVClient_Get :: "'s conn \<Rightarrow> GetRequest \<Rightarrow> 's \<Rightarrow> (goerror + GetResponse) \<times> 's" where
  "KVClient_Get conn = invoke GetRequest_msg GetResponse_msg conn ''/raftkv.v1.KV/Get''"

definition KVClient_Delete :: "'s conn \<Rightarrow> DeleteRequest \<Rightarrow> 's \<Rightarrow> (goerror + DeleteResponse) \<times> 's" where
  "KVClient_Delete conn = invoke DeleteRequest_msg DeleteResponse_msg conn ''/raftkv.v1.KV/Delete''"

definition KVClient_CAS :: "'s conn \<Rightarrow> CASRequest \<Rightarrow> 's \<Rightarrow> (goerror + CASResponse) \<times> 's" where
  "KVClient_CAS conn = invoke CASRequest_msg CASResponse_msg conn ''/raftkv.v1.KV/CAS''"

definition KVClient_Status :: "'s conn \<Rightarrow> unit \<Rightarrow> 's \<Rightarrow> (goerror + StatusResponse) \<times> 's" where
  "KVClient_Status conn = invoke StatusRequest_msg StatusResponse_msg conn ''/raftkv.v1.KV/Status''"

definition RaftPeerClient_RequestVote :: "'s conn \<Rightarrow> api_RequestVoteRequest \<Rightarrow> 's \<Rightarrow>
    (goerror + api_RequestVoteResponse) \<times> 's" where
  "RaftPeerClient_RequestVote conn =
     invoke api_RequestVoteRequest_msg api_RequestVoteResponse_msg conn ''/raftkv.v1.RaftPeer/RequestVote''"

definition RaftPeerClient_AppendEntries :: "'s conn \<Rightarrow> api_AppendEntriesRequest \<Rightarrow> 's \<Rightarrow>
    (goerror + api_AppendEntriesResponse) \<times> 's" where
  "RaftPeerClient_AppendEntries conn =
     invoke api_AppendEntriesRequest_msg api_AppendEntriesResponse_msg conn ''/raftkv.v1.RaftPeer/AppendEntries''"

definition RaftPeerClient_InstallSnapshot :: "'s conn \<Rightarrow> api_InstallSnapshotRequest \<Rightarrow> 's \<Rightarrow>
    (goerror + api_InstallSnapshotResponse) \<times> 's" where
  "RaftPeerClient_InstallSnapshot conn =
     invoke api_InstallSnapshotRequest_msg api_InstallSnapshotResponse_msg conn ''/raftkv.v1.RaftPeer/InstallSnapshot''"

section \<open>What a call comes to\<close>

definition delivers :: "'s conn \<Rightarrow> 's ServiceDesc \<Rightarrow> bool" where
  "delivers conn desc \<longleftrightarrow> (\<forall>method data s h. map_of desc method = Some h \<longrightarrow>
     (case conn method data s of
        (Inr resp, s1) \<Rightarrow> h data s = (Inr resp, s1)
      | (Inl err, s1) \<Rightarrow> s1 = s \<or> s1 = snd (h data s)))"

text \<open>A connection on which no call fails.\<close>

definition reliable :: "'s conn \<Rightarrow> 's ServiceDesc \<Rightarrow> bool" where
  "reliable conn desc \<longleftrightarrow> (\<forall>method data s h. map_of desc method = Some h \<longrightarrow> conn method data s = h data s)"

lemma deliversD:
  assumes "delivers conn desc" and "map_of desc method = Some h" and "conn method data s = (out, s1)"
  shows "(\<exists>err. out = Inl err \<and> (s1 = s \<or> s1 = snd (h data s))) \<or> (\<exists>resp. out = Inr resp \<and> h data s = (Inr resp, s1))"
proof -
  have "case (out, s1) of (Inr resp, s1) \<Rightarrow> h data s = (Inr resp, s1) | (Inl err, s1) \<Rightarrow> s1 = s \<or> s1 = snd (h data s)"
    using assms(1) unfolding delivers_def by (elim allE impE) (rule assms(2), subst assms(3) [symmetric], assumption)
  then show ?thesis by (cases out) simp_all
qed

lemma reliable_delivers: "reliable conn desc \<Longrightarrow> delivers conn desc"
  by (auto simp: reliable_def delivers_def split: prod.split sum.split)

text \<open>The outcomes of a call of \<open>fn\<close> over a network: its answer, or an error with \<open>fn\<close> run or not.\<close>

definition at_most_once :: "('req, 'resp, 's) rpc_method \<Rightarrow> 'req \<Rightarrow> 's \<Rightarrow> (goerror + 'resp) \<times> 's \<Rightarrow> bool" where
  "at_most_once fn req s out \<longleftrightarrow> out = fn req s \<or> (\<exists>err. out = (Inl err, s) \<or> out = (Inl err, snd (fn req s)))"

locale rpc = req: json_message mq + resp: json_message mr
  for mq :: "'req msg" and mr :: "'resp msg"
begin

lemma served_encoded:
  assumes "wf_json (msg_json mq req)"
  shows "served mq mr fn (codec_Marshal mq req) s =
    (case fn req s of (Inl err, s1) \<Rightarrow> (Inl err, s1) | (Inr resp, s1) \<Rightarrow> (Inr (codec_Marshal mr resp), s1))"
  by (simp add: served_def unaryHandler_def req.codec_roundtrip [OF assms])

lemma invoke_at_most_once:
  assumes "delivers conn desc" and "map_of desc method = Some (served mq mr fn)" and "wf_json (msg_json mq req)"
    and "\<And>r. fst (fn req s) = Inr r \<Longrightarrow> wf_json (msg_json mr r)"
  shows "at_most_once fn req s (invoke mq mr conn method req s)"
proof -
  obtain out s1 where out: "conn method (codec_Marshal mq req) s = (out, s1)" by fastforce
  obtain ans s2 where fn: "fn req s = (ans, s2)" by fastforce
  from deliversD [OF assms(1,2) out]
  consider (failed) err where "out = Inl err" "s1 = s \<or> s1 = snd (served mq mr fn (codec_Marshal mq req) s)"
    | (answered) data where "out = Inr data" "served mq mr fn (codec_Marshal mq req) s = (Inr data, s1)" by blast
  then show ?thesis
  proof cases
    case failed
    then show ?thesis using out fn
      by (auto simp: at_most_once_def invoke_def served_encoded [OF assms(3), of fn s] split: sum.splits)
  next
    case answered
    then obtain r where r: "ans = Inr r" "data = codec_Marshal mr r" "s1 = s2"
      using fn by (auto simp: served_encoded [OF assms(3), of fn s] split: sum.splits)
    then have "codec_Unmarshal mr data = Inr r" using assms(4) fn resp.codec_roundtrip by simp
    then show ?thesis using answered(1) out fn r by (simp add: at_most_once_def invoke_def)
  qed
qed

lemma invoke_reliable:
  assumes "reliable conn desc" and "map_of desc method = Some (served mq mr fn)" and "wf_json (msg_json mq req)"
    and "fn req s = (Inr r, s1)" and "wf_json (msg_json mr r)"
  shows "invoke mq mr conn method req s = (Inr r, s1)"
  using assms served_encoded [OF assms(3), of fn s] resp.codec_roundtrip [OF assms(5)] by (simp add: invoke_def reliable_def)

end

interpretation rpc_RequestVote: rpc api_RequestVoteRequest_msg api_RequestVoteResponse_msg
  by (simp add: rpc_def av.json_message_axioms avr.json_message_axioms)

interpretation rpc_AppendEntries: rpc api_AppendEntriesRequest_msg api_AppendEntriesResponse_msg
  by (simp add: rpc_def aa.json_message_axioms aar.json_message_axioms)

interpretation rpc_InstallSnapshot: rpc api_InstallSnapshotRequest_msg api_InstallSnapshotResponse_msg
  by (simp add: rpc_def ai.json_message_axioms air.json_message_axioms)

interpretation rpc_Put: rpc PutRequest_msg PutResponse_msg
  by (simp add: rpc_def pq.json_message_axioms pr.json_message_axioms)

interpretation rpc_Get: rpc GetRequest_msg GetResponse_msg
  by (simp add: rpc_def gq.json_message_axioms gr.json_message_axioms)

interpretation rpc_Delete: rpc DeleteRequest_msg DeleteResponse_msg
  by (simp add: rpc_def dq.json_message_axioms dr.json_message_axioms)

interpretation rpc_CAS: rpc CASRequest_msg CASResponse_msg
  by (simp add: rpc_def cq.json_message_axioms cr.json_message_axioms)

interpretation rpc_Status: rpc StatusRequest_msg StatusResponse_msg
  by (simp add: rpc_def st.json_message_axioms sr.json_message_axioms)

end
