(* ===== verification/Server_Service.thy ===== *)
theory Server_Service
  imports Api_RPC Raft_Client Raft_Snapshot
begin

text \<open>
  The gRPC service of a node (\<open>internal/server/service.go\<close>, \<open>internal/server/command_codec.go\<close>) and the
  descriptors that register it and call it (\<open>api/rpc.go\<close>).

  The methods that peers call handle a request under the node's mutex and are functions of the node.
  The methods that clients call wait in \<open>Propose\<close> or \<open>LinearizableGet\<close>; these are an argument, a
  function that returns what the call returns and the state it leaves.  The text of an error of the
  standard library is an argument, too.

  gRPC itself is a parameter, a function that takes a method's name and the bytes of a request to the
  bytes of a response or an error; what the program relies on is that it hands the request to the
  handler registered under that name at most once and returns its answer or an error.
\<close>

section \<open>Commands on the wire\<close>

definition encodeCommand :: "Command \<Rightarrow> string" where
  "encodeCommand command = marshal (Command_json command)"

text \<open>The error is ignored: what could not be read keeps the zero value.\<close>

definition decodeCommand :: "string \<Rightarrow> Command" where
  "decodeCommand data = fst (unmarshal (store_struct Command_fields) data zero_Command)"

fun logEntriesToAPI :: "LogEntry list \<Rightarrow> api_LogEntry list" where
  "logEntriesToAPI [] = []"
| "logEntriesToAPI (entry # entries) =
     \<lparr>al_Index = le_Index entry, al_Term = le_Term entry, al_Command = encodeCommand (le_Command entry)\<rparr> #
     logEntriesToAPI entries"

fun apiToLogEntries :: "api_LogEntry list \<Rightarrow> LogEntry list" where
  "apiToLogEntries [] = []"
| "apiToLogEntries (entry # entries) =
     \<lparr>le_Index = al_Index entry, le_Term = al_Term entry, le_Command = decodeCommand (al_Command entry)\<rparr> #
     apiToLogEntries entries"

section \<open>Errors\<close>

text \<open>\<open>err.Error()\<close>.\<close>

fun error_text :: "(goerror \<Rightarrow> string) \<Rightarrow> goerror \<Rightarrow> string" where
  "error_text lib (ErrorString s) = s"
| "error_text lib ErrNotLeader = ''not leader''"
| "error_text lib ErrNodeStopped = ''node stopped''"
| "error_text lib (NotLeaderError leader addr) = NotLeaderError_Error leader addr"
| "error_text lib (ProposalUnknownError index err) =
     ''proposal accepted at log index '' @ dec (unat index) @ '' but result unknown: '' @ error_text lib err"
| "error_text lib err = lib err"

text \<open>\<open>errors.As\<close> looks through \<open>ProposalUnknownError\<close>, which has a method \<open>Unwrap\<close>.\<close>

fun leaderHint :: "goerror \<Rightarrow> string \<times> string" where
  "leaderHint (NotLeaderError leader addr) = (leader, addr)"
| "leaderHint (ProposalUnknownError _ err) = leaderHint err"
| "leaderHint _ = ('''', '''')"

section \<open>Methods for clients\<close>

type_synonym 's propose = "Command \<Rightarrow> 's \<Rightarrow> (ApplyResult \<times> goerror option) \<times> 's"
type_synonym 's reading = "string \<Rightarrow> 's \<Rightarrow> (goerror + string \<times> bool) \<times> 's"

definition PutResponse_of :: "(goerror \<Rightarrow> string) \<Rightarrow> ApplyResult \<times> goerror option \<Rightarrow> PutResponse" where
  "PutResponse_of lib out =
     (case out of
        (_, Some err) \<Rightarrow> (case leaderHint err of (hint, hintAddr) \<Rightarrow>
          \<lparr>pr_OK = False, pr_Error = error_text lib err, pr_LeaderID = hint, pr_LeaderAddress = hintAddr\<rparr>)
      | (res, None) \<Rightarrow>
          \<lparr>pr_OK = res_OK res, pr_Error = res_Error res, pr_LeaderID = '''', pr_LeaderAddress = ''''\<rparr>)"

definition Service_Put :: "(goerror \<Rightarrow> string) \<Rightarrow> 's propose \<Rightarrow> PutRequest \<Rightarrow> 's \<Rightarrow> (goerror + PutResponse) \<times> 's" where
  "Service_Put lib propose req s =
     (case propose \<lparr>cmd_Op = OpPut, cmd_Key = pq_Key req, cmd_Value = pq_Value req, cmd_Expected = ''''\<rparr> s of
        (out, s1) \<Rightarrow> (Inr (PutResponse_of lib out), s1))"

definition GetResponse_of :: "(goerror \<Rightarrow> string) \<Rightarrow> goerror + string \<times> bool \<Rightarrow> GetResponse" where
  "GetResponse_of lib out =
     (case out of
        Inl err \<Rightarrow> (case leaderHint err of (hint, hintAddr) \<Rightarrow>
          \<lparr>gr_OK = False, gr_Found = False, gr_Value = '''', gr_Error = error_text lib err,
           gr_LeaderID = hint, gr_LeaderAddress = hintAddr\<rparr>)
      | Inr (value, found) \<Rightarrow>
          \<lparr>gr_OK = True, gr_Found = found, gr_Value = value, gr_Error = '''', gr_LeaderID = '''', gr_LeaderAddress = ''''\<rparr>)"

definition Service_Get :: "(goerror \<Rightarrow> string) \<Rightarrow> 's reading \<Rightarrow> GetRequest \<Rightarrow> 's \<Rightarrow> (goerror + GetResponse) \<times> 's" where
  "Service_Get lib reading req s = (case reading (gq_Key req) s of (out, s1) \<Rightarrow> (Inr (GetResponse_of lib out), s1))"

definition DeleteResponse_of :: "(goerror \<Rightarrow> string) \<Rightarrow> ApplyResult \<times> goerror option \<Rightarrow> DeleteResponse" where
  "DeleteResponse_of lib out =
     (case out of
        (_, Some err) \<Rightarrow> (case leaderHint err of (hint, hintAddr) \<Rightarrow>
          \<lparr>dr_OK = False, dr_Found = False, dr_PreviousValue = '''', dr_Error = error_text lib err,
           dr_LeaderID = hint, dr_LeaderAddress = hintAddr\<rparr>)
      | (res, None) \<Rightarrow>
          \<lparr>dr_OK = res_OK res, dr_Found = res_Found res, dr_PreviousValue = res_Value res, dr_Error = res_Error res,
           dr_LeaderID = '''', dr_LeaderAddress = ''''\<rparr>)"

definition Service_Delete :: "(goerror \<Rightarrow> string) \<Rightarrow> 's propose \<Rightarrow> DeleteRequest \<Rightarrow> 's \<Rightarrow>
    (goerror + DeleteResponse) \<times> 's" where
  "Service_Delete lib propose req s =
     (case propose \<lparr>cmd_Op = OpDelete, cmd_Key = dq_Key req, cmd_Value = '''', cmd_Expected = ''''\<rparr> s of
        (out, s1) \<Rightarrow> (Inr (DeleteResponse_of lib out), s1))"

definition CASResponse_of :: "(goerror \<Rightarrow> string) \<Rightarrow> ApplyResult \<times> goerror option \<Rightarrow> CASResponse" where
  "CASResponse_of lib out =
     (case out of
        (_, Some err) \<Rightarrow> (case leaderHint err of (hint, hintAddr) \<Rightarrow>
          \<lparr>cr_OK = False, cr_Swapped = False, cr_Found = False, cr_CurrentValue = '''', cr_Error = error_text lib err,
           cr_LeaderID = hint, cr_LeaderAddress = hintAddr\<rparr>)
      | (res, None) \<Rightarrow>
          \<lparr>cr_OK = res_OK res, cr_Swapped = res_Swapped res, cr_Found = res_Found res, cr_CurrentValue = res_Value res,
           cr_Error = res_Error res, cr_LeaderID = '''', cr_LeaderAddress = ''''\<rparr>)"

definition Service_CAS :: "(goerror \<Rightarrow> string) \<Rightarrow> 's propose \<Rightarrow> CASRequest \<Rightarrow> 's \<Rightarrow> (goerror + CASResponse) \<times> 's" where
  "Service_CAS lib propose req s =
     (case propose \<lparr>cmd_Op = OpCAS, cmd_Key = cq_Key req, cmd_Value = cq_Value req, cmd_Expected = cq_Expected req\<rparr> s of
        (out, s1) \<Rightarrow> (Inr (CASResponse_of lib out), s1))"

definition Service_Status :: "unit \<Rightarrow> ('st, 'sm) node \<Rightarrow> (goerror + StatusResponse) \<times> ('st, 'sm) node" where
  "Service_Status req n =
     (let status = Status_of n;
          peers = fold (\<lambda>peer. fmupd (ps_ID peer) (ps_Address peer)) (st_Peers status) fmempty
      in (Inr \<lparr>sr_NodeID = st_ID status,
               sr_State = (case st_Role status of None \<Rightarrow> '''' | Some r \<Rightarrow> role_string r),
               sr_Term = st_Term status, sr_LeaderID = st_LeaderID status, sr_LeaderAddress = st_LeaderAddress status,
               sr_CommitIndex = st_CommitIndex status, sr_LastApplied = st_LastApplied status,
               sr_LastLogIndex = st_LastLogIndex status, sr_SnapshotIndex = st_SnapshotIndex status, sr_Peers = peers\<rparr>, n))"

section \<open>Methods for peers\<close>

definition Service_RequestVote :: "'st Store \<Rightarrow> api_RequestVoteRequest \<Rightarrow> ('st, 'sm) node \<Rightarrow>
    (goerror + api_RequestVoteResponse) \<times> ('st, 'sm) node" where
  "Service_RequestVote S req n =
     (case HandleRequestVote S \<lparr>rv_Term = av_Term req, rv_CandidateID = av_CandidateID req,
             rv_LastLogIndex = av_LastLogIndex req, rv_LastLogTerm = av_LastLogTerm req\<rparr> n of
        (resp, n1) \<Rightarrow> (Inr \<lparr>avr_Term = rvr_Term resp, avr_VoteGranted = rvr_VoteGranted resp\<rparr>, n1))"

definition Service_AppendEntries :: "'st Store \<Rightarrow> api_AppendEntriesRequest \<Rightarrow> ('st, 'sm) node \<Rightarrow>
    (goerror + api_AppendEntriesResponse) \<times> ('st, 'sm) node" where
  "Service_AppendEntries S req n =
     (case HandleAppendEntries S \<lparr>ae_Term = aa_Term req, ae_LeaderID = aa_LeaderID req,
             ae_PrevLogIndex = aa_PrevLogIndex req, ae_PrevLogTerm = aa_PrevLogTerm req,
             ae_Entries = apiToLogEntries (aa_Entries req), ae_LeaderCommit = aa_LeaderCommit req\<rparr> n of
        (resp, n1) \<Rightarrow>
          (Inr \<lparr>aar_Term = aer_Term resp, aar_Success = aer_Success resp, aar_ConflictIndex = aer_ConflictIndex resp,
                aar_MatchIndex = aer_LastLogIndex resp\<rparr>, n1))"

definition Service_InstallSnapshot :: "'st Store \<Rightarrow> 'sm StateMachine \<Rightarrow> api_InstallSnapshotRequest \<Rightarrow> ('st, 'sm) node \<Rightarrow>
    (goerror + api_InstallSnapshotResponse) \<times> ('st, 'sm) node" where
  "Service_InstallSnapshot S M req n =
     (case HandleInstallSnapshot S M \<lparr>is_Term = ai_Term req, is_LeaderID = ai_LeaderID req,
             is_LastIncludedIndex = ai_LastIncludedIndex req, is_LastIncludedTerm = ai_LastIncludedTerm req,
             is_Offset = ai_Offset req, is_Data = ai_Data req, is_Done = ai_Done req\<rparr> n of
        (resp, n1) \<Rightarrow>
          (Inr \<lparr>air_Term = isr_Term resp, air_Success = isr_Success resp, air_BytesReceived = isr_BytesReceived resp\<rparr>, n1))"

section \<open>Properties\<close>

definition plain_result :: "ApplyResult \<Rightarrow> bool" where
  "plain_result r \<longleftrightarrow> (res_OK r \<and> res_Error r = '''' \<or>
       \<not> res_OK r \<and> res_Error r \<noteq> '''' \<and> \<not> res_Found r) \<and>
     (res_Swapped r \<longrightarrow> res_Found r) \<and> (res_Found r \<or> res_Value r = '''')"

lemma plain_Apply: "plain_result (fst (Apply c m))"
  by (simp add: plain_result_def Apply_def kv_lookup_def zero_ApplyResult_def split: option.split)

text \<open>C25. The answers to clients are well formed.  For every outcome a waiter can be sent, a result of
  the state machine or an error with a text, the response to a put, a delete or a compare-and-swap
  has either \<open>OK\<close> or an error text, not both and not neither; a leader hint comes only with an error;
  nothing is reported as found or swapped unless \<open>OK\<close>, nothing as swapped unless found, and no value
  for a key that was not found.\<close>

theorem responses_typed:
  assumes "ao_err out = None \<Longrightarrow> \<exists>c m. ao_result out = fst (Apply c m)"
    and "\<And>err. ao_err out = Some err \<Longrightarrow> error_text lib err \<noteq> ''''"
    and "put = PutResponse_of lib (resultFromOutcome out)" and "delete = DeleteResponse_of lib (resultFromOutcome out)"
    and "cas = CASResponse_of lib (resultFromOutcome out)"
  shows "(pr_OK put \<longleftrightarrow> pr_Error put = '''') \<and> (pr_OK put \<longrightarrow> pr_LeaderID put = '''' \<and> pr_LeaderAddress put = '''') \<and>
    (dr_OK delete \<longleftrightarrow> dr_Error delete = '''') \<and> (dr_OK delete \<longrightarrow> dr_LeaderID delete = '''' \<and> dr_LeaderAddress delete = '''') \<and>
    (dr_Found delete \<longrightarrow> dr_OK delete) \<and> (dr_Found delete \<or> dr_PreviousValue delete = '''') \<and>
    (cr_OK cas \<longleftrightarrow> cr_Error cas = '''') \<and> (cr_OK cas \<longrightarrow> cr_LeaderID cas = '''' \<and> cr_LeaderAddress cas = '''') \<and>
    (cr_Swapped cas \<longrightarrow> cr_Found cas) \<and> (cr_Found cas \<longrightarrow> cr_OK cas) \<and> (cr_Found cas \<or> cr_CurrentValue cas = '''')"
proof (cases "ao_err out")
  case None
  then obtain c m where r: "ao_result out = fst (Apply c m)" using assms(1) by blast
  then have "plain_result (ao_result out)" by (simp add: plain_Apply)
  then show ?thesis unfolding assms(3-5) resultFromOutcome_def None
    by (auto simp: plain_result_def PutResponse_of_def DeleteResponse_of_def CASResponse_of_def)
next
  case (Some err)
  then show ?thesis using assms(2) unfolding assms(3-5)
    by (simp add: resultFromOutcome_def PutResponse_of_def DeleteResponse_of_def CASResponse_of_def split: prod.split)
qed

theorem responses_typed_witness:
  "\<exists>cas. cas = CASResponse_of (\<lambda>_. ''error'') (resultFromOutcome \<lparr>ao_result = fst (Apply
        \<lparr>cmd_Op = OpCAS, cmd_Key = ''k'', cmd_Value = ''2'', cmd_Expected = ''1''\<rparr> \<lparr>kv_data = fmupd ''k'' ''1'' fmempty\<rparr>),
        ao_err = None\<rparr>) \<and> cr_OK cas \<and> cr_Swapped cas \<and> cr_Found cas \<and> cr_Error cas = ''''"
proof -
  let ?c = "\<lparr>cmd_Op = OpCAS, cmd_Key = ''k'', cmd_Value = ''2'', cmd_Expected = ''1''\<rparr>" and ?m = "\<lparr>kv_data = fmupd ''k'' ''1'' fmempty\<rparr>"
  let ?out = "\<lparr>ao_result = fst (Apply ?c ?m), ao_err = None\<rparr>"
  define cas where "cas = CASResponse_of (\<lambda>_. ''error'') (resultFromOutcome ?out)"
  have "cr_Swapped cas" by (simp add: cas_def CASResponse_of_def resultFromOutcome_def Apply_def Op_defs kv_lookup_def zero_ApplyResult_def)
  moreover note responses_typed [of ?out "\<lambda>_. ''error''", OF _ _ refl refl cas_def]
  then have "(cr_OK cas \<longleftrightarrow> cr_Error cas = '''') \<and> (cr_Swapped cas \<longrightarrow> cr_Found cas) \<and> (cr_Found cas \<longrightarrow> cr_OK cas)" by force
  ultimately show ?thesis unfolding cas_def by blast
qed

end
