(* ===== verification/Kvctl.thy ===== *)
theory Kvctl
  imports Server_Service
begin

text \<open>
  The command line client (\<open>cmd/kvctl/main.go\<close>): the commands, and the loop that tries the endpoints
  in turn and follows leader hints.

  Dialling an endpoint and the calls on its connection are parameters, and \<open>'w\<close> is the state of the
  world they change.  The flags are parsed by package flag: the functions start from the value of
  \<open>--endpoints\<close> and the remaining arguments.  Time is not modelled; a call that runs out of time is one
  that returns an error.
\<close>

section \<open>Responses\<close>

text \<open>The cases of the type switches; \<open>Other_response\<close> is any other type.\<close>

datatype response =
    Put_response PutResponse
  | Get_response GetResponse
  | Delete_response DeleteResponse
  | CAS_response CASResponse
  | Other_response

text \<open>The errors that the commands return; their texts carry the strings here.\<close>

datatype cli_error =
    Call_failed goerror
  | Message string
  | Not_swapped string
  | No_leader_hint

fun leaderFrom :: "response \<Rightarrow> cli_error + bool \<times> string" where
  "leaderFrom (Put_response v) = Inr (pr_OK v, pr_LeaderAddress v)"
| "leaderFrom (Get_response v) = Inr (gr_OK v, gr_LeaderAddress v)"
| "leaderFrom (Delete_response v) = Inr (dr_OK v, dr_LeaderAddress v)"
| "leaderFrom (CAS_response v) = Inr (cr_OK v, cr_LeaderAddress v)"
| "leaderFrom Other_response = Inl No_leader_hint"

fun responseError :: "response \<Rightarrow> string" where
  "responseError (Put_response v) = pr_Error v"
| "responseError (Get_response v) = gr_Error v"
| "responseError (Delete_response v) = dr_Error v"
| "responseError (CAS_response v) = cr_Error v"
| "responseError Other_response = ''''"

section \<open>Retrying\<close>

type_synonym ('t, 'w) endpointCaller = "string \<Rightarrow> 'w \<Rightarrow> (goerror + 't) \<times> 'w"

text \<open>The loop, with the attempts that are left; \<open>any\<close> is the conversion of a response to an
  interface value.\<close>

fun retry_loop :: "('t \<Rightarrow> response) \<Rightarrow> ('t, 'w) endpointCaller \<Rightarrow> nat \<Rightarrow> string list \<Rightarrow> string list \<Rightarrow> cli_error option \<Rightarrow>
    'w \<Rightarrow> (cli_error + 't) \<times> 'w" where
  "retry_loop any caller (Suc attempts) (endpoint # queue) queuedHints last_err w =
     (if endpoint = '''' then retry_loop any caller attempts queue queuedHints last_err w
      else
        (case caller endpoint w of
           (Inl err, w1) \<Rightarrow> retry_loop any caller attempts queue queuedHints (Some (Call_failed err)) w1
         | (Inr resp, w1) \<Rightarrow>
             (case leaderFrom (any resp) of
                Inl err \<Rightarrow> (Inl err, w1)
              | Inr (ok, leaderAddr) \<Rightarrow>
                  if \<not> ok then
                    (let msg = responseError (any resp);
                         last_err1 = (if msg \<noteq> '''' then Some (Message msg) else last_err)
                     in if leaderAddr \<noteq> '''' \<and> leaderAddr \<noteq> endpoint \<and> leaderAddr \<notin> set queuedHints
                        then retry_loop any caller attempts (queue @ [leaderAddr]) (leaderAddr # queuedHints) last_err1 w1
                        else retry_loop any caller attempts queue queuedHints last_err1 w1)
                  else (Inr resp, w1))))"
| "retry_loop any caller _ _ queuedHints last_err w =
     (Inl (case last_err of Some err \<Rightarrow> err | None \<Rightarrow> Message ''no reachable leader''), w)"

definition withLeaderRetryUsing :: "('t \<Rightarrow> response) \<Rightarrow> string list \<Rightarrow> ('t, 'w) endpointCaller \<Rightarrow> 'w \<Rightarrow>
    (cli_error + 't) \<times> 'w" where
  "withLeaderRetryUsing any endpoints caller w = retry_loop any caller (length endpoints + 5) endpoints [] None w"

text \<open>Dialling an endpoint and the connection to it.\<close>

record 'w endpoints_net =
  en_NewClient :: "string \<Rightarrow> goerror option"
  en_conn :: "string \<Rightarrow> 'w conn"

definition call :: "'w endpoints_net \<Rightarrow> ('w conn \<Rightarrow> 'w \<Rightarrow> (goerror + 't) \<times> 'w) \<Rightarrow> ('t, 'w) endpointCaller" where
  "call net fn endpoint w =
     (case en_NewClient net endpoint of Some err \<Rightarrow> (Inl err, w) | None \<Rightarrow> fn (en_conn net endpoint) w)"

definition withLeaderRetry :: "'w endpoints_net \<Rightarrow> ('t \<Rightarrow> response) \<Rightarrow> string list \<Rightarrow>
    ('w conn \<Rightarrow> 'w \<Rightarrow> (goerror + 't) \<times> 'w) \<Rightarrow> 'w \<Rightarrow> (cli_error + 't) \<times> 'w" where
  "withLeaderRetry net any endpoints fn w = withLeaderRetryUsing any endpoints (call net fn) w"

section \<open>Commands\<close>

text \<open>What a command prints: a line, or the statuses as a JSON array.\<close>

datatype printout = Line string | Statuses "StatusResponse list"

definition put :: "'w endpoints_net \<Rightarrow> string list \<Rightarrow> string \<Rightarrow> string \<Rightarrow> 'w \<Rightarrow> (cli_error + printout) \<times> 'w" where
  "put net endpoints key value w =
     (case withLeaderRetry net Put_response endpoints
             (\<lambda>client. KVClient_Put client \<lparr>pq_Key = key, pq_Value = value\<rparr>) w of
        (Inl err, w1) \<Rightarrow> (Inl err, w1)
      | (Inr resp, w1) \<Rightarrow>
          if \<not> pr_OK resp then (Inl (Message (pr_Error resp)), w1) else (Inr (Line ''OK''), w1))"

definition get :: "'w endpoints_net \<Rightarrow> string list \<Rightarrow> string \<Rightarrow> 'w \<Rightarrow> (cli_error + printout) \<times> 'w" where
  "get net endpoints key w =
     (case withLeaderRetry net Get_response endpoints (\<lambda>client. KVClient_Get client \<lparr>gq_Key = key\<rparr>) w of
        (Inl err, w1) \<Rightarrow> (Inl err, w1)
      | (Inr resp, w1) \<Rightarrow>
          if \<not> gr_OK resp then (Inl (Message (gr_Error resp)), w1)
          else if \<not> gr_Found resp then (Inl (Message ''not found''), w1)
          else (Inr (Line (gr_Value resp)), w1))"

definition del :: "'w endpoints_net \<Rightarrow> string list \<Rightarrow> string \<Rightarrow> 'w \<Rightarrow> (cli_error + printout) \<times> 'w" where
  "del net endpoints key w =
     (case withLeaderRetry net Delete_response endpoints (\<lambda>client. KVClient_Delete client \<lparr>dq_Key = key\<rparr>) w of
        (Inl err, w1) \<Rightarrow> (Inl err, w1)
      | (Inr resp, w1) \<Rightarrow>
          if \<not> dr_OK resp then (Inl (Message (dr_Error resp)), w1)
          else if dr_Found resp then (Inr (Line (dr_PreviousValue resp)), w1)
          else (Inr (Line ''OK''), w1))"

definition cas :: "'w endpoints_net \<Rightarrow> string list \<Rightarrow> string \<Rightarrow> string \<Rightarrow> string \<Rightarrow> 'w \<Rightarrow> (cli_error + printout) \<times> 'w" where
  "cas net endpoints key expected value w =
     (case withLeaderRetry net CAS_response endpoints
             (\<lambda>client. KVClient_CAS client \<lparr>cq_Key = key, cq_Expected = expected, cq_Value = value\<rparr>) w of
        (Inl err, w1) \<Rightarrow> (Inl err, w1)
      | (Inr resp, w1) \<Rightarrow>
          if \<not> cr_OK resp then (Inl (Message (cr_Error resp)), w1)
          else if \<not> cr_Swapped resp then (Inl (Not_swapped (cr_CurrentValue resp)), w1)
          else (Inr (Line ''OK''), w1))"

fun status_loop :: "'w endpoints_net \<Rightarrow> string list \<Rightarrow> StatusResponse list \<Rightarrow> 'w \<Rightarrow> StatusResponse list \<times> 'w" where
  "status_loop net [] statuses w = (statuses, w)"
| "status_loop net (endpoint # endpoints) statuses w =
     (case call net (\<lambda>client. KVClient_Status client ()) endpoint w of
        (Inr resp, w1) \<Rightarrow> status_loop net endpoints (statuses @ [resp]) w1
      | (Inl err, w1) \<Rightarrow> status_loop net endpoints statuses w1)"

definition status :: "'w endpoints_net \<Rightarrow> string list \<Rightarrow> 'w \<Rightarrow> (cli_error + printout) \<times> 'w" where
  "status net endpoints w =
     (case status_loop net endpoints [] w of
        (statuses, w1) \<Rightarrow>
          if statuses = [] then (Inl (Message ''no reachable endpoints''), w1) else (Inr (Statuses statuses), w1))"

section \<open>The program\<close>

definition defaultEndpoints :: "string \<Rightarrow> string" where
  "defaultEndpoints env =
     (if env \<noteq> '''' then env else ''127.0.0.1:9101,127.0.0.1:9102,127.0.0.1:9103,127.0.0.1:9001'')"

fun splitCSV_loop :: "string list \<Rightarrow> string list" where
  "splitCSV_loop [] = []"
| "splitCSV_loop (part # parts) =
     (let part = TrimSpace part in if part \<noteq> '''' then part # splitCSV_loop parts else splitCSV_loop parts)"

definition splitCSV :: "string \<Rightarrow> string list" where
  "splitCSV raw = splitCSV_loop (Split CHR '','' raw)"

datatype exit = Usage | No_endpoints | Printed printout | Failed cli_error

fun exit_code :: "exit \<Rightarrow> nat" where
  "exit_code Usage = 2"
| "exit_code No_endpoints = 2"
| "exit_code (Printed _) = 0"
| "exit_code (Failed _) = 1"

definition ended :: "(cli_error + printout) \<times> 'w \<Rightarrow> exit \<times> 'w" where
  "ended out = (case out of (Inl err, w) \<Rightarrow> (Failed err, w) | (Inr o1, w) \<Rightarrow> (Printed o1, w))"

definition main :: "'w endpoints_net \<Rightarrow> string \<Rightarrow> string list \<Rightarrow> 'w \<Rightarrow> exit \<times> 'w" where
  "main net endpointsFlag args w =
     (case args of
        [] \<Rightarrow> (Usage, w)
      | cmd # rest \<Rightarrow>
          (let endpoints = splitCSV endpointsFlag
           in if endpoints = [] then (No_endpoints, w)
              else if cmd = ''put'' then
                (case rest of [key, value] \<Rightarrow> ended (put net endpoints key value w) | _ \<Rightarrow> (Usage, w))
              else if cmd = ''get'' then
                (case rest of [key] \<Rightarrow> ended (get net endpoints key w) | _ \<Rightarrow> (Usage, w))
              else if cmd = ''delete'' then
                (case rest of [key] \<Rightarrow> ended (del net endpoints key w) | _ \<Rightarrow> (Usage, w))
              else if cmd = ''cas'' then
                (case rest of [key, expected, value] \<Rightarrow> ended (cas net endpoints key expected value w) | _ \<Rightarrow> (Usage, w))
              else if cmd = ''status'' then ended (status net endpoints w)
              else (Usage, w)))"

section \<open>What the retrying comes to\<close>

text \<open>The world of a caller whose answers may depend on everything that was asked before: the list of
  the endpoints called so far.\<close>

definition traced :: "(string list \<Rightarrow> string \<Rightarrow> goerror + 't) \<Rightarrow> ('t, string list) endpointCaller" where
  "traced answer endpoint calls = (answer calls endpoint, calls @ [endpoint])"

text \<open>An answer that ends the loop, the hint that an answer of an endpoint gives, and the hints given
  by the calls from the first \<open>k\<close> on.\<close>

definition succeeded :: "('t \<Rightarrow> response) \<Rightarrow> goerror + 't \<Rightarrow> bool" where
  "succeeded any ans = (case ans of Inl _ \<Rightarrow> False | Inr r \<Rightarrow> \<exists>a. leaderFrom (any r) = Inr (True, a))"

definition hint_of :: "('t \<Rightarrow> response) \<Rightarrow> string \<Rightarrow> goerror + 't \<Rightarrow> string option" where
  "hint_of any endpoint ans = (case ans of Inl _ \<Rightarrow> None | Inr r \<Rightarrow>
     (case leaderFrom (any r) of Inl _ \<Rightarrow> None | Inr (ok, a) \<Rightarrow> if \<not> ok \<and> a \<noteq> '''' \<and> a \<noteq> endpoint then Some a else None))"

definition hints_from :: "('t \<Rightarrow> response) \<Rightarrow> (string list \<Rightarrow> string \<Rightarrow> goerror + 't) \<Rightarrow> nat \<Rightarrow> string list \<Rightarrow> string set" where
  "hints_from any answer k calls = {h. \<exists>i. k \<le> i \<and> i < length calls \<and>
     hint_of any (calls ! i) (answer (take i calls) (calls ! i)) = Some h}"

definition refused_from :: "('t \<Rightarrow> response) \<Rightarrow> (string list \<Rightarrow> string \<Rightarrow> goerror + 't) \<Rightarrow> nat \<Rightarrow> nat \<Rightarrow> string list \<Rightarrow> bool" where
  "refused_from any answer k m calls \<longleftrightarrow> (\<forall>i. k \<le> i \<and> i < m \<longrightarrow> \<not> succeeded any (answer (take i calls) (calls ! i)))"

text \<open>How a run of the loop ends that starts with the queue \<open>q\<close> and \<open>a\<close> attempts after \<open>calls\<close>: it
  has called a part of the queue with the hints \<open>new\<close> behind it, in order; to the end without success,
  or up to the first success.\<close>

definition loop_end :: "('t \<Rightarrow> response) \<Rightarrow> (string list \<Rightarrow> string \<Rightarrow> goerror + 't) \<Rightarrow> string list \<Rightarrow> string list \<Rightarrow>
    cli_error + 't \<Rightarrow> string list \<Rightarrow> bool" where
  "loop_end any answer calls todo out calls' \<longleftrightarrow> (case out of
     Inl _ \<Rightarrow> calls' = calls @ todo \<and> refused_from any answer (length calls) (length calls') calls'
   | Inr r \<Rightarrow> \<exists>k < length todo. calls' = calls @ take (Suc k) todo \<and> answer (butlast calls') (last calls') = Inr r \<and>
       succeeded any (Inr r) \<and> refused_from any answer (length calls) (length calls' - 1) calls')"

lemma loop_end_Cons:
  assumes "loop_end any answer (calls @ [e]) todo out calls'" and "\<not> succeeded any (answer calls e)"
  shows "loop_end any answer calls (e # todo) out calls'"
proof -
  have r: "refused_from any answer (length calls) m calls'"
    if "refused_from any answer (length (calls @ [e])) m calls'" "calls' = (calls @ [e]) @ rest" for m rest
    unfolding refused_from_def
  proof (intro allI impI)
    fix i assume i: "length calls \<le> i \<and> i < m"
    show "\<not> succeeded any (answer (take i calls') (calls' ! i))"
    proof (cases "i = length calls")
      case True
      then show ?thesis using that(2) assms(2) by simp
    next
      case False
      then show ?thesis using i that(1) by (simp add: refused_from_def)
    qed
  qed
  show ?thesis
  proof (cases out)
    case (Inl x)
    then have "calls' = (calls @ [e]) @ todo" "refused_from any answer (length (calls @ [e])) (length calls') calls'"
      using assms(1) by (auto simp: loop_end_def)
    with r [of "length calls'" todo] Inl show ?thesis by (simp add: loop_end_def)
  next
    case (Inr x)
    then obtain k where k: "k < length todo" "calls' = (calls @ [e]) @ take (Suc k) todo"
      and rest: "answer (butlast calls') (last calls') = Inr x" "succeeded any (Inr x)"
        "refused_from any answer (length (calls @ [e])) (length calls' - 1) calls'"
      using assms(1) by (auto simp: loop_end_def)
    from r [OF rest(3) k(2)] rest(1,2) k Inr show ?thesis
      by (simp add: loop_end_def) (intro exI [of _ "Suc k"], simp)
  qed
qed

lemma loop_end_prefix: "loop_end any answer calls todo out calls' \<Longrightarrow> prefix calls calls'"
  by (auto simp: loop_end_def split: sum.splits)

lemma hints_from_step:
  assumes "prefix (calls @ [e]) calls'"
  shows "hints_from any answer (length calls) calls' =
    set_option (hint_of any e (answer calls e)) \<union> hints_from any answer (length (calls @ [e])) calls'"
proof -
  obtain rest where r: "calls' = calls @ e # rest" using assms by (auto elim: prefixE)
  have "hints_from any answer (length calls) calls' =
      {h. hint_of any (calls' ! length calls) (answer (take (length calls) calls') (calls' ! length calls)) = Some h} \<union>
      hints_from any answer (Suc (length calls)) calls'"
  proof -
    have len: "length calls < length calls'" using r by simp
    have "length calls \<le> i \<longleftrightarrow> i = length calls \<or> Suc (length calls) \<le> i" for i by auto
    then show ?thesis using len by (auto simp only: hints_from_def)
  qed
  then show ?thesis using r by (auto simp: set_eq_iff)
qed

definition run_ends :: "('t \<Rightarrow> response) \<Rightarrow> (string list \<Rightarrow> string \<Rightarrow> goerror + 't) \<Rightarrow> nat \<Rightarrow> string list \<Rightarrow> string list \<Rightarrow>
    string list \<Rightarrow> cli_error + 't \<Rightarrow> string list \<Rightarrow> string list \<Rightarrow> bool" where
  "run_ends any answer a q hs calls out calls' new \<longleftrightarrow> distinct new \<and> set new \<inter> set hs = {} \<and> '''' \<notin> set new \<and>
     set new \<union> set hs = hints_from any answer (length calls) calls' \<union> set hs \<and>
     loop_end any answer calls (filter (\<lambda>e. e \<noteq> '''') (take a (q @ new))) out calls'"

text \<open>One refused call, with the hint it may add to the queue.\<close>

lemma run_ends_refused:
  assumes "run_ends any answer a q hs (calls @ [e]) out calls' new" and "e \<noteq> ''''" and "\<not> succeeded any (answer calls e)"
    and "set_option (hint_of any e (answer calls e)) \<subseteq> set hs"
  shows "run_ends any answer (Suc a) (e # q) hs calls out calls' new"
proof -
  have "loop_end any answer (calls @ [e]) (filter (\<lambda>e. e \<noteq> '''') (take a (q @ new))) out calls'"
    using assms(1) by (simp add: run_ends_def)
  with assms show ?thesis using hints_from_step [OF loop_end_prefix] loop_end_Cons
    by (fastforce simp: run_ends_def)
qed

lemma run_ends_hint:
  assumes "run_ends any answer a (q @ [h]) (h # hs) (calls @ [e]) out calls' new" and "e \<noteq> ''''"
    and "\<not> succeeded any (answer calls e)" and "hint_of any e (answer calls e) = Some h" and "h \<notin> set hs" and "h \<noteq> ''''"
  shows "run_ends any answer (Suc a) (e # q) hs calls out calls' (h # new)"
proof -
  have l: "loop_end any answer (calls @ [e]) (filter (\<lambda>e. e \<noteq> '''') (take a (q @ h # new))) out calls'"
    using assms(1) by (simp add: run_ends_def)
  have "hints_from any answer (length calls) calls' = insert h (hints_from any answer (length (calls @ [e])) calls')"
    using hints_from_step [OF loop_end_prefix [OF l], of any answer] assms(4) by simp
  with assms show ?thesis using loop_end_Cons [OF l assms(3)] by (auto simp: run_ends_def)
qed

lemma run_ends_success:
  assumes "answer calls e = Inr r" and "succeeded any (Inr r)" and "e \<noteq> ''''"
  shows "run_ends any answer (Suc a) (e # q) hs calls (Inr r) (calls @ [e]) []"
proof -
  have "hint_of any e (Inr r) = None" using assms(2) by (auto simp: succeeded_def hint_of_def)
  then have "hints_from any answer (length calls) (calls @ [e]) = {}"
    using hints_from_step [of calls e "calls @ [e]" any answer] assms(1) by (simp add: hints_from_def)
  then show ?thesis using assms by (auto simp: run_ends_def loop_end_def refused_from_def)
qed

lemma run_ends_empty: "run_ends any answer a [] hs calls (Inl err) calls []"
  and run_ends_zero: "run_ends any answer 0 q hs calls (Inl err) calls []"
  by (auto simp: run_ends_def loop_end_def refused_from_def hints_from_def)

text \<open>The three outcomes of one call.\<close>

lemma retry_loop_step:
  assumes carries: "\<And>r. \<exists>ok a. leaderFrom (any r) = Inr (ok, a)" and e: "e \<noteq> ''''"
    and run: "retry_loop any (traced answer) (Suc a) (e # q) hs le calls = (out, calls')"
  obtains (refused) le' where "retry_loop any (traced answer) a q hs le' (calls @ [e]) = (out, calls')"
      "\<not> succeeded any (answer calls e)" "set_option (hint_of any e (answer calls e)) \<subseteq> set hs"
    | (hint) h le' where "retry_loop any (traced answer) a (q @ [h]) (h # hs) le' (calls @ [e]) = (out, calls')"
      "\<not> succeeded any (answer calls e)" "hint_of any e (answer calls e) = Some h" "h \<notin> set hs" "h \<noteq> ''''"
    | (success) r where "answer calls e = Inr r" "succeeded any (Inr r)" "out = Inr r" "calls' = calls @ [e]"
proof (cases "answer calls e")
  case (Inl err)
  then have "retry_loop any (traced answer) a q hs (Some (Call_failed err)) (calls @ [e]) = (out, calls')"
    using run e by (simp add: traced_def [of answer e calls])
  then show ?thesis using refused Inl by (simp add: succeeded_def hint_of_def)
next
  case (Inr r)
  obtain ok addr where l: "leaderFrom (any r) = Inr (ok, addr)" using carries by blast
  define le' where "le' = (if responseError (any r) \<noteq> '''' then Some (Message (responseError (any r))) else le)"
  show ?thesis
  proof (cases ok)
    case True
    then show ?thesis using success run e Inr l by (simp add: traced_def [of answer e calls] succeeded_def)
  next
    case False
    then have no: "\<not> succeeded any (answer calls e)" using Inr l by (simp add: succeeded_def)
    show ?thesis
    proof (cases "addr \<noteq> '''' \<and> addr \<noteq> e \<and> addr \<notin> set hs")
      case True
      then have "retry_loop any (traced answer) a (q @ [addr]) (addr # hs) le' (calls @ [e]) = (out, calls')"
        using run e Inr l False by (simp add: traced_def [of answer e calls] le'_def Let_def)
      then show ?thesis using hint [of addr le'] no Inr l False True by (simp add: hint_of_def)
    next
      case known: False
      then have "retry_loop any (traced answer) a q hs le' (calls @ [e]) = (out, calls')"
        using run e Inr l False by (auto simp: traced_def [of answer e calls] le'_def Let_def)
      then show ?thesis using refused [of le'] no Inr l False known by (auto simp: hint_of_def)
    qed
  qed
qed

lemma retry_loop_ends:
  assumes carries: "\<And>r. \<exists>ok a. leaderFrom (any r) = Inr (ok, a)"
    and "retry_loop any (traced answer) a q hs le calls = (out, calls')"
  shows "\<exists>new. run_ends any answer a q hs calls out calls' new"
  using assms(2)
proof (induction a arbitrary: q hs le calls)
  case 0
  then show ?case by (intro exI [of _ "[]"]) (auto simp: run_ends_zero)
next
  case (Suc a)
  consider "q = []" | q' where "q = '''' # q'" | e q' where "q = e # q'" "e \<noteq> ''''" by (cases q) auto
  then show ?case
  proof cases
    case 1
    then show ?thesis using Suc.prems by (intro exI [of _ "[]"]) (auto simp: run_ends_empty)
  next
    case 2
    then show ?thesis using Suc by (fastforce simp: run_ends_def)
  next
    case (3 e q')
    from carries 3(2) Suc.prems [unfolded 3(1)] show ?thesis
    proof (cases rule: retry_loop_step)
      case (refused le')
      then show ?thesis using Suc.IH [OF refused(1)] run_ends_refused [where answer = answer] 3 by blast
    next
      case (hint h le')
      then show ?thesis using Suc.IH [OF hint(1)] run_ends_hint [where answer = answer] 3 by blast
    next
      case (success r)
      then show ?thesis using run_ends_success [where answer = answer] 3 by blast
    qed
  qed
qed

section \<open>Properties\<close>


text \<open>A follower that hints at the leader, and the leader.\<close>

definition ex_answer :: "string list \<Rightarrow> string \<Rightarrow> goerror + PutResponse" where
  "ex_answer calls endpoint = Inr
     (if endpoint = ''l'' then \<lparr>pr_OK = True, pr_Error = '''', pr_LeaderID = '''', pr_LeaderAddress = ''''\<rparr>
      else \<lparr>pr_OK = False, pr_Error = ''not leader'', pr_LeaderID = ''n'', pr_LeaderAddress = ''l''\<rparr>)"


section \<open>A retried proposal is applied twice\<close>

text \<open>Two nodes of one cluster, with the replicated map as the state.  The first one appends the command,
  which is committed and applied, but its client call runs into the deadline before that; the second one
  answers in time.\<close>

definition late_propose :: "KVStateMachine propose" where
  "late_propose command m = ((zero_ApplyResult, Some (ProposalUnknownError 1 DeadlineExceeded)), snd (Apply command m))"

definition prompt_propose :: "KVStateMachine propose" where
  "prompt_propose command m = (resultFromOutcome \<lparr>ao_result = fst (Apply command m), ao_err = None\<rparr>, snd (Apply command m))"

definition ex_lib :: "goerror \<Rightarrow> string" where
  "ex_lib err = ''context deadline exceeded''"

definition ex_kv_service :: "KVStateMachine propose \<Rightarrow> KVStateMachine KVServiceServer" where
  "ex_kv_service propose = \<lparr>KV_Put = Service_Put ex_lib propose,
     KV_Get = Service_Get ex_lib (\<lambda>key m. (Inr (Get key m), m)),
     KV_Delete = Service_Delete ex_lib propose, KV_CAS = Service_CAS ex_lib propose,
     KV_Status = (\<lambda>_ m. (Inl ErrNodeStopped, m))\<rparr>"

definition ex_proposes :: "string \<Rightarrow> KVStateMachine propose" where
  "ex_proposes endpoint = (if endpoint = ''a'' then late_propose else prompt_propose)"

definition ex_net :: "KVStateMachine endpoints_net" where
  "ex_net = \<lparr>en_NewClient = (\<lambda>_. None),
     en_conn = (\<lambda>endpoint method data m.
       case map_of (RegisterKVServiceServer (ex_kv_service (ex_proposes endpoint))) method of
         Some h \<Rightarrow> h data m | None \<Rightarrow> (Inl (ErrorString ''unknown method''), m))\<rparr>"

lemma ex_net_CAS:
  assumes "Service_CAS ex_lib (ex_proposes endpoint) req m = (Inr r, m1)"
    and "wf_json (msg_json CASRequest_msg req)" and "wf_json (msg_json CASResponse_msg r)"
  shows "call ex_net (\<lambda>client. KVClient_CAS client req) endpoint m = (Inr r, m1)"
proof -
  have "reliable (en_conn ex_net endpoint) (RegisterKVServiceServer (ex_kv_service (ex_proposes endpoint)))"
    by (simp add: reliable_def ex_net_def)
  from rpc_CAS.invoke_reliable [OF this _ assms(2), where fn = "Service_CAS ex_lib (ex_proposes endpoint)"]
  have "KVClient_CAS (en_conn ex_net endpoint) req m = (Inr r, m1)"
    using assms(1,3) by (simp add: KVClient_CAS_def RegisterKVServiceServer_def ex_kv_service_def)
  then show ?thesis by (simp add: call_def ex_net_def)
qed

text \<open>C37. A compare-and-swap whose outcome the first endpoint reports as unknown is proposed again at the
  next one, although it may have been, and here is, applied: the client then prints that it was not
  swapped, with its own new value as the current one, while the store holds that value because of it.\<close>

theorem cas_retries_unknown:
  assumes "valid_utf8 key" and "valid_utf8 expected" and "valid_utf8 value"
    and "fmlookup (kv_data m) key = Some expected" and "expected \<noteq> value"
  shows "\<exists>m'. cas ex_net [''a'', ''b''] key expected value m = (Inl (Not_swapped value), m') \<and>
    fmlookup (kv_data m') key = Some value"
proof -
  let ?req = "\<lparr>cq_Key = key, cq_Expected = expected, cq_Value = value\<rparr>"
  let ?m = "m\<lparr>kv_data := fmupd key value (kv_data m)\<rparr>"
  let ?late = "CASResponse_of ex_lib (zero_ApplyResult, Some (ProposalUnknownError 1 DeadlineExceeded))"
  let ?no = "\<lparr>cr_OK = True, cr_Swapped = False, cr_Found = True, cr_CurrentValue = value, cr_Error = '''',
    cr_LeaderID = '''', cr_LeaderAddress = ''''\<rparr>"
  have one: "dec (Suc 0) = ''1''" by code_simp
  have late: "Service_CAS ex_lib (ex_proposes ''a'') ?req m = (Inr ?late, ?m)"
    using assms(4) by (simp add: Service_CAS_def ex_proposes_def late_propose_def Apply_def Op_defs kv_lookup_def)
  have no: "Service_CAS ex_lib (ex_proposes ''b'') ?req ?m = (Inr ?no, ?m)"
    using assms(5) by (simp add: Service_CAS_def ex_proposes_def prompt_propose_def Apply_def Op_defs kv_lookup_def
        CASResponse_of_def resultFromOutcome_def zero_ApplyResult_def)
  have req: "wf_json (msg_json CASRequest_msg ?req)" using assms(1-3) by simp
  have "wf_json (msg_json CASResponse_msg ?late)"
    by (simp add: CASResponse_of_def one ex_lib_def valid_utf8_ascii byte_def)
  from ex_net_CAS [OF late req this] ex_net_CAS [OF no req] assms(3)
  have "withLeaderRetry ex_net CAS_response [''a'', ''b''] (\<lambda>client. KVClient_CAS client ?req) m = (Inr ?no, ?m)"
    by (simp add: withLeaderRetry_def withLeaderRetryUsing_def numeral_eq_Suc CASResponse_of_def)
  then show ?thesis by (simp add: cas_def)
qed

theorem cas_retries_unknown_witness:
  "\<exists>m'. cas ex_net [''a'', ''b''] ''k'' ''1'' ''2'' \<lparr>kv_data = fmupd ''k'' ''1'' fmempty\<rparr> = (Inl (Not_swapped ''2''), m') \<and>
    fmlookup (kv_data m') ''k'' = Some ''2''"
  by (rule cas_retries_unknown) (simp_all add: valid_utf8_ascii byte_def)

end
