(* ===== verification/Server_Transport.thy ===== *)
theory Server_Transport
  imports Server_Service
begin

text \<open>
  The transport between nodes (\<open>internal/server/transport.go\<close>): a pool of client connections, one for
  each peer, and the three remote calls of a node on it.

  A client connection is a number, counted as they are created; \<open>gt_dialed\<close> and \<open>gt_closed\<close> record
  which were created and closed.  Creating one (\<open>grpc.NewClient\<close>), its state and the calls on it are
  parameters.
\<close>

section \<open>The pool\<close>

record GRPCTransport =
  gt_peers :: "(string \<times> string) list"
  gt_conns :: "(string \<times> nat) list"
  gt_dialed :: nat
  gt_closed :: "nat list"

definition NewGRPCTransport :: "(string \<times> string) list \<Rightarrow> GRPCTransport" where
  "NewGRPCTransport peers = \<lparr>gt_peers = peers, gt_conns = [], gt_dialed = 0, gt_closed = []\<rparr>"

definition close_conn :: "string \<Rightarrow> nat \<Rightarrow> GRPCTransport \<Rightarrow> GRPCTransport" where
  "close_conn peerID conn t =
     t\<lparr>gt_conns := AList.delete peerID (gt_conns t), gt_closed := conn # gt_closed t\<rparr>"

definition Transport_Close :: "GRPCTransport \<Rightarrow> GRPCTransport" where
  "Transport_Close t = fold (\<lambda>(peerID, conn). close_conn peerID conn) (gt_conns t) t"

definition dial :: "(string \<Rightarrow> nat \<Rightarrow> goerror option) \<Rightarrow> string \<Rightarrow> GRPCTransport \<Rightarrow> (goerror + nat) \<times> GRPCTransport" where
  "dial NewClient peerID t =
     (let addr = get_str (map_of (gt_peers t)) peerID; conn = gt_dialed t
      in if addr = '''' then (Inl (ErrorString ''unknown peer''), t)
         else case NewClient addr conn of
           Some err \<Rightarrow> (Inl err, t)
         | None \<Rightarrow> (Inr conn, t\<lparr>gt_conns := AList.update peerID conn (gt_conns t), gt_dialed := conn + 1\<rparr>))"

definition connFor :: "(string \<Rightarrow> nat \<Rightarrow> goerror option) \<Rightarrow> (nat \<Rightarrow> bool) \<Rightarrow> string \<Rightarrow> GRPCTransport \<Rightarrow>
    (goerror + nat) \<times> GRPCTransport" where
  "connFor NewClient is_shutdown peerID t =
     (case map_of (gt_conns t) peerID of
        Some conn \<Rightarrow>
          if \<not> is_shutdown conn then (Inr conn, t)
          else dial NewClient peerID (close_conn peerID conn t)
      | None \<Rightarrow> dial NewClient peerID t)"

definition dropConn :: "string \<Rightarrow> nat \<Rightarrow> GRPCTransport \<Rightarrow> GRPCTransport" where
  "dropConn peerID observed t =
     (if map_of (gt_conns t) peerID = Some observed then close_conn peerID observed t else t)"

section \<open>Remote calls\<close>

text \<open>What a call looks at besides its arguments: the outcome of \<open>NewClient\<close>, the state of a
  connection, and the calls a connection makes, with the state of the peer.\<close>

record 's network =
  net_NewClient :: "string \<Rightarrow> nat \<Rightarrow> goerror option"
  net_is_shutdown :: "nat \<Rightarrow> bool"
  net_conn :: "nat \<Rightarrow> 's conn"

text \<open>The connection of the peer, the call on it, and dropping it after an error.\<close>

definition with_conn :: "'s network \<Rightarrow> string \<Rightarrow> ('s conn \<Rightarrow> 's \<Rightarrow> (goerror + 'r) \<times> 's) \<Rightarrow> GRPCTransport \<Rightarrow> 's \<Rightarrow>
    (goerror + 'r) \<times> GRPCTransport \<times> 's" where
  "with_conn net peerID call t s =
     (case connFor (net_NewClient net) (net_is_shutdown net) peerID t of
        (Inl err, t1) \<Rightarrow> (Inl err, t1, s)
      | (Inr conn, t1) \<Rightarrow>
          (case call (net_conn net conn) s of
             (Inl err, s1) \<Rightarrow> (Inl err, dropConn peerID conn t1, s1)
           | (Inr resp, s1) \<Rightarrow> (Inr resp, t1, s1)))"

definition Transport_RequestVote :: "'s network \<Rightarrow> string \<Rightarrow> RequestVoteRequest \<Rightarrow> GRPCTransport \<Rightarrow> 's \<Rightarrow>
    (goerror + RequestVoteResponse) \<times> GRPCTransport \<times> 's" where
  "Transport_RequestVote net peerID req = with_conn net peerID (\<lambda>conn s.
     case RaftPeerClient_RequestVote conn
            \<lparr>av_Term = rv_Term req, av_CandidateID = rv_CandidateID req,
             av_LastLogIndex = rv_LastLogIndex req, av_LastLogTerm = rv_LastLogTerm req\<rparr> s of
       (Inl err, s1) \<Rightarrow> (Inl err, s1)
     | (Inr resp, s1) \<Rightarrow> (Inr \<lparr>rvr_Term = avr_Term resp, rvr_VoteGranted = avr_VoteGranted resp\<rparr>, s1))"

definition Transport_AppendEntries :: "'s network \<Rightarrow> string \<Rightarrow> AppendEntriesRequest \<Rightarrow> GRPCTransport \<Rightarrow> 's \<Rightarrow>
    (goerror + AppendEntriesResponse) \<times> GRPCTransport \<times> 's" where
  "Transport_AppendEntries net peerID req = with_conn net peerID (\<lambda>conn s.
     case RaftPeerClient_AppendEntries conn
            \<lparr>aa_Term = ae_Term req, aa_LeaderID = ae_LeaderID req, aa_PrevLogIndex = ae_PrevLogIndex req,
             aa_PrevLogTerm = ae_PrevLogTerm req, aa_Entries = logEntriesToAPI (ae_Entries req),
             aa_LeaderCommit = ae_LeaderCommit req\<rparr> s of
       (Inl err, s1) \<Rightarrow> (Inl err, s1)
     | (Inr resp, s1) \<Rightarrow>
         (Inr \<lparr>aer_Term = aar_Term resp, aer_Success = aar_Success resp, aer_LastLogIndex = aar_MatchIndex resp,
               aer_ConflictIndex = aar_ConflictIndex resp\<rparr>, s1))"

definition Transport_InstallSnapshot :: "'s network \<Rightarrow> string \<Rightarrow> InstallSnapshotRequest \<Rightarrow> GRPCTransport \<Rightarrow> 's \<Rightarrow>
    (goerror + InstallSnapshotResponse) \<times> GRPCTransport \<times> 's" where
  "Transport_InstallSnapshot net peerID req = with_conn net peerID (\<lambda>conn s.
     case RaftPeerClient_InstallSnapshot conn
            \<lparr>ai_Term = is_Term req, ai_LeaderID = is_LeaderID req, ai_LastIncludedIndex = is_LastIncludedIndex req,
             ai_LastIncludedTerm = is_LastIncludedTerm req, ai_Offset = is_Offset req, ai_Data = is_Data req,
             ai_Done = is_Done req\<rparr> s of
       (Inl err, s1) \<Rightarrow> (Inl err, s1)
     | (Inr resp, s1) \<Rightarrow>
         (Inr \<lparr>isr_Term = air_Term resp, isr_Success = air_Success resp, isr_BytesReceived = air_BytesReceived resp\<rparr>, s1))"

text \<open>The service of a node, as it is registered.\<close>

definition peer_service :: "'st Store \<Rightarrow> 'sm StateMachine \<Rightarrow> ('st, 'sm) node RaftPeerServiceServer" where
  "peer_service S M = \<lparr>Peer_RequestVote = Service_RequestVote S, Peer_AppendEntries = Service_AppendEntries S,
     Peer_InstallSnapshot = Service_InstallSnapshot S M\<rparr>"

section \<open>Calls are transparent\<close>

lemma decode_encodeCommand: "valid_Command c \<Longrightarrow> decodeCommand (encodeCommand c) = c"
  using depth_documents(1) [of c]
  by (simp add: decodeCommand_def encodeCommand_def unmarshal_marshal wf_Command_json store_Command)

lemma apiToLogEntries_inverse:
  "\<forall>e \<in> set es. valid_Command (le_Command e) \<Longrightarrow> apiToLogEntries (logEntriesToAPI es) = es"
  by (induction es) (simp_all add: decode_encodeCommand)

text \<open>A call of a handler that goes over the network: with an answer it is the handler's, and without
  one the handler has run once or not at all.\<close>

fun remote :: "('s \<Rightarrow> 'r \<times> 's) \<Rightarrow> 's \<Rightarrow> (goerror + 'r) \<times> GRPCTransport \<times> 's \<Rightarrow> bool" where
  "remote handle s (Inr r, _, s1) \<longleftrightarrow> handle s = (r, s1)"
| "remote handle s (Inl err, _, s1) \<longleftrightarrow> s1 = s \<or> s1 = snd (handle s)"

lemma remote_call:
  assumes "\<And>c. at_most_once fn q s (client (net_conn net c) s)"
    and "fn q s = (Inr a, s')" and "handle s = (conv a, s')"
  shows "remote handle s (with_conn net peerID (\<lambda>conn s. case client conn s of
      (Inl err, s1) \<Rightarrow> (Inl err, s1) | (Inr resp, s1) \<Rightarrow> (Inr (conv resp), s1)) t s)"
proof -
  have call: "client (net_conn net c) s = (Inr a, s') \<or> (\<exists>err. client (net_conn net c) s \<in> {(Inl err, s), (Inl err, s')})" for c
    using assms(1) [of c] assms(2) by (auto simp: at_most_once_def)
  obtain out t1 where conn: "connFor (net_NewClient net) (net_is_shutdown net) peerID t = (out, t1)" by fastforce
  show ?thesis
  proof (cases out)
    case (Inr c)
    then show ?thesis using call [of c] conn assms(3) by (auto simp: with_conn_def)
  qed (simp add: with_conn_def conn)
qed

text \<open>Over a connection on which no call fails there is an answer.\<close>

lemma remote_answer:
  assumes "client (net_conn net c) s = (Inr a, s')" and "handle s = (conv a, s')"
    and "connFor (net_NewClient net) (net_is_shutdown net) peerID t = (Inr c, t1)"
  shows "with_conn net peerID (\<lambda>conn s. case client conn s of
      (Inl err, s1) \<Rightarrow> (Inl err, s1) | (Inr resp, s1) \<Rightarrow> (Inr (conv resp), s1)) t s = (Inr (fst (handle s)), t1, snd (handle s))"
  using assms by (simp add: with_conn_def)

lemmas peer_defs = peer_service_def RegisterRaftPeerServiceServer_def Service_RequestVote_def Service_AppendEntries_def
  Service_InstallSnapshot_def

text \<open>The network leads to a node that runs the service.\<close>

definition leads_to :: "('st, 'sm) node network \<Rightarrow> 'st Store \<Rightarrow> 'sm StateMachine \<Rightarrow> bool" where
  "leads_to net S M \<longleftrightarrow> (\<forall>c. delivers (net_conn net c) (RegisterRaftPeerServiceServer (peer_service S M)))"

definition reliably :: "('st, 'sm) node network \<Rightarrow> 'st Store \<Rightarrow> 'sm StateMachine \<Rightarrow> bool" where
  "reliably net S M \<longleftrightarrow> (\<forall>c. reliable (net_conn net c) (RegisterRaftPeerServiceServer (peer_service S M)))"

lemma remote_RequestVote:
  assumes "leads_to net S M" and "valid_utf8 (rv_CandidateID req)"
  shows "remote (HandleRequestVote S req) n (Transport_RequestVote net peer req t n)"
    and "reliably net S M \<Longrightarrow> connFor (net_NewClient net) (net_is_shutdown net) peer t = (Inr c, t1) \<Longrightarrow>
      Transport_RequestVote net peer req t n = (Inr (fst (HandleRequestVote S req n)), t1, snd (HandleRequestVote S req n))"
proof -
  let ?q = "\<lparr>av_Term = rv_Term req, av_CandidateID = rv_CandidateID req,
    av_LastLogIndex = rv_LastLogIndex req, av_LastLogTerm = rv_LastLogTerm req\<rparr>"
  obtain r n' where h: "HandleRequestVote S req n = (r, n')" by fastforce
  have once: "at_most_once (Service_RequestVote S) ?q n (RaftPeerClient_RequestVote (net_conn net c) ?q n)" for c
    unfolding RaftPeerClient_RequestVote_def
    by (rule rpc_RequestVote.invoke_at_most_once [OF assms(1) [unfolded leads_to_def, rule_format]])
      (simp_all add: peer_defs assms(2))
  have fn: "Service_RequestVote S ?q n = (Inr \<lparr>avr_Term = rvr_Term r, avr_VoteGranted = rvr_VoteGranted r\<rparr>, n')"
    using h by (cases req) (simp add: Service_RequestVote_def)
  show "remote (HandleRequestVote S req) n (Transport_RequestVote net peer req t n)"
    using once fn unfolding Transport_RequestVote_def by (rule remote_call) (simp add: h)
  assume rel: "reliably net S M" "connFor (net_NewClient net) (net_is_shutdown net) peer t = (Inr c, t1)"
  have ans: "RaftPeerClient_RequestVote (net_conn net c) ?q n = Service_RequestVote S ?q n"
    unfolding RaftPeerClient_RequestVote_def fn
    by (rule rpc_RequestVote.invoke_reliable [OF rel(1) [unfolded reliably_def, rule_format], where fn = "Service_RequestVote S"])
      (simp_all add: fn peer_service_def RegisterRaftPeerServiceServer_def assms(2))
  show "Transport_RequestVote net peer req t n = (Inr (fst (HandleRequestVote S req n)), t1, snd (HandleRequestVote S req n))"
    using ans [unfolded fn] unfolding Transport_RequestVote_def by (rule remote_answer [where handle = "HandleRequestVote S req"]) (simp_all add: h rel(2))
qed

lemma remote_AppendEntries:
  assumes "leads_to net S M" and "valid_utf8 (ae_LeaderID req)" and "\<forall>e \<in> set (ae_Entries req). valid_Command (le_Command e)"
  shows "remote (HandleAppendEntries S req) n (Transport_AppendEntries net peer req t n)"
    and "reliably net S M \<Longrightarrow> connFor (net_NewClient net) (net_is_shutdown net) peer t = (Inr c, t1) \<Longrightarrow>
      Transport_AppendEntries net peer req t n = (Inr (fst (HandleAppendEntries S req n)), t1, snd (HandleAppendEntries S req n))"
proof -
  let ?q = "\<lparr>aa_Term = ae_Term req, aa_LeaderID = ae_LeaderID req, aa_PrevLogIndex = ae_PrevLogIndex req,
    aa_PrevLogTerm = ae_PrevLogTerm req, aa_Entries = logEntriesToAPI (ae_Entries req), aa_LeaderCommit = ae_LeaderCommit req\<rparr>"
  obtain r n' where h: "HandleAppendEntries S req n = (r, n')" by fastforce
  have once: "at_most_once (Service_AppendEntries S) ?q n (RaftPeerClient_AppendEntries (net_conn net c) ?q n)" for c
    unfolding RaftPeerClient_AppendEntries_def
    by (rule rpc_AppendEntries.invoke_at_most_once [OF assms(1) [unfolded leads_to_def, rule_format]])
      (simp_all add: peer_defs assms(2))
  have fn: "Service_AppendEntries S ?q n = (Inr \<lparr>aar_Term = aer_Term r, aar_Success = aer_Success r,
      aar_ConflictIndex = aer_ConflictIndex r, aar_MatchIndex = aer_LastLogIndex r\<rparr>, n')"
    using h assms(3) by (cases req) (simp add: Service_AppendEntries_def apiToLogEntries_inverse)
  show "remote (HandleAppendEntries S req) n (Transport_AppendEntries net peer req t n)"
    using once fn unfolding Transport_AppendEntries_def by (rule remote_call) (simp add: h)
  assume rel: "reliably net S M" "connFor (net_NewClient net) (net_is_shutdown net) peer t = (Inr c, t1)"
  have ans: "RaftPeerClient_AppendEntries (net_conn net c) ?q n = Service_AppendEntries S ?q n"
    unfolding RaftPeerClient_AppendEntries_def fn
    by (rule rpc_AppendEntries.invoke_reliable [OF rel(1) [unfolded reliably_def, rule_format], where fn = "Service_AppendEntries S"])
      (simp_all add: fn peer_service_def RegisterRaftPeerServiceServer_def assms(2))
  show "Transport_AppendEntries net peer req t n = (Inr (fst (HandleAppendEntries S req n)), t1, snd (HandleAppendEntries S req n))"
    using ans [unfolded fn] unfolding Transport_AppendEntries_def by (rule remote_answer [where handle = "HandleAppendEntries S req"]) (simp_all add: h rel(2))
qed

lemma remote_InstallSnapshot:
  assumes "leads_to net S M" and "valid_utf8 (is_LeaderID req)"
  shows "remote (HandleInstallSnapshot S M req) n (Transport_InstallSnapshot net peer req t n)"
    and "reliably net S M \<Longrightarrow> connFor (net_NewClient net) (net_is_shutdown net) peer t = (Inr c, t1) \<Longrightarrow>
      Transport_InstallSnapshot net peer req t n = (Inr (fst (HandleInstallSnapshot S M req n)), t1, snd (HandleInstallSnapshot S M req n))"
proof -
  let ?q = "\<lparr>ai_Term = is_Term req, ai_LeaderID = is_LeaderID req, ai_LastIncludedIndex = is_LastIncludedIndex req,
    ai_LastIncludedTerm = is_LastIncludedTerm req, ai_Offset = is_Offset req, ai_Data = is_Data req, ai_Done = is_Done req\<rparr>"
  obtain r n' where h: "HandleInstallSnapshot S M req n = (r, n')" by fastforce
  have once: "at_most_once (Service_InstallSnapshot S M) ?q n (RaftPeerClient_InstallSnapshot (net_conn net c) ?q n)" for c
    unfolding RaftPeerClient_InstallSnapshot_def
    by (rule rpc_InstallSnapshot.invoke_at_most_once [OF assms(1) [unfolded leads_to_def, rule_format]])
      (simp_all add: peer_defs assms(2))
  have fn: "Service_InstallSnapshot S M ?q n = (Inr \<lparr>air_Term = isr_Term r, air_Success = isr_Success r,
      air_BytesReceived = isr_BytesReceived r\<rparr>, n')"
    using h by (cases req) (simp add: Service_InstallSnapshot_def)
  show "remote (HandleInstallSnapshot S M req) n (Transport_InstallSnapshot net peer req t n)"
    using once fn unfolding Transport_InstallSnapshot_def by (rule remote_call) (simp add: h)
  assume rel: "reliably net S M" "connFor (net_NewClient net) (net_is_shutdown net) peer t = (Inr c, t1)"
  have ans: "RaftPeerClient_InstallSnapshot (net_conn net c) ?q n = Service_InstallSnapshot S M ?q n"
    unfolding RaftPeerClient_InstallSnapshot_def fn
    by (rule rpc_InstallSnapshot.invoke_reliable [OF rel(1) [unfolded reliably_def, rule_format], where fn = "Service_InstallSnapshot S M"])
      (simp_all add: fn peer_service_def RegisterRaftPeerServiceServer_def assms(2))
  show "Transport_InstallSnapshot net peer req t n = (Inr (fst (HandleInstallSnapshot S M req n)), t1, snd (HandleInstallSnapshot S M req n))"
    using ans [unfolded fn] unfolding Transport_InstallSnapshot_def by (rule remote_answer [where handle = "HandleInstallSnapshot S M req"]) (simp_all add: h rel(2))
qed

section \<open>The pool neither leaks nor closes twice\<close>

text \<open>Every step of the pool holds its mutex; a connection may be dropped long after it was handed out.\<close>

inductive pool_run :: "(string \<times> string) list \<Rightarrow> GRPCTransport \<Rightarrow> bool" for peers :: "(string \<times> string) list" where
  new: "pool_run peers (NewGRPCTransport peers)"
| connect: "pool_run peers t \<Longrightarrow> pool_run peers (snd (connFor NewClient is_shutdown peerID t))"
| drop: "pool_run peers t \<Longrightarrow> pool_run peers (dropConn peerID observed t)"
| close: "pool_run peers t \<Longrightarrow> pool_run peers (Transport_Close t)"

definition pool_ok :: "GRPCTransport \<Rightarrow> bool" where
  "pool_ok t \<longleftrightarrow> distinct (map fst (gt_conns t)) \<and> distinct (map snd (gt_conns t) @ gt_closed t) \<and>
     set (map snd (gt_conns t) @ gt_closed t) = {..<gt_dialed t}"

lemma alist_absent:
  assumes "k \<notin> fst ` set xs"
  shows "AList.delete k xs = xs" and "AList.update k v xs = xs @ [(k, v)]"
  using assms by (induction xs) (auto simp: AList.delete_eq)

lemma map_snd_delete:
  assumes "distinct (map fst xs)" and "map_of xs k = Some v" and "distinct (map snd xs)"
  shows "set (map snd (AList.delete k xs)) = set (map snd xs) - {v}"
  using assms
proof (induction xs)
  case (Cons x xs)
  show ?case
  proof (cases "fst x = k")
    case True
    then have "AList.delete k xs = xs" using Cons.prems(1) alist_absent(1) [of k xs] by auto
    then show ?thesis using True Cons.prems by (auto simp: AList.delete_eq)
  next
    case False
    then have "map_of xs k = Some v" using Cons.prems(2) by (simp split: prod.splits if_splits)
    moreover from this have "v \<in> set (map snd xs)" by (force dest: map_of_SomeD)
    ultimately show ?thesis using Cons False by (auto simp: AList.delete_eq)
  qed
qed simp

lemma close_conn_ok:
  assumes "pool_ok t" and "map_of (gt_conns t) peerID = Some conn"
  shows "pool_ok (close_conn peerID conn t)"
proof -
  have d: "distinct (map fst (gt_conns t))" "distinct (map snd (gt_conns t))" using assms(1) by (simp_all add: pool_ok_def)

  have "distinct (map snd (AList.delete peerID (gt_conns t)))" using d(2) by (simp add: AList.delete_eq distinct_map_filter)
  moreover have "distinct (map fst (AList.delete peerID (gt_conns t)))" using d(1) by (simp add: AList.delete_eq distinct_map_filter)
  moreover have "conn \<in> set (map snd (gt_conns t))" using assms(2) by (force dest: map_of_SomeD)
  ultimately show ?thesis using assms(1) map_snd_delete [OF d(1) assms(2) d(2)]
    by (auto simp: pool_ok_def close_conn_def simp del: set_map)
qed

lemma dial_ok:
  assumes "pool_ok t" and "map_of (gt_conns t) peerID = None"
  shows "pool_ok (snd (dial NewClient peerID t))"
proof -
  have "AList.update peerID c (gt_conns t) = gt_conns t @ [(peerID, c)]" for c
    using assms(2) by (simp add: alist_absent map_of_eq_None_iff)
  then show ?thesis using assms
    by (auto simp: dial_def Let_def pool_ok_def map_of_eq_None_iff lessThan_Suc split: option.split)
qed

lemma connFor_ok: "pool_ok t \<Longrightarrow> pool_ok (snd (connFor NewClient is_shutdown peerID t))"
  using close_conn_ok [of t peerID] dial_ok [of _ peerID NewClient]
  by (auto simp: connFor_def close_conn_def AList.delete_conv split: option.split)

lemma dropConn_ok: "pool_ok t \<Longrightarrow> pool_ok (dropConn peerID observed t)"
  by (simp add: dropConn_def close_conn_ok)

lemma Transport_Close_ok:
  assumes "pool_ok t"
  shows "pool_ok (Transport_Close t)" and "gt_conns (Transport_Close t) = []"
proof -
  have "pool_ok (fold (\<lambda>(p, c). close_conn p c) xs t) \<and> gt_conns (fold (\<lambda>(p, c). close_conn p c) xs t) = []"
    if "gt_conns t = xs" "pool_ok t" for xs t
    using that
  proof (induction xs arbitrary: t)
    case (Cons x xs)
    obtain p c where x: "x = (p, c)" by fastforce
    then have "p \<notin> fst ` set xs" using Cons.prems by (simp add: pool_ok_def)
    then have "gt_conns (close_conn p c t) = xs"
      using Cons.prems(1) x alist_absent(1) [of p xs] by (simp add: close_conn_def AList.delete_eq)
    moreover have "pool_ok (close_conn p c t)" using Cons.prems x by (intro close_conn_ok) simp_all
    ultimately show ?case using Cons.IH x by simp
  qed simp
  from this [OF refl assms] show "pool_ok (Transport_Close t)" "gt_conns (Transport_Close t) = []" by (simp_all add: Transport_Close_def)
qed

lemma pool_run_ok: "pool_run peers t \<Longrightarrow> pool_ok t"
  by (induction rule: pool_run.induct) (simp_all add: connFor_ok dropConn_ok Transport_Close_ok, simp add: pool_ok_def NewGRPCTransport_def)

section \<open>Properties\<close>

text \<open>C23. A remote call is the direct call of the peer's handler.  Over connections that run the
  registered handler at most once, a call of the transport that returns a response returns exactly
  what the handler of the peer's node returns for the very request, command by command, and leaves
  the peer in the state the handler leaves; a call that returns an error has run the handler once or
  not at all.  With a connection on which no call fails, it returns that response.  The strings in
  the request have to be valid UTF-8; a snapshot chunk may be any bytes.\<close>

theorem transport_transparent:
  assumes "leads_to net S M" and "valid_utf8 (rv_CandidateID vote)" and "valid_utf8 (ae_LeaderID app)"
    and "\<forall>e \<in> set (ae_Entries app). valid_Command (le_Command e)" and "valid_utf8 (is_LeaderID snap)"
  shows "remote (HandleRequestVote S vote) n (Transport_RequestVote net peer vote t n) \<and>
    remote (HandleAppendEntries S app) n (Transport_AppendEntries net peer app t n) \<and>
    remote (HandleInstallSnapshot S M snap) n (Transport_InstallSnapshot net peer snap t n) \<and>
    (reliably net S M \<and> connFor (net_NewClient net) (net_is_shutdown net) peer t = (Inr c, t1) \<longrightarrow>
      Transport_RequestVote net peer vote t n = (Inr (fst (HandleRequestVote S vote n)), t1, snd (HandleRequestVote S vote n)) \<and>
      Transport_AppendEntries net peer app t n = (Inr (fst (HandleAppendEntries S app n)), t1, snd (HandleAppendEntries S app n)) \<and>
      Transport_InstallSnapshot net peer snap t n =
        (Inr (fst (HandleInstallSnapshot S M snap n)), t1, snd (HandleInstallSnapshot S M snap n)))"
  using remote_RequestVote [OF assms(1,2)] remote_AppendEntries [OF assms(1,3,4)] remote_InstallSnapshot [OF assms(1,5)]
  by simp

definition ex_peers :: "(string \<times> string) list" where
  "ex_peers = [(''b'', ''b:1'')]"

text \<open>A network on which every call arrives, and the request of an append to the example node.\<close>

definition ex_network :: "(unit, KVStateMachine) node network" where
  "ex_network = \<lparr>net_NewClient = (\<lambda>_ _. None), net_is_shutdown = (\<lambda>_. False),
     net_conn = (\<lambda>c method data n. case map_of (RegisterRaftPeerServiceServer (peer_service ex_store KV)) method of
       Some h \<Rightarrow> h data n | None \<Rightarrow> (Inl (ErrorString ''unknown method''), n))\<rparr>"

lemma ex_network_ok: "leads_to ex_network ex_store KV" "reliably ex_network ex_store KV"
proof -
  show "reliably ex_network ex_store KV" by (simp add: reliably_def reliable_def ex_network_def)
  then show "leads_to ex_network ex_store KV" by (simp add: leads_to_def reliably_def reliable_delivers)
qed

theorem transport_transparent_witness:
  "\<exists>t resp n. Transport_AppendEntries ex_network ''b'' ex_request (NewGRPCTransport ex_peers) ex_node = (Inr resp, t, n) \<and>
     aer_Success resp \<and> commitIndex n = 4"
proof -
  let ?t = "NewGRPCTransport ex_peers"
  obtain t1 where conn: "connFor (net_NewClient ex_network) (net_is_shutdown ex_network) ''b'' ?t = (Inr 0, t1)"
    by (simp add: connFor_def dial_def NewGRPCTransport_def ex_peers_def ex_network_def get_str_def)
  have v: "valid_utf8 (rv_CandidateID ex_vote_request)" "valid_utf8 (ae_LeaderID ex_request)"
    "\<forall>e \<in> set (ae_Entries ex_request). valid_Command (le_Command e)" "valid_utf8 (is_LeaderID ex_chunk)"
    by (simp_all add: ex_vote_request_def ex_request_def ex_chunk_def snapshot_request_def ex_entry_def noop_command_def
        valid_Command_def Op_defs valid_utf8_ascii byte_def Let_def)
  show ?thesis
    using transport_transparent [OF ex_network_ok(1) v, of ex_node "''b''" ?t 0 t1] ex_network_ok(2) conn ex_request_run by simp
qed

text \<open>C24. The connection pool.  However the goroutines of a node interleave their use of it, every
  connection ever created is either in the pool or closed, exactly one of the two; none is closed
  twice; a peer has at most one; an error observed on a connection that was replaced meanwhile
  leaves the new one alone; and closing the transport closes all of them.\<close>

theorem pool_invariant:
  assumes "pool_run peers t"
  shows "distinct (map fst (gt_conns t)) \<and> distinct (map snd (gt_conns t) @ gt_closed t) \<and>
    set (map snd (gt_conns t) @ gt_closed t) = {..<gt_dialed t} \<and>
    (\<forall>c d. map_of (gt_conns t) peerID = Some d \<and> c \<noteq> d \<longrightarrow> dropConn peerID c t = t) \<and>
    set (gt_closed (Transport_Close t)) = {..<gt_dialed (Transport_Close t)} \<and> gt_conns (Transport_Close t) = []"
proof -
  have ok: "pool_ok t" "pool_ok (Transport_Close t)" using pool_run_ok [OF assms] Transport_Close_ok(1) by blast+
  moreover have "dropConn peerID c t = t" if "map_of (gt_conns t) peerID = Some d" "c \<noteq> d" for c d
    using that by (simp add: dropConn_def)
  ultimately show ?thesis using Transport_Close_ok(2) [OF ok(1)] by (simp add: pool_ok_def) blast
qed

text \<open>A vote is lost, the connection is dropped, and the next call dials again.\<close>

theorem pool_invariant_witness:
  "\<exists>t. pool_run ex_peers t \<and> gt_conns t = [(''b'', 1)] \<and> gt_closed t = [0] \<and> dropConn ''b'' 0 t = t"
proof -
  let ?dial = "\<lambda>t. snd (connFor (\<lambda>_ _. None) (\<lambda>_. False) ''b'' t)"
  define t where "t = ?dial (dropConn ''b'' 0 (?dial (NewGRPCTransport ex_peers)))"
  have t: "gt_conns t = [(''b'', 1)]" "gt_closed t = [0]"
    by (simp_all add: t_def connFor_def dial_def dropConn_def close_conn_def NewGRPCTransport_def ex_peers_def get_str_def
        AList.delete_eq)
  moreover have run: "pool_run ex_peers t" unfolding t_def by (intro pool_run.intros)
  ultimately show ?thesis using pool_invariant [OF run, of "''b''"] by auto
qed

end
