(* ===== verification/Server_Main.thy ===== *)
theory Server_Main
  imports Server_Transport Storage_WAL Raft_Boot
begin

text \<open>
  The server program (\<open>cmd/server/main.go\<close>): its flags and environment variables, and how \<open>main\<close> puts
  the parts together and takes them down.

  Of the standard library, \<open>flag.Parse\<close>, \<open>strconv\<close> and \<open>strings\<close> are defined as far as they are used.
  \<open>time.ParseDuration\<close>, which calculates with floating-point numbers, is a parameter, and so are the
  environment and the outcome of \<open>net.Listen\<close>.  Serving and waiting for a signal are not modelled: the
  theory \<open>Raft_Process\<close> is about the time between the start and the shutdown.
\<close>

section \<open>Package strconv\<close>

definition parse_sign :: "string \<Rightarrow> bool \<times> string" where
  "parse_sign s =
     (case s of
        [] \<Rightarrow> (False, [])
      | c # t \<Rightarrow> if c = CHR ''-'' then (True, t) else if c = CHR ''+'' then (False, t) else (False, s))"

text \<open>A magnitude with its sign, if it is an \<open>int\<close> of 64 bits.\<close>

definition int_range :: "bool \<Rightarrow> nat \<Rightarrow> int option" where
  "int_range neg n =
     (if neg then if n \<le> 2 ^ 63 then Some (- int n) else None
      else if n < 2 ^ 63 then Some (int n) else None)"

definition Atoi :: "string \<Rightarrow> int option" where
  "Atoi s =
     (case parse_sign s of (neg, t) \<Rightarrow>
        if t = [] \<or> \<not> list_all is_digit t then None else int_range neg (undec t))"

text \<open>\<open>strconv.ParseInt\<close> with base 0, as a flag of type int uses it: the base is in the prefix, and
  underscores may separate digits.\<close>

definition digit_value :: "char \<Rightarrow> nat option" where
  "digit_value c =
     (if is_digit c then Some (byte c - 48)
      else if 65 \<le> byte (upper c) \<and> byte (upper c) \<le> 90 then Some (byte (upper c) - 55)
      else None)"

fun parse_digits :: "nat \<Rightarrow> nat \<Rightarrow> string \<Rightarrow> nat option" where
  "parse_digits base n [] = Some n"
| "parse_digits base n (c # s) =
     (if c = CHR ''_'' then parse_digits base n s
      else case digit_value c of
        None \<Rightarrow> None
      | Some d \<Rightarrow> if d \<ge> base then None else parse_digits base (n * base + d) s)"

definition split_base :: "string \<Rightarrow> nat \<times> string" where
  "split_base s =
     (case s of
        c # t \<Rightarrow>
          if c \<noteq> CHR ''0'' then (10, s)
          else (case t of
            d # e # u \<Rightarrow>
              if upper d = CHR ''B'' then (2, e # u)
              else if upper d = CHR ''O'' then (8, e # u)
              else if upper d = CHR ''X'' then (16, e # u)
              else (8, t)
          | _ \<Rightarrow> (8, t))
      | [] \<Rightarrow> (10, []))"

text \<open>\<open>underscoreOK\<close>: an underscore has a digit, or the prefix, before it and a digit after it.  The
  state is what was last seen.\<close>

datatype last_seen = At_start | Digit | Underscore | Another

fun underscore_loop :: "bool \<Rightarrow> last_seen \<Rightarrow> string \<Rightarrow> bool" where
  "underscore_loop hex saw [] \<longleftrightarrow> saw \<noteq> Underscore"
| "underscore_loop hex saw (c # s) \<longleftrightarrow>
     (if is_digit c \<or> hex \<and> 65 \<le> byte (upper c) \<and> byte (upper c) \<le> 70 then underscore_loop hex Digit s
      else if c = CHR ''_'' then saw = Digit \<and> underscore_loop hex Underscore s
      else saw \<noteq> Underscore \<and> underscore_loop hex Another s)"

definition underscoreOK :: "string \<Rightarrow> bool" where
  "underscoreOK s =
     (case s of
        c # d # t \<Rightarrow>
          if c = CHR ''0'' \<and> upper d \<in> {CHR ''B'', CHR ''O'', CHR ''X''}
          then underscore_loop (upper d = CHR ''X'') Digit t
          else underscore_loop False At_start s
      | _ \<Rightarrow> underscore_loop False At_start s)"

definition ParseInt0 :: "string \<Rightarrow> int option" where
  "ParseInt0 s =
     (case parse_sign s of (neg, t) \<Rightarrow>
        if t = [] then None
        else case split_base t of (base, u) \<Rightarrow>
          (case parse_digits base 0 u of
             None \<Rightarrow> None
           | Some n \<Rightarrow> if CHR ''_'' \<in> set u \<and> \<not> underscoreOK t then None else int_range neg n))"

section \<open>Environment variables and maps\<close>

definition getenv :: "(string \<Rightarrow> string) \<Rightarrow> string \<Rightarrow> string \<Rightarrow> string" where
  "getenv env key fallback = (let value = env key in if value \<noteq> '''' then value else fallback)"

definition getenvInt :: "(string \<Rightarrow> string) \<Rightarrow> string \<Rightarrow> int \<Rightarrow> int" where
  "getenvInt env key fallback =
     (let value = env key
      in if value \<noteq> '''' then (case Atoi value of Some parsed \<Rightarrow> parsed | None \<Rightarrow> fallback) else fallback)"

text \<open>\<open>strings.Cut\<close> at a byte.\<close>

definition Cut :: "char \<Rightarrow> string \<Rightarrow> string \<times> string \<times> bool" where
  "Cut c s =
     (if c \<in> set s then (takeWhile (\<lambda>a. a \<noteq> c) s, tl (dropWhile (\<lambda>a. a \<noteq> c) s), True) else (s, '''', False))"

fun parseMap_loop :: "string list \<Rightarrow> (string \<times> string) list \<Rightarrow> goerror + (string \<times> string) list" where
  "parseMap_loop [] out = Inr out"
| "parseMap_loop (part # parts) out =
     (case Cut CHR ''='' (TrimSpace part) of (key, value, ok) \<Rightarrow>
        if \<not> ok \<or> key = '''' \<or> value = '''' then Inl (ErrorString ''invalid mapping %q, want id=address'')
        else parseMap_loop parts (AList.update key value out))"

definition parseMap :: "string \<Rightarrow> goerror + (string \<times> string) list" where
  "parseMap raw0 =
     (let raw = TrimSpace raw0
      in if raw = '''' then Inr [] else parseMap_loop (Split CHR '','' raw) [])"

section \<open>Flags\<close>

text \<open>\<open>flag.Parse\<close>: the values set, in order, by flags that all take an argument; \<open>valid\<close> is whether a
  flag accepts the argument.  Parsing stops at the first argument that is no flag, or after \<open>--\<close>.\<close>

datatype parsed_flags = Flags_set "(string \<times> string) list" | Flags_help | Flags_bad

fun flag_loop :: "(string \<Rightarrow> string \<Rightarrow> bool) \<Rightarrow> string list \<Rightarrow> string list \<Rightarrow> (string \<times> string) list \<Rightarrow> parsed_flags" where
  "flag_loop valid defined [] vals = Flags_set vals"
| "flag_loop valid defined (s # args) vals =
     (if length s < 2 \<or> hd s \<noteq> CHR ''-'' then Flags_set vals
      else if s = ''--'' then Flags_set vals
      else
        (let name = (if s ! 1 = CHR ''-'' then drop 2 s else drop 1 s)
         in if name = '''' \<or> hd name = CHR ''-'' \<or> hd name = CHR ''='' then Flags_bad
            else (case Cut CHR ''='' name of (key, value, hasValue) \<Rightarrow>
              if key \<notin> set defined then (if key = ''help'' \<or> key = ''h'' then Flags_help else Flags_bad)
              else if hasValue then
                (if valid key value then flag_loop valid defined args (AList.update key value vals) else Flags_bad)
              else (case args of
                  [] \<Rightarrow> Flags_bad
                | v # rest \<Rightarrow>
                    if valid key v then flag_loop valid defined rest (AList.update key v vals) else Flags_bad))))"

record config =
  sc_id :: string
  sc_listen :: string
  sc_advertise :: string
  sc_dataDir :: string
  sc_peers :: "(string \<times> string) list"
  sc_clientAddrs :: "(string \<times> string) list"
  sc_electionMin :: duration
  sc_electionMax :: duration
  sc_heartbeat :: duration
  sc_snapshotThreshold :: int

datatype parsed_config = Exit nat | Bad_config goerror | Good_config config

definition flag_names :: "string list" where
  "flag_names = [''id'', ''listen'', ''advertise'', ''data-dir'', ''peers'', ''client-addrs'', ''election-min'',
     ''election-max'', ''heartbeat'', ''snapshot-threshold'']"

definition flag_valid :: "string \<Rightarrow> string \<Rightarrow> bool" where
  "flag_valid key value \<longleftrightarrow> key = ''snapshot-threshold'' \<longrightarrow> ParseInt0 value \<noteq> None"

text \<open>The conversion of the values, after \<open>flag.Parse\<close>; \<open>str\<close> gives the value of a string flag.\<close>

definition convert_flags :: "(string \<Rightarrow> goerror + duration) \<Rightarrow> (string \<Rightarrow> string \<Rightarrow> string \<Rightarrow> string) \<Rightarrow> int \<Rightarrow> goerror + config" where
  "convert_flags ParseDuration str threshold =
     (let i = str ''id'' ''NODE_ID'' ''node1''; adv = str ''advertise'' ''RAFT_ADVERTISE'' ''127.0.0.1:9001''
      in case parseMap (str ''peers'' ''RAFT_PEERS'' ''node1=127.0.0.1:9001'') of
        Inl err \<Rightarrow> Inl err
      | Inr peers \<Rightarrow>
          (case parseMap (str ''client-addrs'' ''RAFT_CLIENT_ADDRS'' '''') of
             Inl err \<Rightarrow> Inl err
           | Inr addrs \<Rightarrow>
               (let addrs1 = (if get_str (map_of addrs) i = '''' then AList.update i adv addrs else addrs)
                in case ParseDuration (str ''election-min'' ''RAFT_ELECTION_MIN'' ''1s'') of
                  Inl err \<Rightarrow> Inl err
                | Inr electionMin \<Rightarrow>
                    (case ParseDuration (str ''election-max'' ''RAFT_ELECTION_MAX'' ''2s'') of
                       Inl err \<Rightarrow> Inl err
                     | Inr electionMax \<Rightarrow>
                         (case ParseDuration (str ''heartbeat'' ''RAFT_HEARTBEAT'' ''150ms'') of
                            Inl err \<Rightarrow> Inl err
                          | Inr hb \<Rightarrow>
                              Inr \<lparr>sc_id = i, sc_listen = str ''listen'' ''RAFT_LISTEN'' '':9001'', sc_advertise = adv,
                                   sc_dataDir = str ''data-dir'' ''RAFT_DATA_DIR'' ''data/node1'', sc_peers = peers,
                                   sc_clientAddrs = addrs1, sc_electionMin = electionMin, sc_electionMax = electionMax,
                                   sc_heartbeat = hb, sc_snapshotThreshold = threshold\<rparr>)))))"

definition parseFlags :: "(string \<Rightarrow> goerror + duration) \<Rightarrow> (string \<Rightarrow> string) \<Rightarrow> string list \<Rightarrow> parsed_config" where
  "parseFlags ParseDuration env args =
     (case flag_loop flag_valid flag_names args [] of
        Flags_help \<Rightarrow> Exit 0
      | Flags_bad \<Rightarrow> Exit 2
      | Flags_set vals \<Rightarrow>
          (case convert_flags ParseDuration
                  (\<lambda>name var fallback. case map_of vals name of Some v \<Rightarrow> v | None \<Rightarrow> getenv env var fallback)
                  (case map_of vals ''snapshot-threshold'' of
                     Some v \<Rightarrow> the (ParseInt0 v)
                   | None \<Rightarrow> getenvInt env ''RAFT_SNAPSHOT_THRESHOLD'' 64) of
             Inl err \<Rightarrow> Bad_config err
           | Inr cfg \<Rightarrow> Good_config cfg))"

section \<open>Starting and stopping\<close>

datatype server = Exited nat | Fatal goerror | Serving Files "(fs, KVStateMachine) node" GRPCTransport

definition server_start :: "(string \<Rightarrow> goerror + duration) \<Rightarrow> (string \<Rightarrow> string) \<Rightarrow> goerror option \<Rightarrow> nat stream \<Rightarrow> time stream \<Rightarrow>
    string list \<Rightarrow> fs \<Rightarrow> server \<times> fs" where
  "server_start ParseDuration env listen_err rnd now args s =
     (case parseFlags ParseDuration env args of
        Exit code \<Rightarrow> (Exited code, s)
      | Bad_config err \<Rightarrow> (Fatal err, s)
      | Good_config cfg \<Rightarrow>
          (case Open (sc_dataDir cfg) s of
             (Inl err, s1) \<Rightarrow> (Fatal err, s1)
           | (Inr files, s1) \<Rightarrow>
               (case NewNode (FileStore files) KV rnd now
                       \<lparr>cfg_ID = sc_id cfg, cfg_Address = sc_advertise cfg, cfg_Peers = Some (sc_peers cfg),
                        cfg_ClientAddresses = sc_clientAddrs cfg, cfg_ElectionTimeoutMin = sc_electionMin cfg,
                        cfg_ElectionTimeoutMax = sc_electionMax cfg, cfg_HeartbeatInterval = sc_heartbeat cfg,
                        cfg_ReadTimeout = 0, cfg_SnapshotThreshold = sc_snapshotThreshold cfg,
                        cfg_SnapshotChunkBytes = 0\<rparr> NewKVStateMachine s1 of
                  (Inl err, s2) \<Rightarrow> (Fatal err, s2)
                | (Inr node, s2) \<Rightarrow>
                    (case listen_err of
                       Some err \<Rightarrow> (Fatal err, s2)
                     | None \<Rightarrow> (Serving files node (NewGRPCTransport (sc_peers cfg)), s2)))))"

definition server_shutdown :: "(fs, KVStateMachine) node \<Rightarrow> GRPCTransport \<Rightarrow> (fs, KVStateMachine) node \<times> GRPCTransport" where
  "server_shutdown node transport = (Stop node, Transport_Close transport)"

section \<open>Maps are parsed as they are written\<close>

definition plain :: "string \<Rightarrow> bool" where
  "plain s \<longleftrightarrow> s \<noteq> '''' \<and> list_all (\<lambda>c. 33 \<le> byte c \<and> byte c < 127 \<and> c \<noteq> CHR '','') s"

lemma space_runes_outside:
  "list_all (\<lambda>r. \<not> (33 \<le> byte (hd (encode_rune r)) \<and> byte (hd (encode_rune r)) < 127) \<and>
     \<not> (33 \<le> byte (last (encode_rune r)) \<and> byte (last (encode_rune r)) < 127)) space_runes"
  by (simp add: space_runes_def encode_rune_def is_rune_def byte_char_of)

lemma TrimSpace_visible:
  assumes "s \<noteq> []" and "33 \<le> byte (hd s)" "byte (hd s) < 127" and "33 \<le> byte (last s)" "byte (last s) < 127"
  shows "TrimSpace s = s"
proof -
  have "\<not> has_prefix (encode_rune r) s" if r: "r \<in> set space_runes" for r
  proof
    assume "has_prefix (encode_rune r) s"
    then have "hd (encode_rune r) = hd s"
      by (metis encode_rune_not_Nil has_prefix_def hd_take length_greater_0_conv)
    then show False using space_runes_outside r assms(2,3) by (auto simp: list_all_iff)
  qed
  then have "trim_left s = s" by (subst trim_left.simps) (simp add: find_None_all)
  moreover have "\<not> has_suffix (encode_rune r) s" if r: "r \<in> set space_runes" for r
  proof
    assume "has_suffix (encode_rune r) s"
    then have eq: "drop (length s - length (encode_rune r)) s = encode_rune r" by (simp only: has_suffix_def)
    then have "length s - length (encode_rune r) < length s" by (metis drop_all encode_rune_not_Nil not_le)
    then have "last (encode_rune r) = last s" using eq by (metis last_drop)
    then show False using space_runes_outside r assms(4,5) by (auto simp: list_all_iff)
  qed
  then have "trim_right s = s" by (subst trim_right.simps) (simp add: find_None_all)
  ultimately show ?thesis by (simp add: TrimSpace_def)
qed

lemma TrimSpace_Nil: "TrimSpace '''' = ''''"
proof -
  have "trim_left '''' = ''''" by (subst trim_left.simps) (simp add: find_None_all has_prefix_def encode_rune_not_Nil [symmetric])
  moreover have "trim_right '''' = ''''" by (subst trim_right.simps) (simp add: find_None_all has_suffix_def encode_rune_not_Nil [symmetric])
  ultimately show ?thesis by (simp add: TrimSpace_def)
qed

definition mapping_text :: "string \<times> string \<Rightarrow> string" where
  "mapping_text p = fst p @ ''='' @ snd p"

definition mapping_ok :: "string \<times> string \<Rightarrow> bool" where
  "mapping_ok p \<longleftrightarrow> plain (fst p) \<and> CHR ''='' \<notin> set (fst p) \<and> plain (snd p)"

lemma mapping_text_chars:
  assumes "mapping_ok p"
  shows "mapping_text p \<noteq> []" "\<forall>c \<in> set (mapping_text p). 33 \<le> byte c \<and> byte c < 127 \<and> c \<noteq> CHR '',''"
  using assms by (auto simp: mapping_text_def mapping_ok_def plain_def list_all_iff byte_def [of "CHR ''=''"])

lemma TrimSpace_mapping:
  assumes "mapping_ok p"
  shows "TrimSpace (mapping_text p) = mapping_text p"
  using mapping_text_chars [OF assms] by (intro TrimSpace_visible) auto

lemma Cut_mapping: "mapping_ok p \<Longrightarrow> Cut CHR ''='' (mapping_text p) = (fst p, snd p, True)"
  by (auto simp: Cut_def mapping_text_def mapping_ok_def takeWhile_tail dropWhile_append)

lemma Split_not_Nil [simp]: "Split c s \<noteq> []"
  by (cases s) (auto split: list.split)

lemma Split_first: "c \<notin> set x \<Longrightarrow> Split c (x @ c # s) = x # Split c s"
  by (induction x) auto

lemma Split_none: "c \<notin> set x \<Longrightarrow> Split c x = [x]"
  by (induction x) auto

lemma Split_sep:
  assumes "\<forall>x \<in> set xs. CHR '','' \<notin> set x" and "xs \<noteq> []"
  shows "Split CHR '','' (sep xs) = xs"
  using assms by (induction xs rule: sep.induct) (simp_all add: Split_first Split_none)

lemma parseMap_loop_mappings:
  assumes "\<forall>p \<in> set kvs. mapping_ok p" and "distinct (map fst out @ map fst kvs)"
  shows "parseMap_loop (map mapping_text kvs) out = Inr (out @ kvs)"
  using assms
proof (induction kvs arbitrary: out)
  case (Cons p kvs)
  then have "AList.update (fst p) (snd p) out = out @ [p]" by (simp add: alist_absent(2))
  moreover have "fst p \<noteq> ''''" "snd p \<noteq> ''''" using Cons.prems(1) by (auto simp: mapping_ok_def plain_def)
  moreover have "parseMap_loop (map mapping_text kvs) (out @ [p]) = Inr ((out @ [p]) @ kvs)"
    using Cons.prems by (intro Cons.IH) auto
  ultimately show ?case using Cons.prems(1) by (simp add: TrimSpace_mapping Cut_mapping)
qed simp

lemma sep_ends:
  assumes "xs \<noteq> []" and "\<forall>x \<in> set xs. x \<noteq> []"
  shows "sep xs \<noteq> []" "hd (sep xs) = hd (hd xs)" "last (sep xs) = last (last xs)"
  using assms by (induction xs rule: sep.induct) auto

lemma parseMap_written:
  assumes "\<forall>p \<in> set kvs. mapping_ok p" and "distinct (map fst kvs)" and "kvs \<noteq> []"
  shows "parseMap (sep (map mapping_text kvs)) = Inr kvs"
proof -
  let ?xs = "map mapping_text kvs"
  have x: "?xs \<noteq> []" "\<forall>x \<in> set ?xs. x \<noteq> []" "\<forall>x \<in> set ?xs. CHR '','' \<notin> set x"
    using assms(1,3) mapping_text_chars by fastforce+
  have h: "mapping_ok (hd kvs)" "mapping_ok (last kvs)" using assms(1,3) by auto
  have m: "hd ?xs = mapping_text (hd kvs)" "last ?xs = mapping_text (last kvs)"
    using assms(3) by (simp_all add: hd_map last_map)
  have "TrimSpace (sep ?xs) = sep ?xs"
    using sep_ends [OF x(1,2)] mapping_text_chars [OF h(1)] mapping_text_chars [OF h(2)]
    by (intro TrimSpace_visible) (simp_all add: m)
  then show ?thesis
    using sep_ends(1) [OF x(1,2)] Split_sep [OF x(3,1)] parseMap_loop_mappings [OF assms(1), of "[]"] assms(2)
    by (simp add: parseMap_def)
qed

lemma parseMap_loop_ok:
  assumes "parseMap_loop parts out = Inr m" and "distinct (map fst out)" and "\<forall>(k, v) \<in> set out. k \<noteq> '''' \<and> v \<noteq> ''''"
  shows "distinct (map fst m) \<and> (\<forall>(k, v) \<in> set m. k \<noteq> '''' \<and> v \<noteq> '''')"
  using assms
proof (induction parts out rule: parseMap_loop.induct)
  case (2 part parts out)
  obtain key val ok where c: "Cut CHR ''='' (TrimSpace part) = (key, val, ok)" by (metis prod_cases3)
  then have k: "ok" "key \<noteq> ''''" "val \<noteq> ''''" and run: "parseMap_loop parts (AList.update key val out) = Inr m"
    using "2.prems"(1) by (auto split: if_splits)
  have "set (AList.update key val out) \<subseteq> insert (key, val) (set out)" by (induction out) auto
  then show ?case using "2.IH" [OF c [symmetric] refl] k run "2.prems"(2,3) distinct_update [of out key val] by fastforce
qed simp

lemma parseMap_ok:
  assumes "parseMap raw = Inr m"
  shows "distinct (map fst m) \<and> (\<forall>(k, v) \<in> set m. k \<noteq> '''' \<and> v \<noteq> '''')"
proof (cases "TrimSpace raw = ''''")
  case True
  then show ?thesis using assms by (simp add: parseMap_def)
next
  case False
  then have "parseMap_loop (Split CHR '','' (TrimSpace raw)) [] = Inr m" using assms by (simp add: parseMap_def)
  then show ?thesis by (rule parseMap_loop_ok) simp_all
qed

section \<open>Properties\<close>

text \<open>C33. The maps of peers and client addresses.  A map written as \<open>id=address\<close> pairs with commas between
  them, with visible characters only, is parsed to that map, in that order; and whatever is parsed
  without an error is a map in which no id occurs twice and neither an id nor an address is empty.\<close>

theorem parseMap_roundtrip:
  assumes "\<forall>p \<in> set kvs. mapping_ok p" and "distinct (map fst kvs)" and "kvs \<noteq> []"
  shows "parseMap (sep (map mapping_text kvs)) = Inr kvs \<and>
    (\<forall>raw m. parseMap raw = Inr m \<longrightarrow> distinct (map fst m) \<and> (\<forall>(k, v) \<in> set m. k \<noteq> '''' \<and> v \<noteq> ''''))"
  using parseMap_written [OF assms] parseMap_ok by simp

theorem parseMap_roundtrip_witness:
  "parseMap ''node1=node1:9001,node2=node2:9001,node3=node3:9001'' =
     Inr [(''node1'', ''node1:9001''), (''node2'', ''node2:9001''), (''node3'', ''node3:9001'')]"
  using parseMap_roundtrip [of "[(''node1'', ''node1:9001''), (''node2'', ''node2:9001''), (''node3'', ''node3:9001'')]"]
  by (simp add: mapping_text_def mapping_ok_def plain_def byte_def)

text \<open>A command line with both forms of a flag; the other values are the defaults.\<close>

definition ex_durations :: "string \<Rightarrow> goerror + duration" where
  "ex_durations s = (if s = ''1s'' then Inr (1000 * millisecond) else if s = ''2s'' then Inr (2000 * millisecond)
     else if s = ''150ms'' then Inr (150 * millisecond) else Inl (ErrorString ''time: invalid duration''))"

lemma upper_x: "upper CHR ''x'' = CHR ''X''"
  by code_simp

lemma compose_flags:
  "parseFlags ex_durations (\<lambda>_. '''') [''-id=node1'', ''-listen=:9001'', ''-advertise'', ''node1:9001'',
     ''--peers=node1=node1:9001'', ''-snapshot-threshold=0x10''] =
   Good_config \<lparr>sc_id = ''node1'', sc_listen = '':9001'', sc_advertise = ''node1:9001'', sc_dataDir = ''data/node1'',
     sc_peers = [(''node1'', ''node1:9001'')], sc_clientAddrs = [(''node1'', ''node1:9001'')],
     sc_electionMin = 1000 * millisecond, sc_electionMax = 2000 * millisecond, sc_heartbeat = 150 * millisecond,
     sc_snapshotThreshold = 16\<rparr>"
proof -
  have n: "ParseInt0 ''0x10'' = Some 16"
    by (simp add: ParseInt0_def parse_sign_def split_base_def upper_x digit_value_def is_digit_def byte_def int_range_def)
  have p: "parseMap ''node1=node1:9001'' = Inr [(''node1'', ''node1:9001'')]"
    using parseMap_written [of "[(''node1'', ''node1:9001'')]"]
    by (simp add: mapping_text_def mapping_ok_def plain_def byte_def)
  have e: "parseMap '''' = Inr []" by (simp add: parseMap_def TrimSpace_Nil)
  show ?thesis
    by (simp add: parseFlags_def flag_names_def flag_valid_def Cut_def n convert_flags_def getenv_def p e get_str_def ex_durations_def
        Let_def)
qed

end
